(* ===== verification/Go_Prelude.thy ===== *)
theory Go_Prelude
  imports Main "HOL-Library.Word" "HOL-Library.Multiset"
begin

section \<open>Shared vocabulary of the models\<close>

text \<open>
  What the component theories share: Go's 64-bit signed integers, clock readings and
  durations, the reachable states of a step relation with one invariant rule for all of
  them, and a few facts on lists that are updated by index.
\<close>

named_theorems i64_arith \<open>facts that place a value in the range of int64\<close>
named_theorems go_defs \<open>definitions of the language-level helpers\<close>

subsection \<open>Signed 64-bit integers\<close>

text \<open>
  Go's \<open>int\<close>, \<open>int64\<close> and \<open>time.Duration\<close> are 64-bit two's complement numbers. A value
  is an \<^typ>\<open>int\<close>; an arithmetic result is wrapped by \<open>wrap64\<close>, which is the reading of a
  \<open>64 word\<close> as a signed number (lemma \<open>wrap64_word\<close>).
\<close>

type_synonym i64 = int

definition min_i64 :: i64 where [go_defs]: "min_i64 = - (2 ^ 63)"
definition max_i64 :: i64 where [go_defs]: "max_i64 = 2 ^ 63 - 1"

definition in_i64 :: "int \<Rightarrow> bool" where
  [go_defs]: "in_i64 x \<longleftrightarrow> min_i64 \<le> x \<and> x \<le> max_i64"

definition wrap64 :: "int \<Rightarrow> i64" where
  [go_defs]: "wrap64 x = (x + 2 ^ 63) mod 2 ^ 64 - 2 ^ 63"

lemma wrap64_id [simp, i64_arith]: "in_i64 x \<Longrightarrow> wrap64 x = x"
  by (simp add: go_defs)

lemma wrap64_in [simp, i64_arith]: "in_i64 (wrap64 x)"
proof -
  have "0 \<le> (x + 2 ^ 63) mod 2 ^ 64" and "(x + 2 ^ 63) mod 2 ^ 64 < (2 ^ 64 :: int)"
    by simp_all
  then show ?thesis unfolding go_defs by simp
qed

lemma wrap64_word: "wrap64 x = sint (word_of_int x :: 64 word)"
proof -
  have "sint (word_of_int x :: 64 word) = signed_take_bit 63 x"
    by (simp add: signed_of_int)
  also have "\<dots> = (x + 2 ^ 63) mod 2 ^ 64 - 2 ^ 63"
    by (simp add: signed_take_bit_eq_take_bit_shift take_bit_eq_mod)
  finally show ?thesis by (simp add: wrap64_def)
qed

lemma in_i64_between [i64_arith]:
  "in_i64 a \<Longrightarrow> in_i64 b \<Longrightarrow> a \<le> x \<Longrightarrow> x \<le> b \<Longrightarrow> in_i64 x"
  by (simp add: in_i64_def)

lemma in_i64_0 [simp, i64_arith]: "in_i64 0" and in_i64_1 [simp, i64_arith]: "in_i64 1"
  by (simp_all add: go_defs)

lemma in_i64_nonneg [i64_arith]: "0 \<le> x \<Longrightarrow> x \<le> max_i64 \<Longrightarrow> in_i64 x"
  by (simp add: go_defs)

text \<open>Go's \<open>/\<close> on integers truncates towards zero.\<close>

definition go_div :: "i64 \<Rightarrow> i64 \<Rightarrow> i64" where
  [go_defs]: "go_div a b = wrap64 (sgn a * sgn b * (\<bar>a\<bar> div \<bar>b\<bar>))"

lemma go_div_nonneg [simp]: "0 \<le> a \<Longrightarrow> a \<le> max_i64 \<Longrightarrow> 0 < b \<Longrightarrow> go_div a b = a div b"
proof -
  assume "0 \<le> a" "a \<le> max_i64" "0 < b"
  then have "0 \<le> a div b" and "a div b \<le> a"
    by (cases "a = 0"; simp add: pos_imp_zdiv_nonneg_iff int_div_le_self)+
  moreover have "in_i64 a" using \<open>0 \<le> a\<close> \<open>a \<le> max_i64\<close> by (simp add: go_defs)
  ultimately have "in_i64 (a div b)" by (blast intro: in_i64_between in_i64_0)
  moreover have "sgn a * sgn b * (\<bar>a\<bar> div \<bar>b\<bar>) = a div b"
    using \<open>0 \<le> a\<close> \<open>0 < b\<close> by (cases "a = 0") simp_all
  ultimately show ?thesis by (simp add: go_div_def)
qed

subsection \<open>Clock readings and durations\<close>

text \<open>
  A \<open>time.Time\<close> is its distance in nanoseconds from a fixed origin, an unbounded number as
  Go's type covers far more than 64 bits of nanoseconds. \<open>Time.Sub\<close> (and so
  \<open>time.Since\<close>) returns a \<open>time.Duration\<close> and saturates at its bounds. Every call of
  \<open>time.Now\<close> is an argument of the definitions that make it.
\<close>

type_synonym time = int
type_synonym duration = i64

definition time_sub :: "time \<Rightarrow> time \<Rightarrow> duration" where
  [go_defs]: "time_sub t u = max min_i64 (min max_i64 (t - u))"

definition millisecond :: duration where [go_defs]: "millisecond = 1000000"
definition second :: duration where [go_defs]: "second = 1000000000"

lemma time_sub_ge_iff:
  "in_i64 d \<Longrightarrow> d \<le> time_sub t u \<longleftrightarrow> d \<le> t - u \<or> d = min_i64"
  by (auto simp: go_defs max_def min_def)

lemma time_sub_ge [simp]: "0 \<le> d \<Longrightarrow> d \<le> max_i64 \<Longrightarrow> d \<le> time_sub t u \<longleftrightarrow> d \<le> t - u"
  by (auto simp: go_defs max_def min_def)

subsection \<open>Calls of a client's function\<close>

text \<open>A function the client passes in returns nil, returns an error, or panics.\<close>

datatype (outcome_errors: 'e) outcome = Ok | Err 'e | Panic

subsection \<open>Reachable states\<close>

text \<open>
  A component whose operations interleave is a step relation. Its reachable states are the
  closure of the initial ones; a locale states what an invariant owes and gives what it
  proves, and every system below interprets it.
\<close>

inductive reach :: "('s \<Rightarrow> bool) \<Rightarrow> ('s \<Rightarrow> 's \<Rightarrow> bool) \<Rightarrow> 's \<Rightarrow> bool"
  for init :: "'s \<Rightarrow> bool" and step :: "'s \<Rightarrow> 's \<Rightarrow> bool" where
  reach_init: "init s \<Longrightarrow> reach init step s"
| reach_step: "reach init step s \<Longrightarrow> step s t \<Longrightarrow> reach init step t"

locale inductive_invariant =
  fixes init :: "'s \<Rightarrow> bool" and step :: "'s \<Rightarrow> 's \<Rightarrow> bool" and inv :: "'s \<Rightarrow> bool"
  assumes inv_init: "init s \<Longrightarrow> inv s"
    and inv_step: "step s t \<Longrightarrow> inv s \<Longrightarrow> inv t"
begin

lemma reach_inv: "reach init step s \<Longrightarrow> inv s"
  by (induction rule: reach.induct) (blast intro: inv_init inv_step)+

lemma steps_inv: "step\<^sup>*\<^sup>* s t \<Longrightarrow> inv s \<Longrightarrow> inv t"
  by (induction rule: rtranclp_induct) (blast intro: inv_step)+

end

lemma reach_steps: "step\<^sup>*\<^sup>* s t \<Longrightarrow> reach init step s \<Longrightarrow> reach init step t"
  by (induction rule: rtranclp_induct) (blast intro: reach_step)+

subsection \<open>Runs of operations\<close>

text \<open>
  A run applies a list of operations in order and collects what each one returned. Where
  every admissible operation of a component returns what an abstract machine returns, so do
  its runs.
\<close>

fun run_ops :: "('op \<Rightarrow> 's \<Rightarrow> 'o \<times> 's) \<Rightarrow> 'op list \<Rightarrow> 's \<Rightarrow> 'o list \<times> 's" where
  "run_ops step [] s = ([], s)"
| "run_ops step (x # xs) s =
     (let (o1, s1) = step x s; (os, s2) = run_ops step xs s1 in (o1 # os, s2))"

locale op_refinement =
  fixes step :: "'op \<Rightarrow> 's \<Rightarrow> 'o \<times> 's" and astep :: "'op \<Rightarrow> 'a \<Rightarrow> 'o \<times> 'a"
    and abs :: "'s \<Rightarrow> 'a" and inv :: "'s \<Rightarrow> bool" and admissible :: "'op \<Rightarrow> bool"
  assumes step_refines: "inv s \<Longrightarrow> admissible x \<Longrightarrow> step x s = (r, s') \<Longrightarrow>
      inv s' \<and> astep x (abs s) = (r, abs s')"
begin

lemma run_refines:
  "inv s \<Longrightarrow> list_all admissible xs \<Longrightarrow> run_ops step xs s = (rs, s') \<Longrightarrow>
     inv s' \<and> run_ops astep xs (abs s) = (rs, abs s')"
proof (induction xs arbitrary: s rs)
  case (Cons x xs)
  obtain r s1 where x: "step x s = (r, s1)" by fastforce
  obtain rs1 where xs: "run_ops step xs s1 = (rs1, s')" and "rs = r # rs1"
    using Cons.prems(3) x by (auto split: prod.splits)
  have "inv s1 \<and> astep x (abs s) = (r, abs s1)"
    using step_refines [OF Cons.prems(1) _ x] Cons.prems(2) by simp
  with Cons.IH [OF _ _ xs] Cons.prems(2) \<open>rs = r # rs1\<close> show ?case by simp
qed simp

end

subsection \<open>Decimal formatting\<close>

text \<open>
  What \<open>fmt.Sprintf\<close> writes for \<open>%d\<close>. Its inverse on natural numbers shows that
  identifiers numbered by \<open>%d\<close> are different.
\<close>

definition digit_char :: "nat \<Rightarrow> char" where "digit_char d = char_of (48 + d)"

fun nat_digits :: "nat \<Rightarrow> nat list" where
  "nat_digits n = (if n < 10 then [n] else nat_digits (n div 10) @ [n mod 10])"

declare nat_digits.simps [simp del]

definition fmt_d :: "int \<Rightarrow> string" where
  "fmt_d x = (if x < 0 then ''-'' else '''') @ map digit_char (nat_digits (nat \<bar>x\<bar>))"

lemma nat_digits_less_10: "d \<in> set (nat_digits n) \<Longrightarrow> d < 10"
proof (induction n rule: nat_digits.induct)
  case (1 n)
  then show ?case by (cases "n < 10") (auto simp: nat_digits.simps [of n])
qed

lemma nat_digits_inverse: "foldl (\<lambda>a d. 10 * a + d) 0 (nat_digits n) = n"
proof (induction n rule: nat_digits.induct)
  case (1 n)
  then show ?case by (cases "n < 10") (auto simp: nat_digits.simps [of n])
qed

lemma nat_digits_inj: "nat_digits m = nat_digits n \<Longrightarrow> m = n"
  by (metis nat_digits_inverse)

lemma inj_on_digit_char: "inj_on digit_char {..<10}"
  by (rule inj_onI)
    (simp add: digit_char_def char_of_eq_iff nat_take_bit_eq take_bit_eq_mod of_char_of)

lemma fmt_d_nat_inj: "fmt_d (int m) = fmt_d (int n) \<longleftrightarrow> m = n"
proof
  assume "fmt_d (int m) = fmt_d (int n)"
  then have "map digit_char (nat_digits m) = map digit_char (nat_digits n)"
    by (simp add: fmt_d_def)
  then have "nat_digits m = nat_digits n"
    by (rule map_inj_on)
      (rule inj_on_subset [OF inj_on_digit_char], auto dest: nat_digits_less_10)
  then show "m = n" by (rule nat_digits_inj)
qed simp

subsection \<open>Lists updated by index\<close>

lemma sum_list_map_update:
  fixes f :: "'a \<Rightarrow> 'b :: comm_monoid_add"
  assumes "i < length xs"
  shows "sum_list (map f (xs[i := y])) + f (xs ! i) = sum_list (map f xs) + f y"
  using assms by (induction xs arbitrary: i) (auto split: nat.splits simp: ac_simps)

lemma sum_list_map_update_int:
  fixes f :: "'a \<Rightarrow> int"
  shows "i < length xs \<Longrightarrow> sum_list (map f (xs[i := y])) = sum_list (map f xs) - f (xs ! i) + f y"
  using sum_list_map_update [of i xs f y] by simp

lemma sum_list_map_nonneg: "(\<And>x. x \<in> set xs \<Longrightarrow> (0::int) \<le> f x) \<Longrightarrow> 0 \<le> sum_list (map f xs)"
  by (induction xs) auto

lemma member_le_sum_list_map:
  "(\<And>x. x \<in> set xs \<Longrightarrow> (0::int) \<le> f x) \<Longrightarrow> x \<in> set xs \<Longrightarrow> f x \<le> sum_list (map f xs)"
  by (induction xs) (auto simp: add_increasing add_increasing2 sum_list_map_nonneg)

lemma mset_swap_update:
  "i < length xs \<Longrightarrow> j < length xs \<Longrightarrow> mset (xs[i := xs ! j, j := xs ! i]) = mset xs"
  by (cases "i = j") (simp_all add: mset_swap)

subsection \<open>Multisets without repetition\<close>

definition once :: "'a multiset \<Rightarrow> bool" where
  "once M \<longleftrightarrow> (\<forall>x. count M x \<le> 1)"

lemma once_empty [simp]: "once {#}"
  by (simp add: once_def)

lemma once_add_mset [simp]: "once (add_mset x M) \<longleftrightarrow> x \<notin># M \<and> once M"
proof
  assume *: "once (add_mset x M)"
  from * have "count (add_mset x M) x \<le> 1" by (simp only: once_def)
  then have "x \<notin># M" by (simp add: not_in_iff)
  moreover have "count M y \<le> 1" for y
  proof -
    have "count M y \<le> count (add_mset x M) y" by simp
    also have "\<dots> \<le> 1" using * by (simp only: once_def)
    finally show ?thesis .
  qed
  ultimately show "x \<notin># M \<and> once M" by (simp add: once_def)
next
  assume "x \<notin># M \<and> once M"
  then show "once (add_mset x M)" by (simp add: once_def not_in_iff)
qed

lemma once_subset: "once M \<Longrightarrow> N \<subseteq># M \<Longrightarrow> once N"
  unfolding once_def by (metis mset_subset_eq_count order_trans)

lemma subset_mset_add_right: "A \<subseteq># B \<Longrightarrow> A \<subseteq># add_mset x B"
  by (metis add_mset_add_single mset_subset_eq_add_left subset_mset.order_trans)

lemma once_disjoint: "once (A + B) \<Longrightarrow> x \<in># A \<Longrightarrow> x \<notin># B"
proof
  assume "once (A + B)" "x \<in># A" "x \<in># B"
  then have "count A x + count B x \<le> 1" "0 < count A x" "0 < count B x"
    by (simp_all add: once_def)
  then show False by linarith
qed

lemma filter_once:
  assumes "once (image_mset f (A + B))"
  shows "filter_mset (\<lambda>x. f x \<in> f ` set_mset B) (A + B) = B"
    and "filter_mset (\<lambda>x. f x \<notin> f ` set_mset B) (A + B) = A"
proof -
  have "f x \<notin> f ` set_mset B" if "x \<in># A" for x
    using once_disjoint [of "image_mset f A" "image_mset f B" "f x"] assms that by simp
  then have "filter_mset (\<lambda>x. f x \<in> f ` set_mset B) A = {#}"
      and "filter_mset (\<lambda>x. f x \<notin> f ` set_mset B) A = A"
    by (simp_all only: filter_mset_eq_mempty_iff filter_mset_eq_conv) simp_all
  moreover have "f x \<in> f ` set_mset B" if "x \<in># B" for x
    using that by (rule imageI)
  then have "filter_mset (\<lambda>x. f x \<in> f ` set_mset B) B = B"
      and "filter_mset (\<lambda>x. f x \<notin> f ` set_mset B) B = {#}"
    by (simp_all only: filter_mset_eq_mempty_iff filter_mset_eq_conv) simp_all
  ultimately show "filter_mset (\<lambda>x. f x \<in> f ` set_mset B) (A + B) = B"
    and "filter_mset (\<lambda>x. f x \<notin> f ` set_mset B) (A + B) = A" by simp_all
qed

end
