(* ===== verification/Priority_Queue.thy ===== *)
theory Priority_Queue
  imports Go_Prelude
begin

section \<open>The priority queue (\<open>pkg/queue/queue.go\<close>)\<close>

text \<open>
  The queue keeps a binary heap of items in a slice and orders them by priority, then by an
  insertion number taken from a 64-bit counter. The theory models the code's comparison,
  swap, push and pop, and the sift-up and sift-down loops of the standard library's
  \<open>container/heap\<close> that call them. The interface promised to clients is a locale whose
  abstract state is the list of values in the order they will leave; the heap interprets
  it. Every operation holds the mutex throughout, so each is one atomic function on the
  state. \<open>(zero, false)\<close> results are \<^const>\<open>None\<close>.
\<close>

subsection \<open>Priorities and items\<close>

definition Low :: i64 where "Low = 0"
definition Normal :: i64 where "Normal = 1"
definition High :: i64 where "High = 2"
definition Critical :: i64 where "Critical = 3"

lemmas priority_defs = Low_def Normal_def High_def Critical_def

definition Priority_String :: "i64 \<Rightarrow> string" where
  "Priority_String p =
     (if p = Low then ''low''
      else if p = Normal then ''normal''
      else if p = High then ''high''
      else if p = Critical then ''critical''
      else ''unknown('' @ fmt_d p @ '')'')"

record 'a pq_item =
  it_value :: 'a
  it_priority :: i64
  it_seq :: "64 word"
  it_index :: i64

record 'a pqueue =
  pq_items :: "'a pq_item list"
  pq_seq :: "64 word"

text \<open>\<open>Less\<close>, \<open>Swap\<close>, and the heap's own \<open>Push\<close> and \<open>Pop\<close> (the last for a non-empty slice).\<close>

definition heap_Less :: "'a pq_item list \<Rightarrow> nat \<Rightarrow> nat \<Rightarrow> bool" where
  "heap_Less h i j =
     (if it_priority (h ! i) \<noteq> it_priority (h ! j)
      then it_priority (h ! i) > it_priority (h ! j)
      else it_seq (h ! i) < it_seq (h ! j))"

definition heap_Swap :: "'a pq_item list \<Rightarrow> nat \<Rightarrow> nat \<Rightarrow> 'a pq_item list" where
  "heap_Swap h i j =
     (let h1 = h[i := h ! j, j := h ! i];
          h2 = h1[i := (h1 ! i)\<lparr>it_index := int i\<rparr>]
      in h2[j := (h2 ! j)\<lparr>it_index := int j\<rparr>])"

definition inner_Push :: "'a pq_item list \<Rightarrow> 'a pq_item \<Rightarrow> 'a pq_item list" where
  "inner_Push h it = h @ [it\<lparr>it_index := int (length h)\<rparr>]"

definition inner_Pop :: "'a pq_item list \<Rightarrow> 'a pq_item \<times> 'a pq_item list" where
  "inner_Pop h = (let n = length h in ((h ! (n - 1))\<lparr>it_index := -1\<rparr>, take (n - 1) h))"

subsection \<open>The loops of \<open>container/heap\<close>\<close>

text \<open>
  \<open>up(h, j)\<close> and \<open>down(h, i, n)\<close> of Go's standard library. Indices are natural numbers;
  for \<open>j = 0\<close> the parent is 0, as Go's \<open>(0 - 1) / 2\<close> is.
\<close>

function heap_up :: "'a pq_item list \<Rightarrow> nat \<Rightarrow> 'a pq_item list" where
  "heap_up h j =
     (let i = (j - 1) div 2
      in if i = j \<or> \<not> heap_Less h j i then h else heap_up (heap_Swap h i j) i)"
  by pat_completeness auto
termination by (relation "measure (\<lambda>(h, j). j)") auto

function heap_down :: "'a pq_item list \<Rightarrow> nat \<Rightarrow> nat \<Rightarrow> 'a pq_item list" where
  "heap_down h i n =
     (let j1 = 2 * i + 1
      in if j1 \<ge> n then h
         else let j = (if j1 + 1 < n \<and> heap_Less h (j1 + 1) j1 then j1 + 1 else j1)
              in if \<not> heap_Less h j i then h else heap_down (heap_Swap h i j) j n)"
  by pat_completeness auto
termination by (relation "measure (\<lambda>(h, i, n). n - i)") (auto simp: Let_def split: if_splits)

declare heap_up.simps [simp del] heap_down.simps [simp del]

definition heap_Init :: "'a pq_item list \<Rightarrow> 'a pq_item list" where
  "heap_Init h = (let n = length h in fold (\<lambda>i h. heap_down h i n) (rev [0..<n div 2]) h)"

definition heap_Push :: "'a pq_item list \<Rightarrow> 'a pq_item \<Rightarrow> 'a pq_item list" where
  "heap_Push h it = (let h' = inner_Push h it in heap_up h' (length h' - 1))"

definition heap_Pop :: "'a pq_item list \<Rightarrow> 'a pq_item \<times> 'a pq_item list" where
  "heap_Pop h = (let n = length h - 1 in inner_Pop (heap_down (heap_Swap h 0 n) 0 n))"

subsection \<open>The queue's operations\<close>

text \<open>
  The initial capacity only sizes the first allocation (a negative one is set to 0, so the
  allocation cannot panic); it is not part of the state.
\<close>

definition pq_New :: "i64 \<Rightarrow> 'a pqueue" where
  "pq_New initialCap = \<lparr>pq_items = heap_Init [], pq_seq = 0\<rparr>"

definition pq_Push :: "'a \<Rightarrow> i64 \<Rightarrow> 'a pqueue \<Rightarrow> 'a pqueue" where
  "pq_Push v p q =
     (let s = pq_seq q + 1;
          it = \<lparr>it_value = v, it_priority = p, it_seq = s, it_index = 0\<rparr>
      in q\<lparr>pq_seq := s, pq_items := heap_Push (pq_items q) it\<rparr>)"

definition pq_Len :: "'a pqueue \<Rightarrow> nat" where
  "pq_Len q = length (pq_items q)"

definition pq_IsEmpty :: "'a pqueue \<Rightarrow> bool" where
  "pq_IsEmpty q \<longleftrightarrow> pq_Len q = 0"

definition pq_Pop :: "'a pqueue \<Rightarrow> 'a option \<times> 'a pqueue" where
  "pq_Pop q =
     (if length (pq_items q) = 0 then (None, q)
      else let (it, h) = heap_Pop (pq_items q) in (Some (it_value it), q\<lparr>pq_items := h\<rparr>))"

definition pq_Peek :: "'a pqueue \<Rightarrow> 'a option" where
  "pq_Peek q = (if length (pq_items q) = 0 then None else Some (it_value (pq_items q ! 0)))"

lemmas pq_defs = pq_New_def pq_Push_def pq_Pop_def pq_Peek_def pq_Len_def pq_IsEmpty_def

subsection \<open>The order of service\<close>

text \<open>
  A key is a priority and an insertion number; the smaller key is served first. \<open>Less\<close> is
  the strict order on keys, so the library's sorted lists and \<^const>\<open>sort_key\<close> apply.
\<close>

datatype pq_key = Key (key_priority: i64) (key_seq: "64 word")

instantiation pq_key :: linorder
begin

definition less_pq_key :: "pq_key \<Rightarrow> pq_key \<Rightarrow> bool" where
  "less_pq_key a b \<longleftrightarrow> key_priority a > key_priority b \<or>
     (key_priority a = key_priority b \<and> key_seq a < key_seq b)"

definition less_eq_pq_key :: "pq_key \<Rightarrow> pq_key \<Rightarrow> bool" where
  "less_eq_pq_key a b \<longleftrightarrow> a < b \<or> a = (b :: pq_key)"

instance
  by standard
    (auto simp: less_pq_key_def less_eq_pq_key_def,
     metis pq_key.expand linorder_neqE)

end

abbreviation item_key :: "'a pq_item \<Rightarrow> pq_key" where
  "item_key it \<equiv> Key (it_priority it) (it_seq it)"

lemma heap_Less_key: "heap_Less h i j \<longleftrightarrow> item_key (h ! i) < item_key (h ! j)"
  by (auto simp: heap_Less_def less_pq_key_def)

subsection \<open>Swapping keeps the payload\<close>

type_synonym 'a payload = "'a \<times> i64 \<times> 64 word"

definition payload :: "'a pq_item \<Rightarrow> 'a payload" where
  "payload it = (it_value it, it_priority it, it_seq it)"

definition payload_key :: "'a payload \<Rightarrow> pq_key" where
  "payload_key x = Key (fst (snd x)) (snd (snd x))"

lemma payload_key [simp]: "payload_key (payload it) = item_key it"
  by (simp add: payload_def payload_key_def)

lemma payload_index [simp]: "payload (it\<lparr>it_index := i\<rparr>) = payload it"
  by (simp add: payload_def)

lemma length_heap_Swap [simp]: "length (heap_Swap h i j) = length h"
  by (simp add: heap_Swap_def Let_def)

lemma nth_heap_Swap:
  "i < length h \<Longrightarrow> j < length h \<Longrightarrow> m < length h \<Longrightarrow> heap_Swap h i j ! m =
     (if m = j then (h ! i)\<lparr>it_index := int j\<rparr>
      else if m = i then (h ! j)\<lparr>it_index := int i\<rparr> else h ! m)"
  by (simp add: heap_Swap_def Let_def nth_list_update)

lemma key_heap_Swap:
  "i < length h \<Longrightarrow> j < length h \<Longrightarrow> m < length h \<Longrightarrow> item_key (heap_Swap h i j ! m) =
     (if m = j then item_key (h ! i) else if m = i then item_key (h ! j) else item_key (h ! m))"
  by (simp add: nth_heap_Swap)

lemma map_payload_heap_Swap:
  "i < length h \<Longrightarrow> j < length h \<Longrightarrow> map payload (heap_Swap h i j) =
     (map payload h)[i := map payload h ! j, j := map payload h ! i]"
  by (rule nth_equalityI) (auto simp: nth_heap_Swap nth_list_update)

lemma mset_heap_Swap:
  "i < length h \<Longrightarrow> j < length h \<Longrightarrow>
     image_mset payload (mset (heap_Swap h i j)) = image_mset payload (mset h)"
  using mset_swap_update [of i "map payload h" j]
  by (simp add: mset_map [symmetric] map_payload_heap_Swap del: mset_map)

definition index_ok :: "'a pq_item list \<Rightarrow> bool" where
  "index_ok h \<longleftrightarrow> (\<forall>m < length h. it_index (h ! m) = int m)"

lemma index_ok_heap_Swap:
  "index_ok h \<Longrightarrow> i < length h \<Longrightarrow> j < length h \<Longrightarrow> index_ok (heap_Swap h i j)"
  by (simp add: index_ok_def nth_heap_Swap)

subsection \<open>Heap order\<close>

text \<open>
  \<open>heap_upto n h\<close> is the heap order of the first \<open>n\<close> items. The two weakened forms allow
  one position to be out of order: with respect to its parent while an item moves up, with
  respect to its children while one moves down.
\<close>

abbreviation parent :: "nat \<Rightarrow> nat" where "parent m \<equiv> (m - 1) div 2"

abbreviation key_at :: "'a pq_item list \<Rightarrow> nat \<Rightarrow> pq_key" where "key_at h m \<equiv> item_key (h ! m)"

definition heap_upto :: "nat \<Rightarrow> 'a pq_item list \<Rightarrow> bool" where
  "heap_upto n h \<longleftrightarrow> (\<forall>m < n. 0 < m \<longrightarrow> key_at h (parent m) \<le> key_at h m)"

definition heap_but_up :: "nat \<Rightarrow> 'a pq_item list \<Rightarrow> bool" where
  "heap_but_up j h \<longleftrightarrow> (\<forall>m < length h. 0 < m \<longrightarrow>
     (m \<noteq> j \<longrightarrow> key_at h (parent m) \<le> key_at h m) \<and>
     (parent m = j \<longrightarrow> 0 < j \<longrightarrow> key_at h (parent j) \<le> key_at h m))"

definition heap_but_down :: "nat \<Rightarrow> nat \<Rightarrow> 'a pq_item list \<Rightarrow> bool" where
  "heap_but_down i n h \<longleftrightarrow> (\<forall>m < n. 0 < m \<longrightarrow>
     (parent m \<noteq> i \<longrightarrow> key_at h (parent m) \<le> key_at h m) \<and>
     (parent m = i \<longrightarrow> 0 < i \<longrightarrow> key_at h (parent i) \<le> key_at h m))"

lemma parent_less: "0 < m \<Longrightarrow> parent m < m" by simp

lemma heap_but_up_swap:
  assumes h: "heap_but_up j h" and j: "0 < j" "j < length h"
    and less: "key_at h j < key_at h (parent j)"
  shows "heap_but_up (parent j) (heap_Swap h (parent j) j)"
  unfolding heap_but_up_def
proof (intro allI impI)
  fix m assume m: "m < length (heap_Swap h (parent j) j)" "0 < m"
  let ?i = "parent j" and ?h = "heap_Swap h (parent j) j"
  have i: "?i < length h" "?i < j" using j by simp_all
  have pm: "parent m < length h" "parent m < m" "m < length h" using m by simp_all
  note key = key_heap_Swap [OF i(1) j(2)]
  have order: "m' < length h \<Longrightarrow> 0 < m' \<Longrightarrow> m' \<noteq> j \<Longrightarrow> key_at h (parent m') \<le> key_at h m'"
    and child: "m' < length h \<Longrightarrow> parent m' = j \<Longrightarrow> 0 < m' \<Longrightarrow> key_at h ?i \<le> key_at h m'" for m'
    using h j by (auto simp: heap_but_up_def)
  have up: "0 < ?i \<Longrightarrow> key_at h (parent ?i) \<le> key_at h ?i"
    using order [of ?i] i by simp
  have a: "key_at ?h (parent m) \<le> key_at ?h m" if "m \<noteq> ?i"
  proof -
    consider "m = j" | "parent m = j" "m \<noteq> j" | "parent m = ?i" "m \<noteq> j"
      | "parent m \<noteq> j" "parent m \<noteq> ?i" "m \<noteq> j" by blast
    then show ?thesis
    proof cases
      case 1 then show ?thesis using key i less pm by simp
    next
      case 2 then show ?thesis using key pm that child [OF pm(3) _ m(2)] by simp
    next
      case 3
      have "key_at h ?i \<le> key_at h m" using order [OF pm(3) m(2) 3(2)] 3(1) by simp
      then show ?thesis using key [OF pm(1)] key [OF pm(3)] 3 that i less by simp
    next
      case 4 then show ?thesis using key [OF pm(1)] key [OF pm(3)] that order [OF pm(3) m(2)] by simp
    qed
  qed
  have b: "key_at ?h (parent ?i) \<le> key_at ?h m" if "parent m = ?i" "0 < ?i"
  proof -
    have pi: "parent ?i < ?i" "parent ?i < length h"
      using parent_less [OF that(2)] i(1) by linarith+
    have "key_at h ?i \<le> key_at h m" if "m \<noteq> j"
      using order [OF pm(3) m(2) that] \<open>parent m = ?i\<close> by simp
    note le = order_trans [OF up [OF that(2)] this]
    have neq: "parent ?i \<noteq> j" "parent ?i \<noteq> ?i" using pi i by linarith+
    have "key_at ?h (parent ?i) = key_at h (parent ?i)"
      by (simp only: key [OF pi(2)] neq if_False)
    moreover have "m \<noteq> ?i"
    proof
      assume "m = ?i"
      with pi(1) have "parent m < ?i" by (simp only:)
      with that(1) show False by (simp only: less_irrefl)
    qed
    moreover have "key_at ?h j = key_at h ?i" by (simp only: key [OF j(2)] refl if_True)
    moreover have "m \<noteq> j \<Longrightarrow> m \<noteq> ?i \<Longrightarrow> key_at ?h m = key_at h m"
      by (simp only: key [OF pm(3)] if_False)
    ultimately show ?thesis
      using up [OF that(2)] le by (cases "m = j") (simp_all only: not_False_eq_True)
  qed
  show "(m \<noteq> ?i \<longrightarrow> key_at ?h (parent m) \<le> key_at ?h m) \<and>
    (parent m = ?i \<longrightarrow> 0 < ?i \<longrightarrow> key_at ?h (parent ?i) \<le> key_at ?h m)"
    using a b by blast
qed

lemma heap_up_correct:
  assumes "heap_but_up j h" and "j < length h"
  shows "heap_upto (length h) (heap_up h j) \<and> length (heap_up h j) = length h"
  using assms
proof (induction h j rule: heap_up.induct)
  case (1 h j)
  show ?case
  proof (cases "parent j = j \<or> \<not> heap_Less h j (parent j)")
    case True
    then have "j = 0 \<or> key_at h (parent j) \<le> key_at h j"
      by (auto simp: heap_Less_key)
    with "1.prems" have "heap_upto (length h) h"
      by (auto simp: heap_upto_def heap_but_up_def)
    with True show ?thesis by (auto simp: heap_up.simps [of h j] Let_def)
  next
    case False
    then have "0 < j" and less: "key_at h j < key_at h (parent j)"
      by (auto simp: heap_Less_key)
    with "1.prems" have "heap_but_up (parent j) (heap_Swap h (parent j) j)"
      by (blast intro: heap_but_up_swap)
    with "1.IH" [OF refl False] "1.prems" \<open>0 < j\<close> False show ?thesis
      by (simp add: heap_up.simps [of h j] Let_def)
  qed
qed

lemma heap_up_payload:
  "j < length h \<Longrightarrow> image_mset payload (mset (heap_up h j)) = image_mset payload (mset h) \<and>
     (index_ok h \<longrightarrow> index_ok (heap_up h j))"
proof (induction h j rule: heap_up.induct)
  case (1 h j)
  show ?case
  proof (cases "parent j = j \<or> \<not> heap_Less h j (parent j)")
    case True
    then show ?thesis by (auto simp: heap_up.simps [of h j] Let_def)
  next
    case False
    with "1.IH" [OF refl False] "1.prems" show ?thesis
      by (simp add: heap_up.simps [of h j] Let_def mset_heap_Swap index_ok_heap_Swap)
  qed
qed

text \<open>The child that \<open>down\<close> compares with: the smaller of the two.\<close>

definition min_child :: "'a pq_item list \<Rightarrow> nat \<Rightarrow> nat \<Rightarrow> nat" where
  "min_child h i n =
     (if 2 * i + 2 < n \<and> heap_Less h (2 * i + 2) (2 * i + 1) then 2 * i + 2 else 2 * i + 1)"

lemma heap_down_unfold:
  "heap_down h i n =
     (if n \<le> 2 * i + 1 \<or> \<not> heap_Less h (min_child h i n) i then h
      else heap_down (heap_Swap h i (min_child h i n)) (min_child h i n) n)"
  by (subst heap_down.simps) (simp add: Let_def min_child_def)

lemma min_child_bounds:
  "2 * i + 1 < n \<Longrightarrow> i < min_child h i n \<and> min_child h i n < n \<and> parent (min_child h i n) = i"
  by (auto simp: min_child_def)

lemma min_child_least:
  assumes "2 * i + 1 < n" and "m < n" and "0 < m" and "parent m = i"
  shows "key_at h (min_child h i n) \<le> key_at h m"
proof -
  have "m = 2 * i + 1 \<or> m = 2 * i + 2" using assms by linarith
  then show ?thesis using assms by (auto simp: min_child_def heap_Less_key)
qed

lemma heap_but_down_swap:
  assumes h: "heap_but_down i n h" and n: "n \<le> length h" "2 * i + 1 < n"
    and less: "key_at h (min_child h i n) < key_at h i"
  shows "heap_but_down (min_child h i n) n (heap_Swap h i (min_child h i n))"
  unfolding heap_but_down_def
proof (intro allI impI)
  fix m assume m: "m < n" "0 < m"
  let ?c = "min_child h i n" let ?h = "heap_Swap h i ?c"
  note c = min_child_bounds [OF n(2), of h]
  have il: "i < length h" and cl: "?c < length h" and ml: "m < length h" and pl: "parent m < length h"
    and pm: "parent m < m"
    using c n m by linarith+
  note key = key_heap_Swap [OF il cl]
  have order: "m' < n \<Longrightarrow> 0 < m' \<Longrightarrow> parent m' \<noteq> i \<Longrightarrow> key_at h (parent m') \<le> key_at h m'"
    and child: "m' < n \<Longrightarrow> 0 < m' \<Longrightarrow> parent m' = i \<Longrightarrow> 0 < i \<Longrightarrow> key_at h (parent i) \<le> key_at h m'" for m'
    using h by (auto simp: heap_but_down_def)
  note least = min_child_least [OF n(2) m]
  have a: "key_at ?h (parent m) \<le> key_at ?h m" if "parent m \<noteq> ?c"
  proof -
    consider "m = ?c" | "parent m = i" "m \<noteq> ?c" | "m = i" | "parent m \<noteq> i" "m \<noteq> i" "m \<noteq> ?c" by blast
    then show ?thesis
    proof cases
      case 1 then show ?thesis using key [OF pl] key [OF ml] c less by simp
    next
      case 2 then show ?thesis using key [OF pl] key [OF ml] that least [of h] pm by simp
    next
      case 3
      then have "key_at h (parent i) \<le> key_at h ?c" using child [of ?c] c m by simp
      then show ?thesis using key [OF pl] key [OF ml] 3 that pm c by simp
    next
      case 4 then show ?thesis using key [OF pl] key [OF ml] that order [OF m 4(1)] by simp
    qed
  qed
  have b: "key_at ?h (parent ?c) \<le> key_at ?h m" if "parent m = ?c"
  proof -
    have "key_at h ?c \<le> key_at h m" using order [OF m] that c by simp
    then show ?thesis using key [OF il] key [OF ml] that c pm by simp
  qed
  show "(parent m \<noteq> ?c \<longrightarrow> key_at ?h (parent m) \<le> key_at ?h m) \<and>
    (parent m = ?c \<longrightarrow> 0 < ?c \<longrightarrow> key_at ?h (parent ?c) \<le> key_at ?h m)"
    using a b by blast
qed

lemma heap_down_induct [case_names stop go]:
  assumes stop: "\<And>h i. n \<le> 2 * i + 1 \<or> \<not> heap_Less h (min_child h i n) i \<Longrightarrow> P h i"
    and go: "\<And>h i. 2 * i + 1 < n \<Longrightarrow> heap_Less h (min_child h i n) i \<Longrightarrow>
      P (heap_Swap h i (min_child h i n)) (min_child h i n) \<Longrightarrow> P h i"
  shows "P h i"
proof (induction "n - i" arbitrary: h i rule: less_induct)
  case less
  show ?case
  proof (cases "n \<le> 2 * i + 1 \<or> \<not> heap_Less h (min_child h i n) i")
    case False
    then have n: "2 * i + 1 < n" by simp
    show ?thesis
      by (rule go [OF n]) (use False less min_child_bounds [OF n, of h] in auto)
  qed (rule stop)
qed

lemma heap_down_stop:
  "n \<le> 2 * i + 1 \<or> \<not> heap_Less h (min_child h i n) i \<Longrightarrow> heap_down h i n = h"
  by (subst heap_down_unfold) (rule if_P)

lemma heap_down_go:
  "2 * i + 1 < n \<Longrightarrow> heap_Less h (min_child h i n) i \<Longrightarrow>
     heap_down h i n = heap_down (heap_Swap h i (min_child h i n)) (min_child h i n) n"
  by (subst heap_down_unfold) simp

lemma heap_down_correct:
  "heap_but_down i n h \<Longrightarrow> n \<le> length h \<Longrightarrow> heap_upto n (heap_down h i n)"
proof (induction h i rule: heap_down_induct [where n = n])
  case (stop h i)
  let ?c = "min_child h i n"
  have "key_at h (parent m) \<le> key_at h m" if m: "m < n" "0 < m" for m
  proof (cases "parent m = i")
    case False
    then show ?thesis using stop.prems(1) m by (auto simp: heap_but_down_def)
  next
    case pm: True
    then have n: "2 * i + 1 < n" using m by linarith
    have "key_at h i \<le> key_at h ?c" using stop.hyps n by (auto simp: heap_Less_key)
    also have "\<dots> \<le> key_at h m" by (rule min_child_least [OF n m pm])
    finally show ?thesis by (simp only: pm)
  qed
  then have "heap_upto n h" by (simp add: heap_upto_def)
  then show ?case by (simp only: heap_down_stop [OF stop.hyps])
next
  case (go h i)
  then have "heap_but_down (min_child h i n) n (heap_Swap h i (min_child h i n))"
    by (intro heap_but_down_swap) (simp_all add: heap_Less_key)
  with go.IH go.prems(2) show ?case by (simp add: heap_down_go [OF go.hyps])
qed

lemma heap_down_frame:
  "n \<le> length h \<Longrightarrow> length (heap_down h i n) = length h \<and>
     image_mset payload (mset (heap_down h i n)) = image_mset payload (mset h) \<and>
     (index_ok h \<longrightarrow> index_ok (heap_down h i n)) \<and>
     (\<forall>m. n \<le> m \<longrightarrow> m < length h \<longrightarrow> heap_down h i n ! m = h ! m)"
proof (induction h i rule: heap_down_induct [where n = n])
  case (stop h i)
  then show ?case by (simp only: heap_down_stop [OF stop.hyps] simp_thms)
next
  case (go h i)
  note c = min_child_bounds [OF go.hyps(1), of h]
  have bounds: "i < length h" "min_child h i n < length h" using go.hyps go.prems c by linarith+
  show ?case
    unfolding heap_down_go [OF go.hyps] using go.IH go.prems bounds c
    by (simp add: mset_heap_Swap index_ok_heap_Swap nth_heap_Swap)
qed

lemma heap_first_least:
  "heap_upto (length h) h \<Longrightarrow> m < length h \<Longrightarrow> key_at h 0 \<le> key_at h m"
proof (induction m rule: less_induct)
  case (less m)
  show ?case
  proof (cases "m = 0")
    case False
    then have "parent m < m" by simp
    with less have "key_at h 0 \<le> key_at h (parent m)" by simp
    also have "\<dots> \<le> key_at h m" using less.prems False by (simp add: heap_upto_def)
    finally show ?thesis .
  qed simp
qed

lemma heap_upto_take: "heap_upto n h \<Longrightarrow> n \<le> length h \<Longrightarrow> heap_upto (length (take n h)) (take n h)"
  by (simp add: heap_upto_def)

subsection \<open>\<open>heap.Push\<close> and \<open>heap.Pop\<close>\<close>

lemma heap_Push_correct:
  assumes "heap_upto (length h) h" and "index_ok h"
  shows "heap_upto (length (heap_Push h it)) (heap_Push h it)"
    and "index_ok (heap_Push h it)"
    and "image_mset payload (mset (heap_Push h it)) = add_mset (payload it) (image_mset payload (mset h))"
proof -
  let ?h = "inner_Push h it"
  have len: "length ?h = Suc (length h)" by (simp add: inner_Push_def)
  have "parent m = length h \<Longrightarrow> m < Suc (length h) \<Longrightarrow> 0 < m \<Longrightarrow> False" for m by linarith
  moreover have "m < Suc (length h) \<Longrightarrow> 0 < m \<Longrightarrow> parent m < length h" for m by linarith
  ultimately have "heap_but_up (length h) ?h"
    using assms(1) by (auto simp: heap_but_up_def heap_upto_def inner_Push_def nth_append)
  then have up: "heap_upto (length ?h) (heap_up ?h (length h)) \<and>
      length (heap_up ?h (length h)) = length ?h"
    by (rule heap_up_correct) (simp add: len)
  then show "heap_upto (length (heap_Push h it)) (heap_Push h it)"
    by (simp add: heap_Push_def Let_def len)
  have "index_ok ?h"
    using assms(2) by (auto simp: index_ok_def inner_Push_def nth_append less_Suc_eq)
  with heap_up_payload [of "length h" ?h]
  show "index_ok (heap_Push h it)"
    and "image_mset payload (mset (heap_Push h it)) = add_mset (payload it) (image_mset payload (mset h))"
    by (simp_all add: heap_Push_def Let_def len) (simp add: inner_Push_def)
qed

lemma heap_but_down_after_swap:
  assumes "heap_upto (length h) h" and "h \<noteq> []" and n: "n = length h - 1"
  shows "heap_but_down 0 n (heap_Swap h 0 n)"
  unfolding heap_but_down_def
proof (intro allI impI conjI)
  fix m assume m: "m < n" "0 < m"
  have ix: "0 < length h" "n < length h" "m < length h" "parent m < length h" "parent m \<noteq> n" "m \<noteq> n"
    using m n assms(2) by (auto simp: neq_Nil_conv)
  show "key_at (heap_Swap h 0 n) (parent m) \<le> key_at (heap_Swap h 0 n) m" if "parent m \<noteq> 0"
    using assms(1) m ix that key_heap_Swap [OF ix(1,2,4)] key_heap_Swap [OF ix(1,2,3)]
    by (simp add: heap_upto_def)
qed auto

lemma heap_Pop_correct:
  assumes "heap_upto (length h) h" and "index_ok h" and "h \<noteq> []" and pop: "heap_Pop h = (it, h')"
  shows "heap_upto (length h') h'" and "index_ok h'" and "payload it = payload (h ! 0)"
    and "image_mset payload (mset h) = add_mset (payload it) (image_mset payload (mset h'))"
proof -
  let ?n = "length h - 1" let ?d = "heap_down (heap_Swap h 0 (length h - 1)) 0 (length h - 1)"
  have n: "?n < length h" "0 < length h" using assms(3) by simp_all
  have frame: "length ?d = length h \<and>
      image_mset payload (mset ?d) = image_mset payload (mset (heap_Swap h 0 ?n)) \<and>
      (index_ok (heap_Swap h 0 ?n) \<longrightarrow> index_ok ?d) \<and>
      (\<forall>m. ?n \<le> m \<longrightarrow> m < length h \<longrightarrow> ?d ! m = heap_Swap h 0 ?n ! m)"
    using heap_down_frame [of ?n "heap_Swap h 0 ?n" 0] n by simp
  have it: "it = (?d ! ?n)\<lparr>it_index := -1\<rparr>" and h': "h' = take ?n ?d"
    using pop frame by (simp_all add: heap_Pop_def inner_Pop_def Let_def)
  show p: "payload it = payload (h ! 0)"
    using frame n by (simp add: it nth_heap_Swap)
  have "heap_upto ?n ?d"
    by (rule heap_down_correct) (use heap_but_down_after_swap [OF assms(1,3) refl] in auto)
  then show "heap_upto (length h') h'"
    using heap_upto_take [of ?n ?d] frame by (simp add: h')
  show "index_ok h'"
    using frame n assms(2) index_ok_heap_Swap [of h 0 ?n] by (auto simp: h' index_ok_def)
  have len: "length ?d = Suc ?n" using frame n by linarith
  have "take (Suc ?n) ?d = take ?n ?d @ [?d ! ?n]"
    by (rule take_Suc_conv_app_nth) (simp only: len lessI)
  then have "?d = h' @ [?d ! ?n]" by (simp only: h' len [symmetric] take_all order_refl)
  from arg_cong [OF this, of "\<lambda>x. image_mset payload (mset x)"]
  have "image_mset payload (mset ?d) = add_mset (payload it) (image_mset payload (mset h'))"
    by (simp only: mset_append mset.simps image_mset_union image_mset_add_mset image_mset_empty
        it payload_index add_mset_add_single [symmetric])
  then show "image_mset payload (mset h) = add_mset (payload it) (image_mset payload (mset h'))"
    using frame mset_heap_Swap [OF n(2,1)] by simp
qed

subsection \<open>The contract: a stable priority list\<close>

text \<open>
  What the queue promises, over the list of \<open>(value, priority)\<close> pairs in the order of
  service: a push goes behind everything of its own or a higher priority, a pop takes the
  head. \<open>room\<close> is how many pushes the insertion counter can still number.
\<close>

fun pq_ins :: "'v \<times> i64 \<Rightarrow> ('v \<times> i64) list \<Rightarrow> ('v \<times> i64) list" where
  "pq_ins x [] = [x]"
| "pq_ins x (y # ys) = (if snd x > snd y then x # y # ys else y # pq_ins x ys)"

text \<open>Clients that push a batch and that pop until the queue is empty.\<close>

fun push_all :: "('v \<Rightarrow> i64 \<Rightarrow> 'q \<Rightarrow> 'q) \<Rightarrow> ('v \<times> i64) list \<Rightarrow> 'q \<Rightarrow> 'q" where
  "push_all push [] q = q"
| "push_all push (x # xs) q = push_all push xs (push (fst x) (snd x) q)"

fun drain :: "('q \<Rightarrow> 'v option \<times> 'q) \<Rightarrow> nat \<Rightarrow> 'q \<Rightarrow> ('v list \<times> 'q) option" where
  "drain pop 0 q = None"
| "drain pop (Suc fuel) q =
     (case pop q of
        (None, q') \<Rightarrow> Some ([], q')
      | (Some v, q') \<Rightarrow> map_option (\<lambda>(vs, q''). (v # vs, q'')) (drain pop fuel q'))"

text \<open>A client's calls, what it observes, and the same calls on the abstract list.\<close>

datatype 'v pq_op = OpPush 'v i64 | OpPop | OpPeek | OpLen

datatype 'v pq_obs = ObsUnit | ObsValue "'v option" | ObsLen nat

fun pq_call ::
  "('v \<Rightarrow> i64 \<Rightarrow> 'q \<Rightarrow> 'q) \<Rightarrow> ('q \<Rightarrow> 'v option \<times> 'q) \<Rightarrow> ('q \<Rightarrow> 'v option) \<Rightarrow> ('q \<Rightarrow> nat) \<Rightarrow>
     'v pq_op \<Rightarrow> 'q \<Rightarrow> 'v pq_obs \<times> 'q" where
  "pq_call push pop peek len (OpPush v p) q = (ObsUnit, push v p q)"
| "pq_call push pop peek len OpPop q = (let (r, q') = pop q in (ObsValue r, q'))"
| "pq_call push pop peek len OpPeek q = (ObsValue (peek q), q)"
| "pq_call push pop peek len OpLen q = (ObsLen (len q), q)"

fun pq_spec :: "'v pq_op \<Rightarrow> ('v \<times> i64) list \<Rightarrow> 'v pq_obs \<times> ('v \<times> i64) list" where
  "pq_spec (OpPush v p) l = (ObsUnit, pq_ins (v, p) l)"
| "pq_spec OpPop l = (ObsValue (case l of [] \<Rightarrow> None | x # _ \<Rightarrow> Some (fst x)), tl l)"
| "pq_spec OpPeek l = (ObsValue (case l of [] \<Rightarrow> None | x # _ \<Rightarrow> Some (fst x)), l)"
| "pq_spec OpLen l = (ObsLen (length l), l)"

fun is_push :: "'v pq_op \<Rightarrow> bool" where
  "is_push (OpPush v p) = True"
| "is_push _ = False"

locale stable_priority_queue =
  fixes push :: "'v \<Rightarrow> i64 \<Rightarrow> 'q \<Rightarrow> 'q" and pop :: "'q \<Rightarrow> 'v option \<times> 'q"
    and peek :: "'q \<Rightarrow> 'v option" and len :: "'q \<Rightarrow> nat"
    and abs :: "'q \<Rightarrow> ('v \<times> i64) list" and inv :: "'q \<Rightarrow> bool" and room :: "'q \<Rightarrow> nat"
  assumes push_abs: "inv q \<Longrightarrow> 0 < room q \<Longrightarrow> abs (push v p q) = pq_ins (v, p) (abs q)"
    and push_inv: "inv q \<Longrightarrow> 0 < room q \<Longrightarrow> inv (push v p q)"
    and push_room: "inv q \<Longrightarrow> 0 < room q \<Longrightarrow> room (push v p q) = room q - 1"
    and pop_empty: "inv q \<Longrightarrow> abs q = [] \<Longrightarrow> pop q = (None, q)"
    and pop_head: "inv q \<Longrightarrow> abs q = x # xs \<Longrightarrow>
      \<exists>q'. pop q = (Some (fst x), q') \<and> abs q' = xs \<and> inv q' \<and> room q' = room q"
    and peek_head: "inv q \<Longrightarrow> peek q = (case abs q of [] \<Rightarrow> None | x # _ \<Rightarrow> Some (fst x))"
    and len_abs: "inv q \<Longrightarrow> len q = length (abs q)"
begin

lemma push_all_correct:
  "inv q \<Longrightarrow> length xs \<le> room q \<Longrightarrow>
     inv (push_all push xs q) \<and> abs (push_all push xs q) = foldl (\<lambda>l x. pq_ins x l) (abs q) xs"
  by (induction xs arbitrary: q) (auto simp: push_inv push_room push_abs)

lemma call_refines:
  assumes "inv q" and "is_push c \<Longrightarrow> 0 < room q"
    and "pq_call push pop peek len c q = (r, q')"
  shows "inv q' \<and> pq_spec c (abs q) = (r, abs q') \<and> room q' = room q - (if is_push c then 1 else 0)"
proof (cases c)
  case (OpPush v p)
  with assms show ?thesis by (auto simp: push_inv push_room push_abs)
next
  case OpPop
  with assms show ?thesis
    by (cases "abs q") (auto simp: pop_empty dest: pop_head)
next
  case OpPeek
  with assms show ?thesis by (auto simp: peek_head)
next
  case OpLen
  with assms show ?thesis by (auto simp: len_abs)
qed

lemma run_refines:
  "inv q \<Longrightarrow> length (filter is_push cs) \<le> room q \<Longrightarrow>
     run_ops (pq_call push pop peek len) cs q = (rs, q') \<Longrightarrow>
     inv q' \<and> run_ops pq_spec cs (abs q) = (rs, abs q')"
proof (induction cs arbitrary: q rs)
  case (Cons c cs)
  obtain r q1 where c: "pq_call push pop peek len c q = (r, q1)" by fastforce
  obtain rs1 where cs: "run_ops (pq_call push pop peek len) cs q1 = (rs1, q')" and "rs = r # rs1"
    using Cons.prems(3) c by (auto split: prod.splits)
  have "inv q1" and spec: "pq_spec c (abs q) = (r, abs q1)"
    and "room q1 = room q - (if is_push c then 1 else 0)"
    using call_refines [OF Cons.prems(1) _ c] Cons.prems(2) by (auto split: if_splits)
  with Cons.IH [OF _ _ cs] Cons.prems(2) have "inv q' \<and> run_ops pq_spec cs (abs q1) = (rs1, abs q')"
    by (auto split: if_splits)
  with spec \<open>rs = r # rs1\<close> show ?case by simp
qed simp

lemma drain_correct:
  "inv q \<Longrightarrow> length (abs q) < fuel \<Longrightarrow>
     \<exists>q'. drain pop fuel q = Some (map fst (abs q), q') \<and> inv q' \<and> abs q' = []"
proof (induction fuel arbitrary: q)
  case (Suc fuel)
  show ?case
  proof (cases "abs q")
    case Nil
    then show ?thesis using Suc.prems by (simp add: pop_empty)
  next
    case (Cons x xs)
    obtain q' where q': "pop q = (Some (fst x), q')" "abs q' = xs" "inv q'"
      using pop_head [OF Suc.prems(1) Cons] by blast
    with Suc.IH [OF q'(3)] Suc.prems Cons show ?thesis by auto
  qed
qed simp

end

lemma pq_ins_insort:
  "sorted (map f ys) \<Longrightarrow> f = (\<lambda>y. - snd y) \<Longrightarrow>
     pq_ins x (insort_key f a ys) = insort_key f a (pq_ins x ys)"
  by (induction ys) auto

lemma pq_ins_sort: "pq_ins x (sort_key (\<lambda>y. - snd y) xs) = sort_key (\<lambda>y. - snd y) (xs @ [x])"
  by (induction xs) (simp_all add: pq_ins_insort)

lemma foldl_pq_ins: "foldl (\<lambda>l x. pq_ins x l) (sort_key (\<lambda>y. - snd y) ys) xs = sort_key (\<lambda>y. - snd y) (ys @ xs)"
proof (induction xs arbitrary: ys)
  case (Cons x xs)
  then show ?case using Cons.IH [of "ys @ [x]"] by (simp add: pq_ins_sort)
qed simp

subsection \<open>The heap implements the contract\<close>

definition pq_order :: "'a pqueue \<Rightarrow> 'a payload list" where
  "pq_order q = sort_key payload_key (map payload (pq_items q))"

definition pq_abs :: "'a pqueue \<Rightarrow> ('a \<times> i64) list" where
  "pq_abs q = map (\<lambda>x. (fst x, fst (snd x))) (pq_order q)"

definition pq_inv :: "'a pqueue \<Rightarrow> bool" where
  "pq_inv q \<longleftrightarrow> heap_upto (length (pq_items q)) (pq_items q) \<and> index_ok (pq_items q) \<and>
     distinct (map (\<lambda>x. snd (snd x)) (map payload (pq_items q))) \<and>
     (\<forall>x \<in> set (map payload (pq_items q)). snd (snd x) \<le> pq_seq q)"

definition pq_room :: "'a pqueue \<Rightarrow> nat" where
  "pq_room q = 2 ^ 64 - 1 - unat (pq_seq q)"

lemma set_pq_order: "set (pq_order q) = set (map payload (pq_items q))"
  by (simp add: pq_order_def)

lemma pq_order_eqI:
  assumes "mset ys = mset (map payload h)" and "sorted (map payload_key ys)"
    and "distinct (map (\<lambda>x. snd (snd x)) (map payload h))"
  shows "sort_key payload_key (map payload h) = ys"
proof (rule sort_key_inj_key_eq)
  show "mset (map payload h) = mset ys" using assms(1) by simp
  have "inj_on (\<lambda>x. snd (snd x)) (set (map payload h))"
    using assms(3) by (simp only: distinct_map)
  then show "inj_on payload_key (set (map payload h))"
    unfolding inj_on_def payload_key_def by simp
qed (rule assms(2))

lemma pq_abs_insort:
  "\<forall>y \<in> set ys. snd (snd y) < snd (snd x) \<Longrightarrow>
     map (\<lambda>x. (fst x, fst (snd x))) (insort_key payload_key x ys) =
     pq_ins (fst x, fst (snd x)) (map (\<lambda>x. (fst x, fst (snd x))) ys)"
  by (induction ys) (auto simp: payload_key_def less_eq_pq_key_def less_pq_key_def)

lemma pq_seq_room: "0 < pq_room q \<Longrightarrow> unat (pq_seq q + 1) = unat (pq_seq q) + 1"
  by (simp add: pq_room_def unat_word_ariths)

lemma pq_New_inv: "pq_inv (pq_New c)" and pq_New_abs: "pq_abs (pq_New c) = []"
  and pq_New_room: "pq_room (pq_New c) = 2 ^ 64 - 1"
  by (simp_all add: pq_New_def pq_inv_def pq_abs_def pq_order_def pq_room_def heap_Init_def
      heap_upto_def index_ok_def Let_def)

lemma distinct_seqs_mset:
  "image_mset payload (mset h) = add_mset x (image_mset payload (mset h')) \<Longrightarrow>
     distinct (map (\<lambda>y. snd (snd y)) (map payload h)) \<longleftrightarrow>
     distinct (map (\<lambda>y. snd (snd y)) (map payload h')) \<and>
     snd (snd x) \<notin> (\<lambda>y. snd (snd y)) ` set (map payload h')"
proof -
  assume eq: "image_mset payload (mset h) = add_mset x (image_mset payload (mset h'))"
  then have "mset (map payload h) = mset (x # map payload h')" by simp
  then have "mset (map (\<lambda>y. snd (snd y)) (map payload h)) =
      mset (map (\<lambda>y. snd (snd y)) (x # map payload h'))"
    by (simp only: mset_map)
  from mset_eq_imp_distinct_iff [OF this] show ?thesis by auto
qed

lemma set_payload_mset:
  "image_mset payload (mset h) = add_mset x (image_mset payload (mset h')) \<Longrightarrow>
     set (map payload h) = insert x (set (map payload h'))"
  by (metis mset_map mset.simps(2) list.set(2) set_mset_mset)

lemma pq_Push_items:
  assumes "pq_inv q"
  shows "heap_upto (length (pq_items (pq_Push v p q))) (pq_items (pq_Push v p q))"
    and "index_ok (pq_items (pq_Push v p q))"
    and "image_mset payload (mset (pq_items (pq_Push v p q))) =
      add_mset (v, p, pq_seq q + 1) (image_mset payload (mset (pq_items q)))"
  using assms heap_Push_correct [of "pq_items q"]
  by (simp_all add: pq_inv_def pq_Push_def Let_def payload_def)

lemma pq_Push_fresh:
  "pq_inv q \<Longrightarrow> 0 < pq_room q \<Longrightarrow> y \<in> set (map payload (pq_items q)) \<Longrightarrow> snd (snd y) < pq_seq q + 1"
  using pq_seq_room [of q] by (auto simp: pq_inv_def word_less_nat_alt word_le_nat_alt)

lemma pq_Push_inv:
  assumes "pq_inv q" and "0 < pq_room q"
  shows "pq_inv (pq_Push v p q)"
proof -
  note items = pq_Push_items [OF assms(1), of v p] and fresh = pq_Push_fresh [OF assms]
  have seq: "pq_seq (pq_Push v p q) = pq_seq q + 1" by (simp add: pq_Push_def Let_def)
  have "distinct (map (\<lambda>y. snd (snd y)) (map payload (pq_items (pq_Push v p q))))"
    using distinct_seqs_mset [OF items(3)] assms(1) fresh by (fastforce simp: pq_inv_def)
  moreover have "\<forall>y \<in> set (map payload (pq_items (pq_Push v p q))). snd (snd y) \<le> pq_seq q + 1"
  proof
    fix y assume "y \<in> set (map payload (pq_items (pq_Push v p q)))"
    then have "y = (v, p, pq_seq q + 1) \<or> y \<in> set (map payload (pq_items q))"
      by (simp only: set_payload_mset [OF items(3)] insert_iff)
    then show "snd (snd y) \<le> pq_seq q + 1" using fresh [of y] by auto
  qed
  ultimately show ?thesis using items seq by (simp add: pq_inv_def)
qed

lemma pq_Push_abs:
  assumes "pq_inv q" and "0 < pq_room q"
  shows "pq_abs (pq_Push v p q) = pq_ins (v, p) (pq_abs q)"
proof -
  let ?x = "(v, p, pq_seq q + 1)"
  note items = pq_Push_items [OF assms(1), of v p]
  have "pq_order (pq_Push v p q) = insort_key payload_key ?x (pq_order q)"
    unfolding pq_order_def
  proof (rule pq_order_eqI)
    show "mset (insort_key payload_key ?x (sort_key payload_key (map payload (pq_items q)))) =
        mset (map payload (pq_items (pq_Push v p q)))"
      using items(3) by simp
    show "distinct (map (\<lambda>x. snd (snd x)) (map payload (pq_items (pq_Push v p q))))"
      using pq_Push_inv [OF assms] by (simp only: pq_inv_def)
  qed (simp add: sorted_insort_key)
  then show ?thesis
    using pq_abs_insort [of "pq_order q" ?x] pq_Push_fresh [OF assms]
    by (simp add: pq_abs_def set_pq_order)
qed

lemma pq_Push_room: "0 < pq_room q \<Longrightarrow> pq_room (pq_Push v p q) = pq_room q - 1"
  using pq_seq_room [of q] by (simp add: pq_room_def pq_Push_def Let_def)

lemma pq_Len_abs: "pq_Len q = length (pq_abs q)"
  by (simp add: pq_Len_def pq_abs_def pq_order_def)

lemma pq_abs_empty: "pq_abs q = [] \<longleftrightarrow> pq_items q = []"
  using pq_Len_abs [of q] by (auto simp: pq_Len_def)

text \<open>The head of a non-empty heap is the head of the order of service.\<close>

lemma pq_order_Cons:
  assumes "pq_inv q" and "pq_items q \<noteq> []"
    and "image_mset payload (mset (pq_items q)) =
      add_mset (payload (pq_items q ! 0)) (image_mset payload (mset h))"
  shows "pq_order q = payload (pq_items q ! 0) # sort_key payload_key (map payload h)"
  unfolding pq_order_def
proof (rule pq_order_eqI)
  show "distinct (map (\<lambda>x. snd (snd x)) (map payload (pq_items q)))"
    using assms(1) by (simp only: pq_inv_def)
  have "payload_key (payload (pq_items q ! 0)) \<le> payload_key y" if "y \<in> set (map payload h)" for y
  proof -
    have "y \<in> set (map payload (pq_items q))"
      using that by (simp only: set_payload_mset [OF assms(3)] insert_iff disjI2)
    then obtain m where "m < length (pq_items q)" "y = payload (pq_items q ! m)"
      by (auto simp: in_set_conv_nth)
    then show ?thesis using heap_first_least [of "pq_items q" m] assms(1) by (simp add: pq_inv_def)
  qed
  then show "sorted (map payload_key (payload (pq_items q ! 0) # sort_key payload_key (map payload h)))"
    by simp
qed (simp add: assms(3))

lemma pq_Pop_correct:
  assumes "pq_inv q" and "pq_abs q = y # ys"
  shows "\<exists>q'. pq_Pop q = (Some (fst y), q') \<and> pq_abs q' = ys \<and> pq_inv q' \<and> pq_room q' = pq_room q"
proof -
  have ne: "pq_items q \<noteq> []" using assms(2) pq_abs_empty [of q] by auto
  obtain it h where pop: "heap_Pop (pq_items q) = (it, h)" by fastforce
  have heap: "heap_upto (length (pq_items q)) (pq_items q)" "index_ok (pq_items q)"
    using assms(1) by (simp_all add: pq_inv_def)
  note h = heap_Pop_correct [OF heap ne pop]
  let ?q = "q\<lparr>pq_items := h\<rparr>"
  have "pq_order q = payload it # pq_order ?q"
    using pq_order_Cons [OF assms(1) ne] h(3,4) by (simp add: pq_order_def)
  then have y: "y = (it_value it, it_priority it)" and ys: "ys = pq_abs ?q"
    using assms(2) by (simp_all add: pq_abs_def payload_def)
  have "\<forall>y \<in> set (map payload h). snd (snd y) \<le> pq_seq q"
    using assms(1) unfolding pq_inv_def set_payload_mset [OF h(4)] by blast
  then have "pq_inv ?q"
    using assms(1) h(1,2) distinct_seqs_mset [OF h(4)] by (simp add: pq_inv_def)
  then show ?thesis
    using y ys ne pop by (auto simp: pq_Pop_def pq_room_def)
qed

lemma pq_Peek_abs:
  assumes "pq_inv q"
  shows "pq_Peek q = (case pq_abs q of [] \<Rightarrow> None | x # _ \<Rightarrow> Some (fst x))"
proof (cases "pq_items q = []")
  case False
  then obtain it h where pop: "heap_Pop (pq_items q) = (it, h)" by fastforce
  have "image_mset payload (mset (pq_items q)) =
      add_mset (payload (pq_items q ! 0)) (image_mset payload (mset h))"
    using heap_Pop_correct(3,4) [OF _ _ False pop] assms by (simp add: pq_inv_def)
  from pq_order_Cons [OF assms False this] False show ?thesis
    by (simp add: pq_Peek_def pq_abs_def payload_def)
qed (simp add: pq_Peek_def pq_abs_def pq_order_def)

lemma pq_Pop_empty: "pq_abs q = [] \<Longrightarrow> pq_Pop q = (None, q)"
  by (simp add: pq_abs_empty pq_Pop_def)

interpretation pq: stable_priority_queue pq_Push pq_Pop pq_Peek pq_Len pq_abs pq_inv pq_room
  by unfold_locales
    (simp_all add: pq_Push_abs pq_Push_inv pq_Push_room pq_Pop_empty pq_Pop_correct pq_Peek_abs
      pq_Len_abs)

subsection \<open>Properties\<close>

abbreviation pq_calls :: "'v pq_op \<Rightarrow> 'v pqueue \<Rightarrow> 'v pq_obs \<times> 'v pqueue" where
  "pq_calls \<equiv> pq_call pq_Push pq_Pop pq_Peek pq_Len"

text \<open>
  C1. Every sequence of calls on a new queue (with fewer than \<open>2 ^ 64\<close> pushes, so that the
  insertion counter does not wrap) returns exactly what the abstract stable priority list
  returns: highest priority first, and first in, first out within a priority.
\<close>

theorem pq_refines_stable_list:
  assumes "length (filter is_push cs) < 2 ^ 64"
  shows "fst (run_ops pq_calls cs (pq_New c)) = fst (run_ops pq_spec cs [])"
proof -
  obtain rs q where run: "run_ops pq_calls cs (pq_New c) = (rs, q)" by fastforce
  have "length (filter is_push cs) \<le> pq_room (pq_New c :: 'a pqueue)"
    using assms by (simp add: pq_New_room)
  from pq.run_refines [OF pq_New_inv this run] run show ?thesis by (simp add: pq_New_abs)
qed

theorem pq_refines_stable_list_witness:
  "fst (run_ops pq_calls [OpPush ''a'' Low, OpPush ''b'' High, OpPush ''c'' High, OpPop, OpPeek, OpLen]
     (pq_New 0)) = [ObsUnit, ObsUnit, ObsUnit, ObsValue (Some ''b''), ObsValue (Some ''c''), ObsLen 2]"
proof -
  let ?cs = "[OpPush ''a'' Low, OpPush ''b'' High, OpPush ''c'' High, OpPop, OpPeek, OpLen]"
  have "fst (run_ops pq_calls ?cs (pq_New 0)) = fst (run_ops pq_spec ?cs [])"
    by (rule pq_refines_stable_list) simp
  then show ?thesis by (simp add: priority_defs)
qed

text \<open>
  C19. Pushing any batch and popping until the queue is empty ends, and returns the batch
  sorted by decreasing priority, equal priorities in the order they were pushed.
\<close>

theorem pq_drain_sorts:
  assumes "length xs < 2 ^ 64"
  shows "\<exists>q. drain pq_Pop (Suc (length xs)) (push_all pq_Push xs (pq_New c)) =
    Some (map fst (sort_key (\<lambda>x. - snd x) xs), q) \<and> pq_IsEmpty q"
proof -
  let ?q = "push_all pq_Push xs (pq_New c)"
  have "length xs \<le> pq_room (pq_New c :: 'a pqueue)" using assms by (simp add: pq_New_room)
  from pq.push_all_correct [OF pq_New_inv this]
  have q: "pq_inv ?q" "pq_abs ?q = sort_key (\<lambda>x. - snd x) xs"
    using foldl_pq_ins [of "[]" xs] by (simp_all add: pq_New_abs)
  from pq.drain_correct [OF q(1), of "Suc (length xs)"] q(2) show ?thesis
    by (auto simp: pq_IsEmpty_def pq_Len_abs)
qed

theorem pq_drain_sorts_witness:
  "\<exists>q. drain pq_Pop 4 (push_all pq_Push [(''n1'', Normal), (''c1'', Critical), (''n2'', Normal)] (pq_New 0)) =
    Some ([''c1'', ''n1'', ''n2''], q) \<and> pq_IsEmpty q"
proof -
  let ?xs = "[(''n1'', Normal), (''c1'', Critical), (''n2'', Normal)]"
  have "length ?xs < 2 ^ 64" and n: "Suc (length ?xs) = 4" by simp_all
  moreover have v: "map fst (sort_key (\<lambda>x. - snd x) ?xs) = [''c1'', ''n1'', ''n2'']"
    by (simp add: priority_defs)
  ultimately show ?thesis using pq_drain_sorts [of ?xs 0] by (simp only: n v)
qed

text \<open>
  C40. After any sequence of calls on a new queue the slice is a heap for the service order
  (no item is served before its parent), and every item's recorded index is its position.
\<close>

theorem pq_heap_invariant:
  assumes "length (filter is_push cs) < 2 ^ 64" and "run_ops pq_calls cs (pq_New c) = (rs, q)"
  shows "(\<forall>i < pq_Len q. it_index (pq_items q ! i) = int i) \<and>
    (\<forall>i < pq_Len q. 0 < i \<longrightarrow> \<not> heap_Less (pq_items q) i ((i - 1) div 2))"
proof -
  have "length (filter is_push cs) \<le> pq_room (pq_New c :: 'a pqueue)"
    using assms(1) by (simp add: pq_New_room)
  from pq.run_refines [OF pq_New_inv this assms(2)] have "pq_inv q" by simp
  then show ?thesis
    by (auto simp: pq_inv_def heap_upto_def index_ok_def heap_Less_key pq_Len_def not_less)
qed

theorem pq_heap_invariant_witness:
  "let q = snd (run_ops pq_calls [OpPush ''a'' Low, OpPush ''b'' High, OpPop] (pq_New 0)) in
     (\<forall>i < pq_Len q. it_index (pq_items q ! i) = int i) \<and>
     (\<forall>i < pq_Len q. 0 < i \<longrightarrow> \<not> heap_Less (pq_items q) i ((i - 1) div 2))"
proof -
  obtain rs q where q: "run_ops pq_calls [OpPush ''a'' Low, OpPush ''b'' High, OpPop] (pq_New 0) = (rs, q)"
    by fastforce
  have "length (filter is_push [OpPush ''a'' Low, OpPush ''b'' High, OpPop]) < 2 ^ 64" by simp
  from pq_heap_invariant [OF this q] show ?thesis by (simp only: q Let_def snd_conv)
qed

end
