(* ===== verification/Semaphore.thy ===== *)
theory Semaphore
  imports Go_Prelude
begin

section \<open>The weighted semaphore (\<open>pkg/semaphore/semaphore.go\<close>)\<close>

text \<open>
  Each section the code runs under the mutex is one function: the entry of \<open>Acquire\<close>, its
  removal of a cancelled waiter, \<open>TryAcquire\<close>, and \<open>Release\<close> with the scan that wakes
  waiters. A waiter's \<open>ready\<close> channel is a number, unique per call; closing it is the
  list of channels that \<open>Release\<close> returns. On top of these a step relation interleaves any
  number of goroutines that acquire, wait, are cancelled and release.
\<close>

subsection \<open>State and operations\<close>

record waiter =
  w_weight :: i64
  w_ready :: nat

record semaphore =
  sem_max :: i64
  sem_current :: i64
  sem_waiters :: "waiter list"

definition sem_New :: "i64 \<Rightarrow> semaphore" where
  "sem_New maxWeight =
     \<lparr>sem_max = (if maxWeight \<le> 0 then 1 else maxWeight), sem_current = 0, sem_waiters = []\<rparr>"

text \<open>The test both acquisitions make, with the 64-bit addition of the code.\<close>

definition sem_fits :: "semaphore \<Rightarrow> i64 \<Rightarrow> bool" where
  "sem_fits s weight \<longleftrightarrow> wrap64 (sem_current s + weight) \<le> sem_max s"

datatype acquire_result = AcquireNil | AcquireTooBig i64 i64 | AcquireWait

text \<open>\<open>Acquire\<close> up to its select; \<open>ch\<close> is the channel made for the waiter.\<close>

definition sem_Acquire_enter :: "i64 \<Rightarrow> nat \<Rightarrow> semaphore \<Rightarrow> acquire_result \<times> semaphore" where
  "sem_Acquire_enter weight ch s =
     (if weight \<le> 0 then (AcquireNil, s)
      else if weight > sem_max s then (AcquireTooBig weight (sem_max s), s)
      else if sem_fits s weight \<and> length (sem_waiters s) = 0
      then (AcquireNil, s\<lparr>sem_current := wrap64 (sem_current s + weight)\<rparr>)
      else (AcquireWait, s\<lparr>sem_waiters := sem_waiters s @ [\<lparr>w_weight = weight, w_ready = ch\<rparr>]\<rparr>))"

text \<open>The branch of the select taken when the context is done.\<close>

fun remove_waiter :: "nat \<Rightarrow> waiter list \<Rightarrow> waiter list" where
  "remove_waiter ch [] = []"
| "remove_waiter ch (w # ws) = (if w_ready w = ch then ws else w # remove_waiter ch ws)"

definition sem_Acquire_cancel :: "nat \<Rightarrow> semaphore \<Rightarrow> semaphore" where
  "sem_Acquire_cancel ch s = s\<lparr>sem_waiters := remove_waiter ch (sem_waiters s)\<rparr>"

definition sem_TryAcquire :: "i64 \<Rightarrow> semaphore \<Rightarrow> bool \<times> semaphore" where
  "sem_TryAcquire weight s =
     (if weight \<le> 0 then (True, s)
      else if weight > sem_max s then (False, s)
      else if sem_fits s weight \<and> length (sem_waiters s) = 0
      then (True, s\<lparr>sem_current := wrap64 (sem_current s + weight)\<rparr>)
      else (False, s))"

text \<open>\<open>notifyWaiters\<close>: the index stays put when the waiter at it is taken out.\<close>

function notify_loop :: "nat \<Rightarrow> nat list \<Rightarrow> semaphore \<Rightarrow> nat list \<times> semaphore" where
  "notify_loop i closed s =
     (if i < length (sem_waiters s)
      then let w = sem_waiters s ! i in
        if sem_fits s (w_weight w)
        then notify_loop i (closed @ [w_ready w])
          (s\<lparr>sem_current := wrap64 (sem_current s + w_weight w),
             sem_waiters := take i (sem_waiters s) @ drop (i + 1) (sem_waiters s)\<rparr>)
        else notify_loop (i + 1) closed s
      else (closed, s))"
  by pat_completeness auto
termination
  by (relation "measure (\<lambda>(i, closed, s). length (sem_waiters s) - i)") auto

declare notify_loop.simps [simp del]

definition sem_notifyWaiters :: "semaphore \<Rightarrow> nat list \<times> semaphore" where
  "sem_notifyWaiters s = notify_loop 0 [] s"

definition sem_Release :: "i64 \<Rightarrow> semaphore \<Rightarrow> nat list \<times> semaphore" where
  "sem_Release weight s =
     (if weight \<le> 0 then ([], s)
      else let c = wrap64 (sem_current s - weight)
           in sem_notifyWaiters (s\<lparr>sem_current := (if c < 0 then 0 else c)\<rparr>))"

definition sem_Current :: "semaphore \<Rightarrow> i64" where
  "sem_Current s = sem_current s"

definition sem_Available :: "semaphore \<Rightarrow> i64" where
  "sem_Available s = wrap64 (sem_max s - sem_current s)"

subsection \<open>Well-formed states\<close>

text \<open>
  The capacity is a positive number below \<open>2 ^ 62\<close>, so that adding a weight to the current
  value does not wrap; the current value is between 0 and the capacity; and every waiter
  asks for an admissible weight.
\<close>

definition sem_ok :: "semaphore \<Rightarrow> bool" where
  "sem_ok s \<longleftrightarrow> 0 < sem_max s \<and> sem_max s < 2 ^ 62 \<and>
     0 \<le> sem_current s \<and> sem_current s \<le> sem_max s \<and>
     (\<forall>w \<in> set (sem_waiters s). 0 < w_weight w \<and> w_weight w \<le> sem_max s)"

lemma sem_okI [intro]:
  "0 < sem_max s \<Longrightarrow> sem_max s < 2 ^ 62 \<Longrightarrow> 0 \<le> sem_current s \<Longrightarrow> sem_current s \<le> sem_max s \<Longrightarrow>
     (\<And>w. w \<in> set (sem_waiters s) \<Longrightarrow> 0 < w_weight w \<and> w_weight w \<le> sem_max s) \<Longrightarrow> sem_ok s"
  by (auto simp: sem_ok_def)

lemma sem_ok_add:
  "sem_ok s \<Longrightarrow> 0 < w \<Longrightarrow> w \<le> sem_max s \<Longrightarrow> wrap64 (sem_current s + w) = sem_current s + w"
  by (rule wrap64_id) (simp add: sem_ok_def go_defs)

lemma sem_ok_sub:
  "sem_ok s \<Longrightarrow> 0 < w \<Longrightarrow> w \<le> sem_max s \<Longrightarrow> wrap64 (sem_current s - w) = sem_current s - w"
  by (rule wrap64_id) (simp add: sem_ok_def go_defs)

lemma sem_fits_iff:
  "sem_ok s \<Longrightarrow> 0 < w \<Longrightarrow> w \<le> sem_max s \<Longrightarrow> sem_fits s w \<longleftrightarrow> sem_current s + w \<le> sem_max s"
  by (simp add: sem_fits_def sem_ok_add)

lemma sem_New_ok: "m < 2 ^ 62 \<Longrightarrow> sem_ok (sem_New m)"
  by (rule sem_okI) (auto simp: sem_New_def)

text \<open>
  The scan as a recursion on the waiter list: it returns the new current value, the waiters
  that stay and the waiters that are woken, both in queue order.
\<close>

fun admit :: "i64 \<Rightarrow> i64 \<Rightarrow> waiter list \<Rightarrow> i64 \<times> waiter list \<times> waiter list" where
  "admit m c [] = (c, [], [])"
| "admit m c (w # ws) =
     (if c + w_weight w \<le> m
      then let (c', stay, woken) = admit m (c + w_weight w) ws in (c', stay, w # woken)
      else let (c', stay, woken) = admit m c ws in (c', w # stay, woken))"

lemma notify_loop_admit:
  assumes "sem_ok s" and "sem_waiters s = pre @ ws"
    and "admit (sem_max s) (sem_current s) ws = (c, stay, woken)"
  shows "notify_loop (length pre) closed s =
    (closed @ map w_ready woken, s\<lparr>sem_current := c, sem_waiters := pre @ stay\<rparr>)"
  using assms
proof (induction ws arbitrary: s pre closed woken stay)
  case Nil
  then show ?case by (simp add: notify_loop.simps)
next
  case (Cons w ws)
  have w: "0 < w_weight w" "w_weight w \<le> sem_max s"
    using Cons.prems(1,2) by (auto simp: sem_ok_def)
  note fits = sem_fits_iff [OF Cons.prems(1) w] and add = sem_ok_add [OF Cons.prems(1) w]
  show ?case
  proof (cases "sem_current s + w_weight w \<le> sem_max s")
    case True
    let ?s = "s\<lparr>sem_current := sem_current s + w_weight w, sem_waiters := pre @ ws\<rparr>"
    obtain woken' where woken': "woken = w # woken'"
        "admit (sem_max s) (sem_current s + w_weight w) ws = (c, stay, woken')"
      using Cons.prems(3) True by (auto split: prod.splits)
    have "sem_ok ?s"
      by (rule sem_okI) (use Cons.prems(1,2) True w in \<open>auto simp: sem_ok_def\<close>)
    from Cons.IH [OF this, of pre stay woken' "closed @ [w_ready w]"] woken'
    have "notify_loop (length pre) (closed @ [w_ready w]) ?s =
        (closed @ map w_ready woken, s\<lparr>sem_current := c, sem_waiters := pre @ stay\<rparr>)"
      by simp
    then show ?thesis
      using Cons.prems(2) fits add True by (subst notify_loop.simps) simp
  next
    case False
    obtain stay' where stay': "stay = w # stay'" "admit (sem_max s) (sem_current s) ws = (c, stay', woken)"
      using Cons.prems(3) False by (auto split: prod.splits)
    from Cons.IH [OF Cons.prems(1), of "pre @ [w]" stay' woken closed] stay' Cons.prems(2)
    have "notify_loop (Suc (length pre)) closed s =
        (closed @ map w_ready woken, s\<lparr>sem_current := c, sem_waiters := pre @ stay\<rparr>)"
      by simp
    then show ?thesis
      using Cons.prems(2) fits False by (subst notify_loop.simps) simp
  qed
qed

lemma admit_sum: "admit m c ws = (c', stay, woken) \<Longrightarrow> c' = c + sum_list (map w_weight woken)"
  by (induction ws arbitrary: c c' stay woken) (fastforce split: if_splits prod.splits)+

lemma admit_le: "admit m c ws = (c', stay, woken) \<Longrightarrow> c \<le> m \<Longrightarrow> c' \<le> m"
  by (induction ws arbitrary: c c' stay woken) (fastforce split: if_splits prod.splits)+

lemma admit_mset: "admit m c ws = (c', stay, woken) \<Longrightarrow> mset ws = mset stay + mset woken"
  by (induction ws arbitrary: c c' stay woken) (fastforce split: if_splits prod.splits)+

lemma admit_ge:
  "admit m c ws = (c', stay, woken) \<Longrightarrow> \<forall>w \<in> set ws. 0 < w_weight w \<Longrightarrow> c \<le> c'"
  by (induction ws arbitrary: c c' stay woken) (fastforce split: if_splits prod.splits)+

lemma admit_stay:
  "admit m c ws = (c', stay, woken) \<Longrightarrow> \<forall>w \<in> set ws. 0 < w_weight w \<Longrightarrow>
     w \<in> set stay \<Longrightarrow> m < c' + w_weight w"
proof (induction ws arbitrary: c c' stay woken)
  case (Cons v vs)
  show ?case
  proof (cases "c + w_weight v \<le> m")
    case True
    then show ?thesis using Cons by (auto split: prod.splits)
  next
    case False
    then obtain stay' where s: "stay = v # stay'" "admit m c vs = (c', stay', woken)"
      using Cons.prems(1) by (auto split: prod.splits)
    moreover have "c \<le> c'" using admit_ge [OF s(2)] Cons.prems(2) by simp
    ultimately show ?thesis using Cons.IH [OF s(2)] Cons.prems False by auto
  qed
qed simp

text \<open>
  Which waiters the scan wakes, as flags on the queue: one flag per waiter, front to back.
\<close>

definition picked :: "bool list \<Rightarrow> 'a list \<Rightarrow> 'a list" where
  "picked sel xs = map snd (filter fst (zip sel xs))"

lemma picked_simps [simp]:
  "picked [] xs = []"
  "picked (b # sel) (x # xs) = (if b then x # picked sel xs else picked sel xs)"
  by (simp_all add: picked_def)

lemma admit_mask:
  "admit m c ws = (c', stay, woken) \<Longrightarrow>
   \<exists>sel. length sel = length ws \<and> woken = picked sel ws \<and> stay = picked (map Not sel) ws \<and>
     (\<forall>i<length ws. sel ! i \<longleftrightarrow>
        c + sum_list (map w_weight (picked (take i sel) (take i ws))) + w_weight (ws ! i) \<le> m)"
proof (induction ws arbitrary: c c' stay woken)
  case (Cons w ws)
  define b where "b = (c + w_weight w \<le> m)"
  define d where "d = (if b then c + w_weight w else c)"
  obtain stay' woken' where a: "admit m d ws = (c', stay', woken')"
    and sw: "stay = (if b then stay' else w # stay')" "woken = (if b then w # woken' else woken')"
    using Cons.prems by (auto simp: b_def d_def split: if_splits prod.splits)
  obtain sel where sel: "length sel = length ws" "woken' = picked sel ws" "stay' = picked (map Not sel) ws"
    and greedy: "\<forall>i<length ws. sel ! i \<longleftrightarrow>
      d + sum_list (map w_weight (picked (take i sel) (take i ws))) + w_weight (ws ! i) \<le> m"
    using Cons.IH [OF a] by blast
  have "(b # sel) ! i \<longleftrightarrow>
      c + sum_list (map w_weight (picked (take i (b # sel)) (take i (w # ws)))) + w_weight ((w # ws) ! i) \<le> m"
    if "i < length (w # ws)" for i
    using that greedy by (cases i) (simp_all add: b_def d_def algebra_simps)
  then show ?case using sel sw by (intro exI [of _ "b # sel"]) simp
qed simp

text \<open>What one \<open>Release\<close> does to a well-formed semaphore.\<close>

lemma sem_Release_admit:
  assumes "sem_ok s" and "0 < w" and "w \<le> sem_max s"
    and "admit (sem_max s) (max 0 (sem_current s - w)) (sem_waiters s) = (c, stay, woken)"
  shows "sem_Release w s = (map w_ready woken, s\<lparr>sem_current := c, sem_waiters := stay\<rparr>)"
proof -
  let ?s = "s\<lparr>sem_current := max 0 (sem_current s - w)\<rparr>"
  have "sem_ok ?s" by (rule sem_okI) (use assms(1,2) in \<open>auto simp: sem_ok_def\<close>)
  from notify_loop_admit [OF this, of "[]" "sem_waiters s"] assms
  show ?thesis
    by (simp add: sem_Release_def sem_notifyWaiters_def sem_ok_sub Let_def max_def split: if_splits)
qed

lemma sem_Release_ok:
  assumes "sem_ok s" and "0 < w" and "w \<le> sem_max s" and "sem_Release w s = (chs, s')"
  shows "sem_ok s' \<and> sem_max s' = sem_max s \<and>
    (\<forall>v \<in> set (sem_waiters s'). sem_max s < sem_current s' + w_weight v)"
proof -
  obtain c stay woken where a:
    "admit (sem_max s) (max 0 (sem_current s - w)) (sem_waiters s) = (c, stay, woken)"
    using prod_cases3 by blast
  have s': "s' = s\<lparr>sem_current := c, sem_waiters := stay\<rparr>"
    using sem_Release_admit [OF assms(1-3) a] assms(4) by simp
  have pos: "\<forall>v \<in> set (sem_waiters s). 0 < w_weight v" using assms(1) by (simp add: sem_ok_def)
  have "set stay \<subseteq> set (sem_waiters s)"
    using admit_mset [OF a] by (metis mset_subset_eq_add_left set_mset_mono set_mset_mset)
  then show ?thesis
    using s' admit_le [OF a] admit_ge [OF a pos] admit_stay [OF a pos] assms(1,2)
    by (auto simp: sem_ok_def)
qed

subsection \<open>Goroutines sharing a semaphore\<close>

text \<open>
  A goroutine is idle, waits in the select of \<open>Acquire\<close>, or holds a weight it will release.
  \<open>ss_ready\<close> is the set of closed channels, \<open>ss_next\<close> the next fresh one. A select with
  both branches ready takes either: a waiter whose channel is closed may still take the
  branch of the done context. \<open>ss_lost\<close> is a ghost total of the weight charged for such
  waiters, which return the context's error. Calls that return without touching the state
  (a weight that is not positive, or above the capacity, and a failed \<open>TryAcquire\<close>) are not steps.
\<close>

datatype sem_pc = SIdle | SWaiting i64 nat | SHolding i64

record sem_sys =
  ss_sem :: semaphore
  ss_ready :: "nat set"
  ss_next :: nat
  ss_pcs :: "sem_pc list"
  ss_lost :: i64

inductive sem_step :: "sem_sys \<Rightarrow> sem_sys \<Rightarrow> bool" where
  acquire_now:
    "i < length (ss_pcs \<sigma>) \<Longrightarrow> ss_pcs \<sigma> ! i = SIdle \<Longrightarrow> 0 < w \<Longrightarrow>
     sem_Acquire_enter w (ss_next \<sigma>) (ss_sem \<sigma>) = (AcquireNil, s) \<Longrightarrow>
     sem_step \<sigma> (\<sigma>\<lparr>ss_sem := s, ss_pcs := (ss_pcs \<sigma>)[i := SHolding w]\<rparr>)"
| acquire_wait:
    "i < length (ss_pcs \<sigma>) \<Longrightarrow> ss_pcs \<sigma> ! i = SIdle \<Longrightarrow> 0 < w \<Longrightarrow>
     sem_Acquire_enter w (ss_next \<sigma>) (ss_sem \<sigma>) = (AcquireWait, s) \<Longrightarrow>
     sem_step \<sigma> (\<sigma>\<lparr>ss_sem := s, ss_next := Suc (ss_next \<sigma>),
       ss_pcs := (ss_pcs \<sigma>)[i := SWaiting w (ss_next \<sigma>)]\<rparr>)"
| acquire_ready:
    "i < length (ss_pcs \<sigma>) \<Longrightarrow> ss_pcs \<sigma> ! i = SWaiting w ch \<Longrightarrow> ch \<in> ss_ready \<sigma> \<Longrightarrow>
     sem_step \<sigma> (\<sigma>\<lparr>ss_pcs := (ss_pcs \<sigma>)[i := SHolding w]\<rparr>)"
| acquire_done:
    "i < length (ss_pcs \<sigma>) \<Longrightarrow> ss_pcs \<sigma> ! i = SWaiting w ch \<Longrightarrow>
     sem_step \<sigma> (\<sigma>\<lparr>ss_sem := sem_Acquire_cancel ch (ss_sem \<sigma>),
       ss_pcs := (ss_pcs \<sigma>)[i := SIdle],
       ss_lost := ss_lost \<sigma> + (if ch \<in> ss_ready \<sigma> then w else 0)\<rparr>)"
| try_acquire:
    "i < length (ss_pcs \<sigma>) \<Longrightarrow> ss_pcs \<sigma> ! i = SIdle \<Longrightarrow> 0 < w \<Longrightarrow>
     sem_TryAcquire w (ss_sem \<sigma>) = (True, s) \<Longrightarrow>
     sem_step \<sigma> (\<sigma>\<lparr>ss_sem := s, ss_pcs := (ss_pcs \<sigma>)[i := SHolding w]\<rparr>)"
| release:
    "i < length (ss_pcs \<sigma>) \<Longrightarrow> ss_pcs \<sigma> ! i = SHolding w \<Longrightarrow>
     sem_Release w (ss_sem \<sigma>) = (chs, s) \<Longrightarrow>
     sem_step \<sigma> (\<sigma>\<lparr>ss_sem := s, ss_ready := ss_ready \<sigma> \<union> set chs,
       ss_pcs := (ss_pcs \<sigma>)[i := SIdle]\<rparr>)"

definition sem_init :: "i64 \<Rightarrow> nat \<Rightarrow> sem_sys" where
  "sem_init m n = \<lparr>ss_sem = sem_New m, ss_ready = {}, ss_next = 0, ss_pcs = replicate n SIdle, ss_lost = 0\<rparr>"

text \<open>The starting states: a new semaphore of a capacity below \<open>2 ^ 62\<close>, every goroutine idle.\<close>

definition sem_start :: "sem_sys \<Rightarrow> bool" where
  "sem_start \<sigma> \<longleftrightarrow> (\<exists>m n. m < 2 ^ 62 \<and> \<sigma> = sem_init m n)"

abbreviation sem_reach :: "sem_sys \<Rightarrow> bool" where
  "sem_reach \<equiv> reach sem_start sem_step"

text \<open>
  Sums over goroutines: the weight held, the weight charged to a goroutine (held, or woken
  and not yet running), the waiters not yet woken, and the channels in use.
\<close>

fun held :: "sem_pc \<Rightarrow> i64" where
  "held (SHolding w) = w"
| "held _ = 0"

fun charged :: "nat set \<Rightarrow> sem_pc \<Rightarrow> i64" where
  "charged R (SHolding w) = w"
| "charged R (SWaiting w ch) = (if ch \<in> R then w else 0)"
| "charged R SIdle = 0"

fun pending :: "nat set \<Rightarrow> sem_pc \<Rightarrow> waiter multiset" where
  "pending R (SWaiting w ch) = (if ch \<in> R then {#} else {#\<lparr>w_weight = w, w_ready = ch\<rparr>#})"
| "pending R _ = {#}"

fun channel :: "sem_pc \<Rightarrow> nat multiset" where
  "channel (SWaiting w ch) = {#ch#}"
| "channel _ = {#}"

fun positive :: "sem_pc \<Rightarrow> bool" where
  "positive (SHolding w) = (0 < w)"
| "positive (SWaiting w ch) = (0 < w)"
| "positive SIdle = True"

definition sum_pcs :: "(sem_pc \<Rightarrow> 'b :: comm_monoid_add) \<Rightarrow> sem_pc list \<Rightarrow> 'b" where
  "sum_pcs f pcs = sum_list (map f pcs)"

lemma sum_pcs_simps [simp]:
  "sum_pcs f [] = 0" "sum_pcs f (pc # pcs) = f pc + sum_pcs f pcs"
  by (simp_all add: sum_pcs_def)

definition sem_sys_inv :: "sem_sys \<Rightarrow> bool" where
  "sem_sys_inv \<sigma> \<longleftrightarrow> sem_ok (ss_sem \<sigma>) \<and> 0 \<le> ss_lost \<sigma> \<and>
     sem_current (ss_sem \<sigma>) = sum_pcs (charged (ss_ready \<sigma>)) (ss_pcs \<sigma>) + ss_lost \<sigma> \<and>
     sum_pcs (pending (ss_ready \<sigma>)) (ss_pcs \<sigma>) = mset (sem_waiters (ss_sem \<sigma>)) \<and>
     once (sum_pcs channel (ss_pcs \<sigma>)) \<and>
     (\<forall>ch \<in># sum_pcs channel (ss_pcs \<sigma>). ch < ss_next \<sigma>) \<and> (\<forall>ch \<in> ss_ready \<sigma>. ch < ss_next \<sigma>) \<and>
     (\<forall>pc \<in> set (ss_pcs \<sigma>). positive pc)"

lemma charged_nonneg: "positive pc \<Longrightarrow> 0 \<le> charged R pc"
  by (cases pc) auto

lemma held_le_charged: "positive pc \<Longrightarrow> held pc \<le> charged R pc"
  by (cases pc) auto

lemma total_held_le_charged: "\<forall>pc \<in> set pcs. positive pc \<Longrightarrow> sum_pcs held pcs \<le> sum_pcs (charged R) pcs"
  by (induction pcs) (auto intro: add_mono held_le_charged)

lemma pending_channels: "image_mset w_ready (sum_pcs (pending R) pcs) \<subseteq># sum_pcs channel pcs"
proof (induction pcs)
  case (Cons pc pcs)
  then show ?case by (cases pc) (auto intro: subset_mset_add_right)
qed simp

lemma pending_unready: "w \<in># sum_pcs (pending R) pcs \<Longrightarrow> w_ready w \<notin> R"
proof (induction pcs)
  case (Cons pc pcs)
  then show ?case by (cases pc) (auto split: if_splits)
qed simp

text \<open>Closing more channels moves waiters from pending to charged.\<close>

lemma charged_close:
  "sum_pcs (charged (R \<union> K)) pcs =
     sum_pcs (charged R) pcs + \<Sum>\<^sub># (image_mset w_weight (filter_mset (\<lambda>x. w_ready x \<in> K) (sum_pcs (pending R) pcs)))"
proof (induction pcs)
  case (Cons pc pcs)
  then show ?case by (cases pc) auto
qed simp

lemma pending_close:
  "sum_pcs (pending (R \<union> K)) pcs = filter_mset (\<lambda>x. w_ready x \<notin> K) (sum_pcs (pending R) pcs)"
proof (induction pcs)
  case (Cons pc pcs)
  then show ?case by (cases pc) auto
qed simp

lemma remove_waiter_absent: "\<forall>w \<in> set ws. w_ready w \<noteq> ch \<Longrightarrow> remove_waiter ch ws = ws"
  by (induction ws) auto

lemma remove_waiter_mset:
  "once (image_mset w_ready (mset ws)) \<Longrightarrow> w \<in> set ws \<Longrightarrow> w_ready w = ch \<Longrightarrow>
     mset ws = add_mset w (mset (remove_waiter ch ws))"
proof (induction ws)
  case (Cons v vs)
  show ?case
  proof (cases "w_ready v = ch")
    case True
    have "w \<notin> set vs"
    proof
      assume "w \<in> set vs"
      then have "w_ready w \<in> w_ready ` set vs" by (rule imageI)
      with Cons.prems True show False by simp
    qed
    with True Cons.prems show ?thesis by simp
  next
    case False
    with Cons show ?thesis by auto
  qed
qed simp

lemma remove_waiter_subset: "set (remove_waiter ch ws) \<subseteq> set ws"
  by (induction ws) auto

subsection \<open>The conservation invariant\<close>

lemma sum_pcs_update:
  "i < length pcs \<Longrightarrow> sum_pcs f (pcs[i := pc]) + f (pcs ! i) = sum_pcs f pcs + f pc"
  unfolding sum_pcs_def by (rule sum_list_map_update)

lemma charged_update:
  "i < length pcs \<Longrightarrow>
     sum_pcs (charged R) (pcs[i := pc]) = sum_pcs (charged R) pcs - charged R (pcs ! i) + charged R pc"
  unfolding sum_pcs_def by (rule sum_list_map_update_int)

lemma positive_update:
  "\<forall>pc \<in> set pcs. positive pc \<Longrightarrow> positive pc' \<Longrightarrow> \<forall>pc \<in> set (pcs[i := pc']). positive pc"
  using set_update_subset_insert [of pcs i pc'] by auto

lemma sem_sys_invI:
  assumes "sem_ok (ss_sem \<sigma>)" and "0 \<le> ss_lost \<sigma>"
    and "sem_current (ss_sem \<sigma>) = sum_pcs (charged (ss_ready \<sigma>)) (ss_pcs \<sigma>) + ss_lost \<sigma>"
    and "sum_pcs (pending (ss_ready \<sigma>)) (ss_pcs \<sigma>) = mset (sem_waiters (ss_sem \<sigma>))"
    and "once (sum_pcs channel (ss_pcs \<sigma>))"
    and "\<forall>ch \<in># sum_pcs channel (ss_pcs \<sigma>). ch < ss_next \<sigma>"
    and "\<forall>ch \<in> ss_ready \<sigma>. ch < ss_next \<sigma>"
    and "\<forall>pc \<in> set (ss_pcs \<sigma>). positive pc"
  shows "sem_sys_inv \<sigma>"
  using assms by (simp add: sem_sys_inv_def)

lemma sem_sys_invD:
  assumes "sem_sys_inv \<sigma>"
  shows "sem_ok (ss_sem \<sigma>)" and "0 \<le> ss_lost \<sigma>"
    and "sem_current (ss_sem \<sigma>) = sum_pcs (charged (ss_ready \<sigma>)) (ss_pcs \<sigma>) + ss_lost \<sigma>"
    and "sum_pcs (pending (ss_ready \<sigma>)) (ss_pcs \<sigma>) = mset (sem_waiters (ss_sem \<sigma>))"
    and "once (sum_pcs channel (ss_pcs \<sigma>))"
    and "\<forall>ch \<in># sum_pcs channel (ss_pcs \<sigma>). ch < ss_next \<sigma>"
    and "\<forall>ch \<in> ss_ready \<sigma>. ch < ss_next \<sigma>"
    and "\<forall>pc \<in> set (ss_pcs \<sigma>). positive pc"
  using assms by (simp_all add: sem_sys_inv_def)

lemma waiting_channel:
  "i < length pcs \<Longrightarrow> pcs ! i = SWaiting w ch \<Longrightarrow> channel pc = {#} \<Longrightarrow>
     sum_pcs channel pcs = add_mset ch (sum_pcs channel (pcs[i := pc]))"
  using sum_pcs_update [of i pcs channel pc] by simp

lemma waiting_positive: "\<forall>pc \<in> set pcs. positive pc \<Longrightarrow> i < length pcs \<Longrightarrow> pcs ! i = SWaiting w ch \<Longrightarrow> 0 < w"
  by (metis nth_mem positive.simps(2))

lemma enter_inv:
  assumes inv: "sem_sys_inv \<sigma>" and i: "i < length (ss_pcs \<sigma>)" "ss_pcs \<sigma> ! i = SIdle"
    and w: "0 < w" "w \<le> sem_max (ss_sem \<sigma>)" "sem_fits (ss_sem \<sigma>) w"
  shows "sem_sys_inv (\<sigma>\<lparr>ss_sem := ss_sem \<sigma>\<lparr>sem_current := wrap64 (sem_current (ss_sem \<sigma>) + w)\<rparr>,
    ss_pcs := (ss_pcs \<sigma>)[i := SHolding w]\<rparr>)"
proof -
  note I = sem_sys_invD [OF inv]
  have add: "wrap64 (sem_current (ss_sem \<sigma>) + w) = sem_current (ss_sem \<sigma>) + w"
    and fits: "sem_current (ss_sem \<sigma>) + w \<le> sem_max (ss_sem \<sigma>)"
    using sem_ok_add [OF I(1) w(1,2)] sem_fits_iff [OF I(1) w(1,2)] w(3) by simp_all
  have ok: "sem_ok (ss_sem \<sigma>\<lparr>sem_current := sem_current (ss_sem \<sigma>) + w\<rparr>)"
    by (rule sem_okI) (use I(1) w fits in \<open>auto simp: sem_ok_def\<close>)
  have ch: "sum_pcs channel ((ss_pcs \<sigma>)[i := SHolding w]) = sum_pcs channel (ss_pcs \<sigma>)"
    and pe: "sum_pcs (pending (ss_ready \<sigma>)) ((ss_pcs \<sigma>)[i := SHolding w]) =
      sum_pcs (pending (ss_ready \<sigma>)) (ss_pcs \<sigma>)"
    using sum_pcs_update [OF i(1), of channel "SHolding w"]
      sum_pcs_update [OF i(1), of "pending (ss_ready \<sigma>)" "SHolding w"] i(2) by simp_all
  have po: "\<forall>pc \<in> set ((ss_pcs \<sigma>)[i := SHolding w]). positive pc"
    by (rule positive_update [OF I(8)]) (simp add: w)
  have cu: "sem_current (ss_sem \<sigma>) + w =
      sum_pcs (charged (ss_ready \<sigma>)) ((ss_pcs \<sigma>)[i := SHolding w]) + ss_lost \<sigma>"
    by (simp add: I(3) i charged_update)
  show ?thesis
    unfolding add by (rule sem_sys_invI) (simp_all add: ok ch pe I(2,4-7) po cu [symmetric])
qed

lemma acquire_now_inv:
  assumes "sem_sys_inv \<sigma>" "i < length (ss_pcs \<sigma>)" "ss_pcs \<sigma> ! i = SIdle" "0 < w"
    and "sem_Acquire_enter w (ss_next \<sigma>) (ss_sem \<sigma>) = (AcquireNil, s)"
  shows "sem_sys_inv (\<sigma>\<lparr>ss_sem := s, ss_pcs := (ss_pcs \<sigma>)[i := SHolding w]\<rparr>)"
  using assms enter_inv [OF assms(1-4)] by (auto simp: sem_Acquire_enter_def split: if_splits)

lemma try_acquire_inv:
  assumes "sem_sys_inv \<sigma>" "i < length (ss_pcs \<sigma>)" "ss_pcs \<sigma> ! i = SIdle" "0 < w"
    and "sem_TryAcquire w (ss_sem \<sigma>) = (True, s)"
  shows "sem_sys_inv (\<sigma>\<lparr>ss_sem := s, ss_pcs := (ss_pcs \<sigma>)[i := SHolding w]\<rparr>)"
  using assms enter_inv [OF assms(1-4)] by (auto simp: sem_TryAcquire_def split: if_splits)

lemma acquire_wait_inv:
  assumes inv: "sem_sys_inv \<sigma>" and i: "i < length (ss_pcs \<sigma>)" "ss_pcs \<sigma> ! i = SIdle" and w: "0 < w"
    and enter: "sem_Acquire_enter w (ss_next \<sigma>) (ss_sem \<sigma>) = (AcquireWait, s)"
  shows "sem_sys_inv (\<sigma>\<lparr>ss_sem := s, ss_next := Suc (ss_next \<sigma>),
    ss_pcs := (ss_pcs \<sigma>)[i := SWaiting w (ss_next \<sigma>)]\<rparr>)"
proof -
  note I = sem_sys_invD [OF inv]
  let ?pc = "SWaiting w (ss_next \<sigma>)" and ?w = "\<lparr>w_weight = w, w_ready = ss_next \<sigma>\<rparr>"
  have s: "s = ss_sem \<sigma>\<lparr>sem_waiters := sem_waiters (ss_sem \<sigma>) @ [?w]\<rparr>"
    and le: "w \<le> sem_max (ss_sem \<sigma>)"
    using enter w by (auto simp: sem_Acquire_enter_def split: if_splits)
  have ok: "sem_ok s"
    by (rule sem_okI) (use I(1) w le in \<open>auto simp: s sem_ok_def\<close>)
  have fresh: "ss_next \<sigma> \<notin> ss_ready \<sigma>" "ss_next \<sigma> \<notin># sum_pcs channel (ss_pcs \<sigma>)"
    using I(6,7) by auto
  have ch: "sum_pcs channel ((ss_pcs \<sigma>)[i := ?pc]) = add_mset (ss_next \<sigma>) (sum_pcs channel (ss_pcs \<sigma>))"
    and pe: "sum_pcs (pending (ss_ready \<sigma>)) ((ss_pcs \<sigma>)[i := ?pc]) =
      add_mset ?w (sum_pcs (pending (ss_ready \<sigma>)) (ss_pcs \<sigma>))"
    using sum_pcs_update [OF i(1), of channel ?pc] fresh(1)
      sum_pcs_update [OF i(1), of "pending (ss_ready \<sigma>)" ?pc] i(2) by simp_all
  have cur: "sem_current s = sem_current (ss_sem \<sigma>)"
    and ws: "mset (sem_waiters s) = add_mset ?w (mset (sem_waiters (ss_sem \<sigma>)))"
    by (simp_all add: s)
  have po: "\<forall>pc \<in> set ((ss_pcs \<sigma>)[i := ?pc]). positive pc"
    by (rule positive_update [OF I(8)]) (simp add: w)
  show ?thesis
    by (rule sem_sys_invI)
      (use I(6,7) po in \<open>simp_all add: ok cur ws ch pe I(2-5) i fresh charged_update less_SucI\<close>)
qed

lemma acquire_ready_inv:
  assumes inv: "sem_sys_inv \<sigma>" and i: "i < length (ss_pcs \<sigma>)" "ss_pcs \<sigma> ! i = SWaiting w ch"
    and ch: "ch \<in> ss_ready \<sigma>"
  shows "sem_sys_inv (\<sigma>\<lparr>ss_pcs := (ss_pcs \<sigma>)[i := SHolding w]\<rparr>)"
proof -
  note I = sem_sys_invD [OF inv]
  have w: "0 < w" by (rule waiting_positive [OF I(8) i])
  have pe: "sum_pcs (pending (ss_ready \<sigma>)) ((ss_pcs \<sigma>)[i := SHolding w]) =
      sum_pcs (pending (ss_ready \<sigma>)) (ss_pcs \<sigma>)"
    using sum_pcs_update [OF i(1), of "pending (ss_ready \<sigma>)" "SHolding w"] i(2) ch by simp
  note wc = waiting_channel [OF i, of "SHolding w", simplified]
  have "once (sum_pcs channel ((ss_pcs \<sigma>)[i := SHolding w]))"
    and "\<forall>ch \<in># sum_pcs channel ((ss_pcs \<sigma>)[i := SHolding w]). ch < ss_next \<sigma>"
    using I(5,6) by (simp_all add: wc)
  moreover have "\<forall>pc \<in> set ((ss_pcs \<sigma>)[i := SHolding w]). positive pc"
    by (rule positive_update [OF I(8)]) (simp add: w)
  ultimately show ?thesis
    by (intro sem_sys_invI) (simp_all add: pe I(1-4,7) i ch charged_update)
qed

lemma waiting_ready_absent:
  assumes "sem_sys_inv \<sigma>" and "ch \<in> ss_ready \<sigma>"
  shows "remove_waiter ch (sem_waiters (ss_sem \<sigma>)) = sem_waiters (ss_sem \<sigma>)"
proof (rule remove_waiter_absent, rule ballI)
  fix w assume "w \<in> set (sem_waiters (ss_sem \<sigma>))"
  then have "w \<in># sum_pcs (pending (ss_ready \<sigma>)) (ss_pcs \<sigma>)"
    by (simp add: sem_sys_invD(4) [OF assms(1)])
  then show "w_ready w \<noteq> ch" using pending_unready assms(2) by blast
qed

lemma once_waiters:
  assumes "sem_sys_inv \<sigma>"
  shows "once (image_mset w_ready (mset (sem_waiters (ss_sem \<sigma>))))"
  using once_subset [OF sem_sys_invD(5) [OF assms] pending_channels [of "ss_ready \<sigma>"]]
  by (simp only: sem_sys_invD(4) [OF assms])

lemma sem_ok_remove: "sem_ok s \<Longrightarrow> sem_ok (sem_Acquire_cancel ch s)"
  using remove_waiter_subset [of ch "sem_waiters s"]
  by (auto simp: sem_ok_def sem_Acquire_cancel_def)

lemma acquire_done_inv:
  assumes inv: "sem_sys_inv \<sigma>" and i: "i < length (ss_pcs \<sigma>)" "ss_pcs \<sigma> ! i = SWaiting w ch"
  shows "sem_sys_inv (\<sigma>\<lparr>ss_sem := sem_Acquire_cancel ch (ss_sem \<sigma>),
    ss_pcs := (ss_pcs \<sigma>)[i := SIdle],
    ss_lost := ss_lost \<sigma> + (if ch \<in> ss_ready \<sigma> then w else 0)\<rparr>)"
proof -
  note I = sem_sys_invD [OF inv]
  let ?w = "\<lparr>w_weight = w, w_ready = ch\<rparr>" and ?s = "sem_Acquire_cancel ch (ss_sem \<sigma>)"
  have w: "0 < w" by (rule waiting_positive [OF I(8) i])
  have pe: "sum_pcs (pending (ss_ready \<sigma>)) ((ss_pcs \<sigma>)[i := SIdle]) + pending (ss_ready \<sigma>) (SWaiting w ch) =
      mset (sem_waiters (ss_sem \<sigma>))"
    using sum_pcs_update [OF i(1), of "pending (ss_ready \<sigma>)" SIdle] i(2) I(4) by simp
  have pe': "sum_pcs (pending (ss_ready \<sigma>)) ((ss_pcs \<sigma>)[i := SIdle]) = mset (sem_waiters ?s)"
  proof (cases "ch \<in> ss_ready \<sigma>")
    case True
    then show ?thesis using pe by (simp add: sem_Acquire_cancel_def waiting_ready_absent [OF inv])
  next
    case False
    with pe have m: "add_mset ?w (sum_pcs (pending (ss_ready \<sigma>)) ((ss_pcs \<sigma>)[i := SIdle])) =
        mset (sem_waiters (ss_sem \<sigma>))" by simp
    then have "?w \<in> set (sem_waiters (ss_sem \<sigma>))" by (metis set_mset_mset union_single_eq_member)
    from remove_waiter_mset [OF once_waiters [OF inv] this, of ch] m
    show ?thesis by (simp add: sem_Acquire_cancel_def)
  qed
  note wc = waiting_channel [OF i, of SIdle, simplified]
  have ch: "once (sum_pcs channel ((ss_pcs \<sigma>)[i := SIdle]))"
    "\<forall>ch \<in># sum_pcs channel ((ss_pcs \<sigma>)[i := SIdle]). ch < ss_next \<sigma>"
    using I(5,6) by (simp_all add: wc)
  have po: "\<forall>pc \<in> set ((ss_pcs \<sigma>)[i := SIdle]). positive pc"
    by (rule positive_update [OF I(8)]) simp
  have cu: "sem_current ?s = sem_current (ss_sem \<sigma>)" by (simp add: sem_Acquire_cancel_def)
  show ?thesis
    by (rule sem_sys_invI)
      (use ch po w in \<open>simp_all add: pe' cu sem_ok_remove I(1-3,7) i charged_update\<close>)
qed

lemma release_inv:
  assumes inv: "sem_sys_inv \<sigma>" and i: "i < length (ss_pcs \<sigma>)" "ss_pcs \<sigma> ! i = SHolding w"
    and rel: "sem_Release w (ss_sem \<sigma>) = (chs, s)"
  shows "sem_sys_inv (\<sigma>\<lparr>ss_sem := s, ss_ready := ss_ready \<sigma> \<union> set chs, ss_pcs := (ss_pcs \<sigma>)[i := SIdle]\<rparr>)"
proof -
  note I = sem_sys_invD [OF inv]
  let ?R = "ss_ready \<sigma>" and ?pcs = "(ss_pcs \<sigma>)[i := SIdle]" and ?m = "sem_max (ss_sem \<sigma>)"
  have w: "0 < w" using I(8) i by (metis nth_mem positive.simps(1))
  have po: "\<forall>pc \<in> set ?pcs. positive pc" by (rule positive_update [OF I(8)]) simp
  have cu: "sem_current (ss_sem \<sigma>) - w = sum_pcs (charged ?R) ?pcs + ss_lost \<sigma>"
    by (simp add: I(3) i charged_update)
  have "0 \<le> sum_pcs (charged ?R) ?pcs"
    unfolding sum_pcs_def by (rule sum_list_map_nonneg) (use po charged_nonneg in blast)
  then have ge: "0 \<le> sem_current (ss_sem \<sigma>) - w" using cu I(2) by simp
  then have wm: "w \<le> ?m" using I(1) by (simp add: sem_ok_def)
  obtain c stay woken where a:
    "admit ?m (max 0 (sem_current (ss_sem \<sigma>) - w)) (sem_waiters (ss_sem \<sigma>)) = (c, stay, woken)"
    using prod_cases3 by blast
  have s: "s = ss_sem \<sigma>\<lparr>sem_current := c, sem_waiters := stay\<rparr>" and chs: "chs = map w_ready woken"
    using sem_Release_admit [OF I(1) w wm a] rel by simp_all
  have ok: "sem_ok s" using sem_Release_ok [OF I(1) w wm rel] by simp
  have ch: "sum_pcs channel ?pcs = sum_pcs channel (ss_pcs \<sigma>)"
    and pe: "sum_pcs (pending ?R) ?pcs = mset stay + mset woken"
    using sum_pcs_update [OF i(1), of channel SIdle] sum_pcs_update [OF i(1), of "pending ?R" SIdle]
      i(2) I(4) admit_mset [OF a] by simp_all
  have "once (image_mset w_ready (mset stay + mset woken))"
    using once_waiters [OF inv] by (simp only: admit_mset [OF a])
  note split = filter_once [OF this, unfolded set_mset_mset]
  have K: "set chs = w_ready ` set woken" by (simp add: chs)
  have "sum_pcs (charged (?R \<union> set chs)) ?pcs = sum_pcs (charged ?R) ?pcs + sum_list (map w_weight woken)"
    by (simp only: charged_close pe K split mset_map [symmetric] sum_mset_sum_list)
  then have c: "c = sum_pcs (charged (?R \<union> set chs)) ?pcs + ss_lost \<sigma>"
    using admit_sum [OF a] cu ge by simp
  have pe': "sum_pcs (pending (?R \<union> set chs)) ?pcs = mset stay"
    by (simp only: pending_close pe K split)
  have "w_ready v < ss_next \<sigma>" if "v \<in> set woken" for v
  proof -
    have "v \<in># sum_pcs (pending ?R) (ss_pcs \<sigma>)" using that by (simp add: I(4) admit_mset [OF a])
    then have "w_ready v \<in># image_mset w_ready (sum_pcs (pending ?R) (ss_pcs \<sigma>))" by (simp only: set_image_mset imageI)
    then show ?thesis using I(6) mset_subset_eqD [OF pending_channels] by blast
  qed
  then have R: "\<forall>ch \<in> ?R \<union> set chs. ch < ss_next \<sigma>" using I(7) by (auto simp: chs)
  show ?thesis
    by (rule sem_sys_invI) (use ok R po c in \<open>simp_all add: s ch pe' I(2,5,6)\<close>)
qed

lemma sem_step_inv: "sem_step \<sigma> \<tau> \<Longrightarrow> sem_sys_inv \<sigma> \<Longrightarrow> sem_sys_inv \<tau>"
  by (induction rule: sem_step.induct)
    (simp_all only: acquire_now_inv acquire_wait_inv acquire_ready_inv acquire_done_inv
      try_acquire_inv release_inv)

lemma sum_pcs_replicate_idle: "f SIdle = 0 \<Longrightarrow> sum_pcs f (replicate n SIdle) = 0"
  by (induction n) simp_all

lemma sem_init_inv: "m < 2 ^ 62 \<Longrightarrow> sem_sys_inv (sem_init m n)"
  by (rule sem_sys_invI)
    (auto simp: sem_init_def sem_New_ok sum_pcs_replicate_idle, simp_all add: sem_New_def)

lemma notify_loop_max: "sem_max (snd (notify_loop i closed s)) = sem_max s"
proof (induction i closed s rule: notify_loop.induct)
  case (1 i closed s)
  then show ?case by (subst notify_loop.simps) (simp add: Let_def)
qed

lemma sem_Release_max: "sem_Release w s = (chs, s') \<Longrightarrow> sem_max s' = sem_max s"
  using notify_loop_max [of 0 "[]"]
  by (auto simp: sem_Release_def sem_notifyWaiters_def Let_def split: if_splits) (metis snd_conv semaphore.select_convs(1) semaphore.surjective semaphore.update_convs(2))+

lemma sem_step_max: "sem_step \<sigma> \<tau> \<Longrightarrow> sem_max (ss_sem \<tau>) = sem_max (ss_sem \<sigma>)"
  by (induction rule: sem_step.induct)
    (auto simp: sem_Acquire_enter_def sem_TryAcquire_def sem_Acquire_cancel_def
      dest: sem_Release_max split: if_splits)

lemma sem_step_lost:
  "sem_step \<sigma> \<tau> \<Longrightarrow> sem_sys_inv \<sigma> \<Longrightarrow> ss_lost \<sigma> \<le> ss_lost \<tau>"
proof (induction rule: sem_step.induct)
  case (acquire_done i \<sigma> w ch)
  then have "0 < w" using waiting_positive [OF sem_sys_invD(8)] by blast
  then show ?case by simp
qed simp_all

text \<open>A queue of waiters is never left behind with nothing charged.\<close>

definition sem_live :: "semaphore \<Rightarrow> bool" where
  "sem_live s \<longleftrightarrow> sem_waiters s = [] \<or> 0 < sem_current s"

lemma enter_live:
  assumes "sem_ok s" and "sem_live s" and "0 < w" and "sem_Acquire_enter w ch s = (r, s')"
  shows "sem_live s'"
proof (cases "w > sem_max s")
  case False
  then have "sem_fits s w \<longleftrightarrow> sem_current s + w \<le> sem_max s"
    and "wrap64 (sem_current s + w) = sem_current s + w"
    using assms(1,3) by (simp_all add: sem_fits_iff sem_ok_add)
  then show ?thesis
    using assms False by (auto simp: sem_Acquire_enter_def sem_live_def sem_ok_def split: if_splits)
qed (use assms in \<open>auto simp: sem_Acquire_enter_def sem_live_def split: if_splits\<close>)

lemma try_live: "sem_live s \<Longrightarrow> sem_ok s \<Longrightarrow> sem_TryAcquire w s = (b, s') \<Longrightarrow> sem_live s'"
  by (auto simp: sem_TryAcquire_def sem_live_def split: if_splits)

lemma cancel_live: "sem_live s \<Longrightarrow> sem_live (sem_Acquire_cancel ch s)"
  by (auto simp: sem_live_def sem_Acquire_cancel_def)

lemma release_live:
  assumes "sem_ok s" and "0 < w" and "w \<le> sem_max s" and "sem_Release w s = (chs, s')"
  shows "sem_live s'"
proof (cases "sem_waiters s'")
  case (Cons v vs)
  then have "sem_max s < sem_current s' + w_weight v" "w_weight v \<le> sem_max s"
    using sem_Release_ok [OF assms] by (auto simp: sem_ok_def)
  then show ?thesis by (simp add: sem_live_def)
qed (simp add: sem_live_def)

lemma holder_weight:
  assumes "sem_sys_inv \<sigma>" and "i < length (ss_pcs \<sigma>)" and "ss_pcs \<sigma> ! i = SHolding w"
  shows "0 < w \<and> w \<le> sem_max (ss_sem \<sigma>)"
proof -
  note I = sem_sys_invD [OF assms(1)]
  have "charged (ss_ready \<sigma>) (SHolding w) \<le> sum_pcs (charged (ss_ready \<sigma>)) (ss_pcs \<sigma>)"
    unfolding sum_pcs_def
    by (rule member_le_sum_list_map) (use I(8) charged_nonneg assms in \<open>auto simp: in_set_conv_nth\<close>)
  moreover have "0 < w" using I(8) assms by (metis nth_mem positive.simps(1))
  ultimately show ?thesis using I(1-3) by (simp add: sem_ok_def)
qed

definition sem_sys_good :: "sem_sys \<Rightarrow> bool" where
  "sem_sys_good \<sigma> \<longleftrightarrow> sem_sys_inv \<sigma> \<and> sem_live (ss_sem \<sigma>)"

lemma sem_step_good: "sem_step \<sigma> \<tau> \<Longrightarrow> sem_sys_good \<sigma> \<Longrightarrow> sem_sys_good \<tau>"
proof -
  assume st: "sem_step \<sigma> \<tau>" and "sem_sys_good \<sigma>"
  then have inv: "sem_sys_inv \<sigma>" and "sem_live (ss_sem \<sigma>)" by (simp_all add: sem_sys_good_def)
  note ok = sem_sys_invD(1) [OF inv]
  have "sem_live (ss_sem \<tau>)"
    using st \<open>sem_live (ss_sem \<sigma>)\<close> ok inv
  proof (induction rule: sem_step.induct)
    case (acquire_now i \<sigma> w s)
    then show ?case by (simp add: enter_live)
  next
    case (acquire_wait i \<sigma> w s)
    then show ?case by (simp add: enter_live)
  next
    case (try_acquire i \<sigma> w s)
    then show ?case using try_live by simp
  next
    case (release i \<sigma> w chs s)
    then have "0 < w" "w \<le> sem_max (ss_sem \<sigma>)" using holder_weight by blast+
    with release show ?case using release_live [OF release.prems(2)] by simp
  qed (simp_all add: cancel_live)
  with sem_step_inv [OF st inv] show "sem_sys_good \<tau>" by (simp add: sem_sys_good_def)
qed

lemma sem_start_good: "sem_start \<sigma> \<Longrightarrow> sem_sys_good \<sigma>"
  by (auto simp: sem_start_def sem_sys_good_def sem_init_inv)
    (simp add: sem_init_def sem_New_def sem_live_def)

interpretation sem: inductive_invariant sem_start sem_step sem_sys_good
  by unfold_locales (rule sem_start_good, assumption, rule sem_step_good, assumption+)

lemma sem_steps_lost:
  "sem_step\<^sup>*\<^sup>* \<sigma> \<tau> \<Longrightarrow> sem_sys_good \<sigma> \<Longrightarrow>
     ss_lost \<sigma> \<le> ss_lost \<tau> \<and> sem_max (ss_sem \<tau>) = sem_max (ss_sem \<sigma>) \<and> sem_sys_good \<tau>"
proof (induction rule: rtranclp_induct)
  case (step \<tau> \<upsilon>)
  then show ?case
    using sem_step_lost [OF step.hyps(2)] sem_step_max [OF step.hyps(2)] sem_step_good [OF step.hyps(2)]
    by (auto simp: sem_sys_good_def)
qed simp

subsection \<open>Properties\<close>

text \<open>
  C2. In every reachable state of any number of goroutines, however their acquisitions,
  cancellations and releases interleave, the weight held together is at most the current
  value, which is at most the capacity; and the current value is exactly the weight
  charged to goroutines plus the weight lost to cancelled waiters that were already woken.
\<close>

theorem sem_never_oversubscribed:
  assumes "sem_reach \<sigma>"
  shows "sum_pcs held (ss_pcs \<sigma>) \<le> sem_Current (ss_sem \<sigma>) \<and>
    sem_Current (ss_sem \<sigma>) \<le> sem_max (ss_sem \<sigma>) \<and>
    sem_Current (ss_sem \<sigma>) = sum_pcs (charged (ss_ready \<sigma>)) (ss_pcs \<sigma>) + ss_lost \<sigma> \<and>
    0 \<le> ss_lost \<sigma>"
proof -
  have "sem_sys_inv \<sigma>" using sem.reach_inv [OF assms] by (simp add: sem_sys_good_def)
  note I = sem_sys_invD [OF this]
  show ?thesis
    using I(1-3) total_held_le_charged [OF I(8), of "ss_ready \<sigma>"]
    by (simp add: sem_Current_def sem_ok_def)
qed

text \<open>A goroutine that has acquired 2 of 3.\<close>

lemma sem_start_init: "m < 2 ^ 62 \<Longrightarrow> sem_reach (sem_init m n)"
  by (rule reach_init) (auto simp: sem_start_def)

abbreviation sem_holding :: sem_sys where
  "sem_holding \<equiv> \<lparr>ss_sem = \<lparr>sem_max = 3, sem_current = 2, sem_waiters = []\<rparr>, ss_ready = {}, ss_next = 0,
     ss_pcs = [SHolding 2, SIdle], ss_lost = 0\<rparr>"

lemma sem_reach_holding: "sem_reach sem_holding"
proof -
  have "wrap64 2 = 2" by (simp add: go_defs)
  then have "sem_step (sem_init 3 2) sem_holding"
    using sem_step.acquire_now [of 0 "sem_init 3 2" 2 "\<lparr>sem_max = 3, sem_current = 2, sem_waiters = []\<rparr>"]
    by (simp add: sem_init_def sem_New_def sem_Acquire_enter_def sem_fits_def numeral_2_eq_2)
  with sem_start_init [of 3 2] show ?thesis by (auto intro: reach_step)
qed

theorem sem_never_oversubscribed_witness:
  "sum_pcs held [SHolding 2, SIdle] \<le> 2 \<and> (2::int) \<le> 3"
  using sem_never_oversubscribed [OF sem_reach_holding] by (simp add: sem_Current_def)

text \<open>
  C8. No stall: in every reachable state in which no weight was lost to a cancelled waiter
  and some goroutine waits, some goroutine holds weight (and will release it) or has been
  woken (and can run).
\<close>

theorem sem_waiting_has_holder:
  assumes "sem_reach \<sigma>" and "ss_lost \<sigma> = 0" and "SWaiting w ch \<in> set (ss_pcs \<sigma>)"
  shows "\<exists>pc \<in> set (ss_pcs \<sigma>). 0 < charged (ss_ready \<sigma>) pc"
proof (rule ccontr)
  assume none: "\<not> (\<exists>pc \<in> set (ss_pcs \<sigma>). 0 < charged (ss_ready \<sigma>) pc)"
  have good: "sem_sys_inv \<sigma>" "sem_live (ss_sem \<sigma>)"
    using sem.reach_inv [OF assms(1)] by (simp_all add: sem_sys_good_def)
  note I = sem_sys_invD [OF good(1)]
  have "sum_pcs (charged (ss_ready \<sigma>)) (ss_pcs \<sigma>) \<le> 0"
    unfolding sum_pcs_def by (rule sum_list_nonpos) (use none in force)
  then have "sem_waiters (ss_sem \<sigma>) = []"
    using good(2) I(3) assms(2) by (simp add: sem_live_def)
  then have empty: "sum_pcs (pending (ss_ready \<sigma>)) (ss_pcs \<sigma>) = {#}" using I(4) by simp
  obtain i where i: "i < length (ss_pcs \<sigma>)" "ss_pcs \<sigma> ! i = SWaiting w ch"
    using assms(3) by (auto simp: in_set_conv_nth)
  have "0 < w" by (rule waiting_positive [OF I(8) i])
  with none assms(3) have "ch \<notin> ss_ready \<sigma>" by force
  then show False
    using sum_pcs_update [OF i(1), of "pending (ss_ready \<sigma>)" SIdle] i(2) empty by simp
qed

text \<open>A goroutine that waits for 2 while another holds 2 of 3.\<close>

abbreviation sem_waiting :: sem_sys where
  "sem_waiting \<equiv> \<lparr>ss_sem = \<lparr>sem_max = 3, sem_current = 2, sem_waiters = [\<lparr>w_weight = 2, w_ready = 0\<rparr>]\<rparr>,
     ss_ready = {}, ss_next = 1, ss_pcs = [SHolding 2, SWaiting 2 0], ss_lost = 0\<rparr>"

lemma sem_reach_waiting: "sem_reach sem_waiting"
proof -
  have "wrap64 4 = 4" by (simp add: go_defs)
  then have "sem_step sem_holding sem_waiting"
    using sem_step.acquire_wait [of 1 sem_holding 2
        "\<lparr>sem_max = 3, sem_current = 2, sem_waiters = [\<lparr>w_weight = 2, w_ready = 0\<rparr>]\<rparr>"]
    by (simp add: sem_Acquire_enter_def sem_fits_def)
  with sem_reach_holding show ?thesis by (rule reach_step)
qed

theorem sem_waiting_has_holder_witness:
  "\<exists>pc \<in> set [SHolding 2, SWaiting 2 0]. 0 < charged {} pc"
  using sem_waiting_has_holder [OF sem_reach_waiting, of 2 0] by simp

text \<open>
  C15. A \<open>Release\<close> of a weight lowers the current value by it (to 0 where more is released
  than is held: the code clamps and does not panic as README.md says) and then goes through
  the waiters from the front of the queue to its back. A waiter is woken exactly if its
  weight still fits beside what is held and what the waiters woken before it were given.
  The channels are closed in queue order, the waiters left keep their order, the weights
  given are charged, and no waiter that is left behind would fit.
\<close>

theorem sem_Release_wakes_all_that_fit:
  assumes "sem_ok s" and "0 < w" and "w \<le> sem_max s" and "sem_Release w s = (chs, s')"
  shows "\<exists>sel. length sel = length (sem_waiters s) \<and>
    (\<forall>i<length (sem_waiters s). sel ! i \<longleftrightarrow>
       max 0 (sem_current s - w) + sum_list (map w_weight (picked (take i sel) (take i (sem_waiters s)))) +
         w_weight (sem_waiters s ! i) \<le> sem_max s) \<and>
    chs = map w_ready (picked sel (sem_waiters s)) \<and>
    sem_waiters s' = picked (map Not sel) (sem_waiters s) \<and>
    sem_current s' = max 0 (sem_current s - w) + sum_list (map w_weight (picked sel (sem_waiters s))) \<and>
    sem_current s' \<le> sem_max s \<and>
    (\<forall>v \<in> set (sem_waiters s'). sem_max s < sem_current s' + w_weight v)"
proof -
  obtain c stay woken where a:
    "admit (sem_max s) (max 0 (sem_current s - w)) (sem_waiters s) = (c, stay, woken)"
    using prod_cases3 by blast
  have r: "chs = map w_ready woken" "s' = s\<lparr>sem_current := c, sem_waiters := stay\<rparr>"
    using sem_Release_admit [OF assms(1-3) a] assms(4) by simp_all
  from admit_mask [OF a] obtain sel where
    "length sel = length (sem_waiters s) \<and> woken = picked sel (sem_waiters s) \<and>
     stay = picked (map Not sel) (sem_waiters s) \<and>
     (\<forall>i<length (sem_waiters s). sel ! i \<longleftrightarrow>
       max 0 (sem_current s - w) + sum_list (map w_weight (picked (take i sel) (take i (sem_waiters s)))) +
         w_weight (sem_waiters s ! i) \<le> sem_max s)" by blast
  then show ?thesis
    using r admit_sum [OF a] sem_Release_ok [OF assms]
    by (intro exI [of _ sel]) (simp add: sem_ok_def)
qed

theorem sem_Release_wakes_all_that_fit_witness:
  "sem_Release 3 \<lparr>sem_max = 4, sem_current = 4, sem_waiters =
       [\<lparr>w_weight = 4, w_ready = 0\<rparr>, \<lparr>w_weight = 2, w_ready = 1\<rparr>, \<lparr>w_weight = 1, w_ready = 2\<rparr>]\<rparr> =
     ([1, 2], \<lparr>sem_max = 4, sem_current = 4, sem_waiters = [\<lparr>w_weight = 4, w_ready = 0\<rparr>]\<rparr>) \<and>
   (\<exists>sel. length sel = 3 \<and> [1, 2] = map w_ready (picked sel
       [\<lparr>w_weight = 4, w_ready = 0\<rparr>, \<lparr>w_weight = 2, w_ready = 1\<rparr>, \<lparr>w_weight = 1, w_ready = 2\<rparr>]))"
proof -
  let ?ws = "[\<lparr>w_weight = 4, w_ready = 0\<rparr>, \<lparr>w_weight = 2, w_ready = 1\<rparr>, \<lparr>w_weight = 1, w_ready = 2\<rparr>]"
  let ?s = "\<lparr>sem_max = 4, sem_current = 4, sem_waiters = ?ws\<rparr>"
  let ?t = "\<lparr>sem_max = 4, sem_current = 4, sem_waiters = [\<lparr>w_weight = 4, w_ready = 0\<rparr>]\<rparr>"
  have ok: "sem_ok ?s" by (simp add: sem_ok_def)
  have rel: "sem_Release 3 ?s = ([1, 2], ?t)"
    using sem_Release_admit [OF ok, of 3 4 "[\<lparr>w_weight = 4, w_ready = 0\<rparr>]"
        "[\<lparr>w_weight = 2, w_ready = 1\<rparr>, \<lparr>w_weight = 1, w_ready = 2\<rparr>]"] by simp
  have "(0::int) < 3" and "3 \<le> sem_max ?s" by simp_all
  from sem_Release_wakes_all_that_fit [OF ok this rel]
  obtain sel where "length sel = length (sem_waiters ?s)"
    and "[1, 2] = map w_ready (picked sel (sem_waiters ?s))" by (elim exE conjE)
  then have "length sel = 3 \<and> [1, 2] = map w_ready (picked sel ?ws)" by simp
  then show ?thesis by (intro conjI exI [of _ sel] rel) simp_all
qed

lemma sem_exhausted_forever:
  assumes "sem_sys_good \<sigma>" and "ss_lost \<sigma> = sem_max (ss_sem \<sigma>)" and "sem_step\<^sup>*\<^sup>* \<sigma> \<tau>"
    and "pc \<in> set (ss_pcs \<tau>)"
  shows "held pc \<le> 0"
proof -
  have \<tau>: "ss_lost \<sigma> \<le> ss_lost \<tau>" "sem_max (ss_sem \<tau>) = sem_max (ss_sem \<sigma>)" "sem_sys_inv \<tau>"
    using sem_steps_lost [OF assms(3,1)] by (simp_all add: sem_sys_good_def)
  note I = sem_sys_invD [OF \<tau>(3)]
  have "held pc \<le> charged (ss_ready \<tau>) pc" using I(8) assms(4) held_le_charged by blast
  also have "\<dots> \<le> sum_pcs (charged (ss_ready \<tau>)) (ss_pcs \<tau>)"
    unfolding sum_pcs_def
    by (rule member_le_sum_list_map) (use I(8) charged_nonneg assms(4) in auto)
  also have "\<dots> \<le> 0" using I(1,3) \<tau>(1,2) assms(2) by (simp add: sem_ok_def)
  finally show ?thesis .
qed

abbreviation sem_dead :: sem_sys where
  "sem_dead \<equiv> \<lparr>ss_sem = \<lparr>sem_max = 1, sem_current = 1, sem_waiters = []\<rparr>, ss_ready = {0}, ss_next = 1,
     ss_pcs = [SIdle, SIdle], ss_lost = 1\<rparr>"

lemma sem_reach_dead: "sem_reach sem_dead"
proof -
  let ?w = "\<lparr>w_weight = 1, w_ready = 0\<rparr>"
  let ?s = "\<lambda>ws. \<lparr>sem_max = 1, sem_current = 1, sem_waiters = ws\<rparr>"
  let ?\<sigma>0 = "sem_init 1 2"
  let ?\<sigma>1 = "\<lparr>ss_sem = ?s [], ss_ready = {}, ss_next = 0, ss_pcs = [SHolding 1, SIdle], ss_lost = 0\<rparr>"
  let ?\<sigma>2 = "\<lparr>ss_sem = ?s [?w], ss_ready = {}, ss_next = 1, ss_pcs = [SHolding 1, SWaiting 1 0], ss_lost = 0\<rparr>"
  let ?\<sigma>3 = "\<lparr>ss_sem = ?s [], ss_ready = {0}, ss_next = 1, ss_pcs = [SIdle, SWaiting 1 0], ss_lost = 0\<rparr>"
  have w2: "wrap64 2 = 2" by (simp add: go_defs)
  have "sem_reach ?\<sigma>0" by (rule sem_start_init) simp
  moreover have "sem_step ?\<sigma>0 ?\<sigma>1"
    using sem_step.acquire_now [of 0 ?\<sigma>0 1 "?s []"]
    by (simp add: sem_init_def sem_New_def sem_Acquire_enter_def sem_fits_def numeral_2_eq_2)
  moreover have "sem_step ?\<sigma>1 ?\<sigma>2"
    using sem_step.acquire_wait [of 1 ?\<sigma>1 1 "?s [?w]"]
    by (simp add: sem_Acquire_enter_def sem_fits_def w2)
  moreover have "sem_Release 1 (?s [?w]) = ([0], ?s [])"
    using sem_Release_admit [of "?s [?w]" 1 1 "[]" "[?w]"] by (simp add: sem_ok_def)
  then have "sem_step ?\<sigma>2 ?\<sigma>3"
    using sem_step.release [of 0 ?\<sigma>2 1 "[0]" "?s []"] by simp
  moreover have "sem_step ?\<sigma>3 sem_dead"
    using sem_step.acquire_done [of 1 ?\<sigma>3 1 0] by (simp add: sem_Acquire_cancel_def)
  ultimately show ?thesis by (blast intro: reach_step)
qed

text \<open>
  C6. The race in \<open>Acquire\<close>: a waiter that has been woken and whose context is done may take
  the second branch of its select, which returns the context's error without giving the
  charged weight back. There is a reachable state with every goroutine idle from which no
  goroutine can ever hold the semaphore again.
\<close>

theorem sem_cancelled_wakeup_loses_weight:
  "\<exists>\<sigma>. sem_reach \<sigma> \<and> set (ss_pcs \<sigma>) = {SIdle} \<and> sem_waiters (ss_sem \<sigma>) = [] \<and>
     sem_Available (ss_sem \<sigma>) = 0 \<and>
     \<not> (\<exists>\<tau> pc. sem_step\<^sup>*\<^sup>* \<sigma> \<tau> \<and> pc \<in> set (ss_pcs \<tau>) \<and> 0 < held pc)"
proof (intro exI conjI)
  show "sem_reach sem_dead" by (rule sem_reach_dead)
  from sem_exhausted_forever [OF sem.reach_inv [OF this]]
  show "\<not> (\<exists>\<tau> pc. sem_step\<^sup>*\<^sup>* sem_dead \<tau> \<and> pc \<in> set (ss_pcs \<tau>) \<and> 0 < held pc)"
    by (auto simp: not_less dest!: leD)
qed (simp_all add: sem_Available_def)

text \<open>
  The bound on the capacity is needed: with a capacity of the largest \<open>int64\<close> the sum
  of the current value and the weight wraps, so a second acquisition succeeds when nothing
  is available, and the current value becomes negative.
\<close>

theorem sem_TryAcquire_overflow:
  "sem_TryAcquire max_i64 (sem_New max_i64) = (True, (sem_New max_i64)\<lparr>sem_current := max_i64\<rparr>) \<and>
   sem_Available ((sem_New max_i64)\<lparr>sem_current := max_i64\<rparr>) = 0 \<and>
   sem_TryAcquire 1 ((sem_New max_i64)\<lparr>sem_current := max_i64\<rparr>) =
     (True, (sem_New max_i64)\<lparr>sem_current := min_i64\<rparr>)"
  by (simp add: sem_TryAcquire_def sem_New_def sem_fits_def sem_Available_def go_defs)

end
