(* ===== verification/Permit_Pool.thy ===== *)
theory Permit_Pool
  imports Go_Prelude
begin

section \<open>The contract of a pool of permits\<close>

text \<open>
  Two components bound the number of callers inside a section by taking a permit before and
  giving it back after: the HTTP middleware (a semaphore of weight 1 per request) and the
  bulkhead (a buffered channel of permits). What they rely on is this interface: a take
  that does not wait, a give, and the laws of the number of free permits. The client's
  callers enter and leave in any order; they observe a bounded counter.
\<close>

datatype permit_event = Enter | Leave

text \<open>
  The client: an entry takes a permit or is turned away, a leave gives the permit of one of
  the callers inside back (there is no leave when nobody is inside). The second component
  counts the callers inside.
\<close>

fun guard_call :: "('s \<Rightarrow> 's option) \<Rightarrow> ('s \<Rightarrow> 's) \<Rightarrow> permit_event \<Rightarrow> 's \<times> nat \<Rightarrow> bool \<times> ('s \<times> nat)" where
  "guard_call acq give Enter (s, n) =
     (case acq s of None \<Rightarrow> (False, (s, n)) | Some s' \<Rightarrow> (True, (s', Suc n)))"
| "guard_call acq give Leave (s, n) =
     (if n = 0 then (False, (s, n)) else (True, (give s, n - 1)))"

fun counter_call :: "nat \<Rightarrow> permit_event \<Rightarrow> nat \<Rightarrow> bool \<times> nat" where
  "counter_call cap Enter n = (if n < cap then (True, Suc n) else (False, n))"
| "counter_call cap Leave n = (if n = 0 then (False, n) else (True, n - 1))"

locale permit_pool =
  fixes acq :: "'s \<Rightarrow> 's option" and give :: "'s \<Rightarrow> 's"
    and free :: "'s \<Rightarrow> nat" and cap :: "'s \<Rightarrow> nat" and inv :: "'s \<Rightarrow> bool"
  assumes acq_free: "inv s \<Longrightarrow> 0 < free s \<Longrightarrow>
      \<exists>s'. acq s = Some s' \<and> inv s' \<and> free s' = free s - 1 \<and> cap s' = cap s"
    and acq_none: "inv s \<Longrightarrow> free s = 0 \<Longrightarrow> acq s = None"
    and give_free: "inv s \<Longrightarrow> free s < cap s \<Longrightarrow>
      inv (give s) \<and> free (give s) = free s + 1 \<and> cap (give s) = cap s"
begin

definition balanced :: "'s \<times> nat \<Rightarrow> bool" where
  "balanced x \<longleftrightarrow> inv (fst x) \<and> free (fst x) + snd x = cap (fst x)"

lemma call_counts:
  assumes "balanced (s, n)" and "guard_call acq give e (s, n) = (b, s', n')"
  shows "balanced (s', n') \<and> cap s' = cap s \<and> counter_call (cap s) e n = (b, n')"
proof (cases e)
  case Enter
  show ?thesis
  proof (cases "free s = 0")
    case True
    then show ?thesis using assms Enter acq_none [of s] by (auto simp: balanced_def)
  next
    case False
    then obtain t where "acq s = Some t" "inv t" "free t = free s - 1" "cap t = cap s"
      using acq_free [of s] assms(1) by (auto simp: balanced_def)
    then show ?thesis using assms Enter False by (auto simp: balanced_def)
  qed
next
  case Leave
  then show ?thesis
    using assms give_free [of s] by (auto simp: balanced_def split: if_splits)
qed

lemma run_counts:
  "balanced (s, n) \<Longrightarrow> run_ops (guard_call acq give) es (s, n) = (bs, s', n') \<Longrightarrow>
     balanced (s', n') \<and> cap s' = cap s \<and> run_ops (counter_call (cap s)) es n = (bs, n')"
proof (induction es arbitrary: s n bs)
  case (Cons e es)
  obtain b s1 n1 where e: "guard_call acq give e (s, n) = (b, s1, n1)" using prod_cases3 by blast
  obtain bs' where es: "run_ops (guard_call acq give) es (s1, n1) = (bs', s', n')" and "bs = b # bs'"
    using Cons.prems(2) e by (auto split: prod.splits)
  have "balanced (s1, n1)" "cap s1 = cap s" "counter_call (cap s) e n = (b, n1)"
    using call_counts [OF Cons.prems(1) e] by simp_all
  with Cons.IH [OF _ es] \<open>bs = b # bs'\<close> show ?case by simp
qed simp

lemma run_bounded:
  "balanced (s, n) \<Longrightarrow> run_ops (guard_call acq give) es (s, n) = (bs, s', n') \<Longrightarrow> n' \<le> cap s"
  using run_counts [of s n es bs s' n'] by (auto simp: balanced_def)

end

end
