(* ===== verification/Bulkhead.thy ===== *)
theory Bulkhead
  imports Permit_Pool
begin

section \<open>The bulkhead (\<open>pkg/bulkhead/bulkhead.go\<close>)\<close>

text \<open>
  The bulkhead is a buffered channel filled with permits. \<open>Execute\<close> selects between a
  receive from the channel, the context and a timer; a caller that received runs the
  function and sends the permit back in a deferred call, so also when the function panics.
  The choice of the select is an argument of the model. The channel's content carries no
  data, so it is a number; a send on a full channel would block and a receive on an empty
  one does.
\<close>

record bh_config =
  MaxConcurrent :: i64
  QueueSize :: i64
  bh_Timeout :: duration

record bulkhead =
  bh_permits :: nat
  bh_size :: nat
  bh_cfg :: bh_config

definition bh_normalize :: "bh_config \<Rightarrow> bh_config" where
  "bh_normalize cfg =
     (let cfg = (if MaxConcurrent cfg \<le> 0 then cfg\<lparr>MaxConcurrent := 10\<rparr> else cfg);
          cfg = (if QueueSize cfg \<le> 0 then cfg\<lparr>QueueSize := 100\<rparr> else cfg)
      in if bh_Timeout cfg \<le> 0 then cfg\<lparr>bh_Timeout := 30 * second\<rparr> else cfg)"

text \<open>A send on the channel, \<^const>\<open>None\<close> where it would block; the loop that fills it.\<close>

definition bh_send :: "bulkhead \<Rightarrow> bulkhead option" where
  "bh_send b = (if bh_permits b < bh_size b then Some (b\<lparr>bh_permits := Suc (bh_permits b)\<rparr>) else None)"

definition bh_receive :: "bulkhead \<Rightarrow> bulkhead option" where
  "bh_receive b = (case bh_permits b of 0 \<Rightarrow> None | Suc n \<Rightarrow> Some (b\<lparr>bh_permits := n\<rparr>))"

fun bh_fill :: "nat \<Rightarrow> bulkhead \<Rightarrow> bulkhead option" where
  "bh_fill 0 b = Some b"
| "bh_fill (Suc k) b = (case bh_send b of None \<Rightarrow> None | Some b' \<Rightarrow> bh_fill k b')"

definition bh_New :: "bh_config \<Rightarrow> bulkhead option" where
  "bh_New cfg =
     (let c = bh_normalize cfg; n = nat (MaxConcurrent c)
      in bh_fill n \<lparr>bh_permits = 0, bh_size = n, bh_cfg = c\<rparr>)"

datatype bh_choice = Permit | CtxDone | TimedOut

datatype 'e bh_error = BhFn 'e | BhCtx | BhTimeout duration

text \<open>
  \<open>Execute\<close> in two parts: the select, which either admits the caller or returns, and the
  deferred send that runs when the function is left.
\<close>

datatype 'e bh_entry = Admitted bulkhead | Returned "'e bh_error" | Blocked

definition bh_Execute_enter :: "bh_choice \<Rightarrow> bulkhead \<Rightarrow> 'e bh_entry" where
  "bh_Execute_enter ch b =
     (case ch of
        Permit \<Rightarrow> (case bh_receive b of None \<Rightarrow> Blocked | Some b' \<Rightarrow> Admitted b')
      | CtxDone \<Rightarrow> Returned BhCtx
      | TimedOut \<Rightarrow> Returned (BhTimeout (bh_Timeout (bh_cfg b))))"

definition bh_Execute_leave :: "bulkhead \<Rightarrow> bulkhead option" where
  "bh_Execute_leave b = bh_send b"

text \<open>One whole call, for a function with the given outcome; \<^const>\<open>None\<close> while it blocks.\<close>

definition bh_Execute :: "bh_choice \<Rightarrow> 'e outcome \<Rightarrow> bulkhead \<Rightarrow> ('e bh_error outcome \<times> bulkhead) option" where
  "bh_Execute ch fn b =
     (case bh_Execute_enter ch b of
        Blocked \<Rightarrow> None
      | Returned e \<Rightarrow> Some (Err e, b)
      | Admitted b' \<Rightarrow> map_option (\<lambda>b''. (map_outcome BhFn fn, b'')) (bh_Execute_leave b'))"

record bh_stats =
  st_MaxConcurrent :: i64
  st_AvailablePermit :: i64
  st_QueueSize :: i64

definition bh_GetStats :: "bulkhead \<Rightarrow> bh_stats" where
  "bh_GetStats b = \<lparr>st_MaxConcurrent = MaxConcurrent (bh_cfg b),
     st_AvailablePermit = int (bh_permits b), st_QueueSize = QueueSize (bh_cfg b)\<rparr>"

subsection \<open>A new bulkhead\<close>

lemma bh_fill_correct:
  "bh_permits b + k \<le> bh_size b \<Longrightarrow> bh_fill k b = Some (b\<lparr>bh_permits := bh_permits b + k\<rparr>)"
  by (induction k arbitrary: b) (simp_all add: bh_send_def)

lemma bh_normalize_positive: "0 < MaxConcurrent (bh_normalize cfg)"
  by (simp add: bh_normalize_def Let_def)

lemma bh_New_Some:
  "bh_New cfg = Some \<lparr>bh_permits = nat (MaxConcurrent (bh_normalize cfg)),
     bh_size = nat (MaxConcurrent (bh_normalize cfg)), bh_cfg = bh_normalize cfg\<rparr>"
  by (simp add: bh_New_def Let_def bh_fill_correct)

subsection \<open>The channel is a pool of permits\<close>

text \<open>
  The admission of a caller that waits for nothing but a permit, and the return of the
  permit (by the invariant the send never blocks).
\<close>

definition bh_take :: "bulkhead \<Rightarrow> bulkhead option" where
  "bh_take b = (case bh_Execute_enter Permit b :: unit bh_entry of Admitted b' \<Rightarrow> Some b' | _ \<Rightarrow> None)"

definition bh_give :: "bulkhead \<Rightarrow> bulkhead" where
  "bh_give b = (case bh_Execute_leave b of None \<Rightarrow> b | Some b' \<Rightarrow> b')"

lemmas bh_defs = bh_take_def bh_give_def bh_Execute_enter_def bh_Execute_leave_def bh_send_def bh_receive_def

interpretation bh: permit_pool bh_take bh_give bh_permits bh_size "\<lambda>b. bh_permits b \<le> bh_size b"
  by unfold_locales (auto simp: bh_defs split: nat.splits)

lemma bh_New_balanced: "bh_New cfg = Some b \<Longrightarrow> bh.balanced (b, 0) \<and> int (bh_size b) = MaxConcurrent (bh_normalize cfg)"
  using bh_normalize_positive [of cfg] by (auto simp: bh_New_Some bh.balanced_def)

subsection \<open>Properties\<close>

text \<open>
  C21. Whatever the order in which callers enter and leave a new bulkhead, they are admitted
  and turned away exactly as by a counter bounded by the (normalised) \<open>MaxConcurrent\<close>, at
  most that many are inside together, and the permits left are the rest.
\<close>

theorem bh_bounded_counter:
  assumes "bh_New cfg = Some b" and "run_ops (guard_call bh_take bh_give) es (b, 0) = (bs, b', n)"
  shows "run_ops (counter_call (nat (MaxConcurrent (bh_normalize cfg)))) es 0 = (bs, n) \<and>
    int n \<le> MaxConcurrent (bh_normalize cfg) \<and>
    st_AvailablePermit (bh_GetStats b') = MaxConcurrent (bh_normalize cfg) - int n"
proof -
  have b: "bh.balanced (b, 0)" "int (bh_size b) = MaxConcurrent (bh_normalize cfg)"
    using bh_New_balanced [OF assms(1)] by simp_all
  have "nat (MaxConcurrent (bh_normalize cfg)) = bh_size b" by (simp only: b(2) [symmetric] nat_int)
  with bh.run_counts [OF b(1) assms(2)] b(2) show ?thesis
    by (auto simp: bh.balanced_def bh_GetStats_def)
qed

theorem bh_bounded_counter_witness:
  "run_ops (counter_call 1) [Enter, Enter, Leave, Enter] 0 = ([True, False, True, True], 1) \<and>
   (\<exists>b b'. bh_New \<lparr>MaxConcurrent = 1, QueueSize = 0, bh_Timeout = 0\<rparr> = Some b \<and>
     run_ops (guard_call bh_take bh_give) [Enter, Enter, Leave, Enter] (b, 0) = ([True, False, True, True], b', 1) \<and>
     st_AvailablePermit (bh_GetStats b') = 0)"
proof -
  let ?cfg = "\<lparr>MaxConcurrent = 1, QueueSize = 0, bh_Timeout = 0\<rparr>" and ?es = "[Enter, Enter, Leave, Enter]"
  have one: "MaxConcurrent (bh_normalize ?cfg) = 1" by (simp add: bh_normalize_def)
  obtain b where b: "bh_New ?cfg = Some b" by (simp add: bh_New_Some)
  obtain bs b' n where run: "run_ops (guard_call bh_take bh_give) ?es (b, 0) = (bs, b', n)"
    using prod_cases3 by blast
  from bh_bounded_counter [OF b run] b run show ?thesis by (auto simp: one)
qed

text \<open>
  \<open>New\<close> always returns (filling the channel never blocks), with every default in place:
  all permits available, and a positive limit, queue size and timeout.
\<close>

theorem bh_New_total:
  "\<exists>b. bh_New cfg = Some b \<and> st_AvailablePermit (bh_GetStats b) = st_MaxConcurrent (bh_GetStats b) \<and>
     0 < st_MaxConcurrent (bh_GetStats b) \<and> 0 < st_QueueSize (bh_GetStats b) \<and> 0 < bh_Timeout (bh_cfg b)"
  using bh_normalize_positive [of cfg]
  by (auto simp: bh_New_Some bh_GetStats_def bh_normalize_def Let_def go_defs)

text \<open>
  A call of \<open>Execute\<close> leaves the bulkhead as it found it, on every branch: it returns
  the function's own outcome (a panic included, since the permit goes back in a deferred
  call), or the context's error, or the timeout's error without having called the function.
  It waits only when it is to take a permit and none is left.
\<close>

theorem bh_Execute_restores:
  assumes "bh_permits b \<le> bh_size b"
  shows "bh_Execute ch fn b =
    (case ch of
       Permit \<Rightarrow> if bh_permits b = 0 then None else Some (map_outcome BhFn fn, b)
     | CtxDone \<Rightarrow> Some (Err BhCtx, b)
     | TimedOut \<Rightarrow> Some (Err (BhTimeout (bh_Timeout (bh_cfg b))), b))"
  using assms by (auto simp: bh_Execute_def bh_defs split: nat.splits bh_choice.splits)

theorem bh_Execute_restores_witness:
  "bh_Execute Permit Panic \<lparr>bh_permits = 1, bh_size = 2, bh_cfg = \<lparr>MaxConcurrent = 2, QueueSize = 1, bh_Timeout = 5\<rparr>\<rparr> =
    Some (Panic :: string bh_error outcome,
      \<lparr>bh_permits = 1, bh_size = 2, bh_cfg = \<lparr>MaxConcurrent = 2, QueueSize = 1, bh_Timeout = 5\<rparr>\<rparr>)"
  by (subst bh_Execute_restores) simp_all

end
