(* ===== verification/Gin_Middleware.thy ===== *)
theory Gin_Middleware
  imports Permit_Pool Semaphore
begin

section \<open>The HTTP middleware (\<open>pkg/gin/gin.go\<close>)\<close>

text \<open>
  The handler tries to acquire weight 1. If that fails the request is aborted with status
  503 and the handler returns; otherwise the rest of the chain runs (\<open>c.Next()\<close>) and the
  deferred release gives the weight back, also when a later handler panics. The chain is
  code of the web framework: the model says when it is entered and when it is left.
\<close>

datatype gin_action = AbortWithStatusJSON i64 string string | Next

definition StatusServiceUnavailable :: i64 where "StatusServiceUnavailable = 503"

definition gin_enter :: "semaphore \<Rightarrow> gin_action \<times> semaphore" where
  "gin_enter sem =
     (let (ok, sem') = sem_TryAcquire 1 sem
      in if \<not> ok
         then (AbortWithStatusJSON StatusServiceUnavailable ''error'' ''server too busy, try again later'', sem')
         else (Next, sem'))"

definition gin_leave :: "semaphore \<Rightarrow> semaphore" where
  "gin_leave sem = snd (sem_Release 1 sem)"

definition gin_take :: "semaphore \<Rightarrow> semaphore option" where
  "gin_take sem = (case gin_enter sem of (Next, sem') \<Rightarrow> Some sem' | _ \<Rightarrow> None)"

text \<open>A semaphore that only the middleware uses has no waiters.\<close>

definition gin_inv :: "semaphore \<Rightarrow> bool" where
  "gin_inv s \<longleftrightarrow> sem_ok s \<and> sem_waiters s = []"

definition gin_free :: "semaphore \<Rightarrow> nat" where
  "gin_free s = nat (sem_Available s)"

lemma sem_Available_ok: "sem_ok s \<Longrightarrow> sem_Available s = sem_max s - sem_current s"
  unfolding sem_Available_def by (rule wrap64_id) (simp add: sem_ok_def go_defs)

lemma gin_take_inv:
  assumes "gin_inv s"
  shows "gin_take s = (if sem_current s < sem_max s then Some (s\<lparr>sem_current := sem_current s + 1\<rparr>) else None)"
proof -
  have "sem_ok s" "1 \<le> sem_max s" using assms by (auto simp: gin_inv_def sem_ok_def)
  then show ?thesis
    using assms sem_fits_iff [of s 1] sem_ok_add [of s 1]
    by (auto simp: gin_take_def gin_enter_def sem_TryAcquire_def gin_inv_def)
qed

lemma gin_leave_inv:
  assumes "gin_inv s"
  shows "gin_leave s = s\<lparr>sem_current := max 0 (sem_current s - 1)\<rparr>"
proof -
  have "sem_ok s" "1 \<le> sem_max s" "sem_waiters s = []" using assms by (auto simp: gin_inv_def sem_ok_def)
  then show ?thesis
    using sem_Release_admit [of s 1 "max 0 (sem_current s - 1)" "[]" "[]"] by (simp add: gin_leave_def)
qed

interpretation gin: permit_pool gin_take gin_leave gin_free "\<lambda>s. nat (sem_max s)" gin_inv
proof unfold_locales
  fix s assume inv: "gin_inv s"
  then have ok: "sem_ok s" "sem_waiters s = []" by (simp_all add: gin_inv_def)
  note avail = sem_Available_ok [OF ok(1)]
  show "\<exists>s'. gin_take s = Some s' \<and> gin_inv s' \<and> gin_free s' = gin_free s - 1 \<and> nat (sem_max s') = nat (sem_max s)"
    if "0 < gin_free s"
  proof -
    let ?s = "s\<lparr>sem_current := sem_current s + 1\<rparr>"
    have lt: "sem_current s < sem_max s" using that avail by (simp add: gin_free_def)
    then have "sem_ok ?s" using ok by (simp add: sem_ok_def)
    then show ?thesis
      using gin_take_inv [OF inv] lt avail sem_Available_ok [of ?s] ok
      by (auto simp: gin_inv_def gin_free_def)
  qed
  show "gin_take s = None" if "gin_free s = 0"
    using that gin_take_inv [OF inv] avail by (auto simp: gin_free_def)
  show "gin_inv (gin_leave s) \<and> gin_free (gin_leave s) = gin_free s + 1 \<and>
      nat (sem_max (gin_leave s)) = nat (sem_max s)" if "gin_free s < nat (sem_max s)"
  proof -
    let ?s = "s\<lparr>sem_current := sem_current s - 1\<rparr>"
    have gt: "0 < sem_current s" using that avail ok by (auto simp: gin_free_def sem_ok_def)
    then have "sem_ok ?s" using ok by (simp add: sem_ok_def)
    then show ?thesis
      using gin_leave_inv [OF inv] gt avail sem_Available_ok [of ?s] ok
      by (auto simp: gin_inv_def gin_free_def sem_ok_def)
  qed
qed

subsection \<open>Properties\<close>

text \<open>
  C23. With a new semaphore of capacity \<open>m\<close> used by the middleware alone, requests that begin
  and end in any order are let through exactly as by a counter bounded by \<open>m\<close>: a request is
  answered with 503 only when \<open>m\<close> requests are being handled, and never more than \<open>m\<close> are.
\<close>

theorem gin_middleware_bounds_requests:
  assumes "0 < m" and "m < 2 ^ 62"
    and "run_ops (guard_call gin_take gin_leave) es (sem_New m, 0) = (bs, s, n)"
  shows "run_ops (counter_call (nat m)) es 0 = (bs, n) \<and> int n \<le> m \<and> sem_Current s = int n"
proof -
  have b: "gin.balanced (sem_New m, 0)" and m: "sem_max (sem_New m) = m"
    using assms(1,2) sem_New_ok [OF assms(2)] sem_Available_ok [OF sem_New_ok [OF assms(2)]]
    by (simp_all add: gin.balanced_def gin_inv_def gin_free_def sem_New_def)
  note run = gin.run_counts [OF b assms(3)]
  then have "gin_inv s" "gin_free s + n = nat (sem_max s)" "nat (sem_max s) = nat m"
    by (simp_all add: gin.balanced_def m)
  moreover have "sem_Available s = sem_max s - sem_current s" "0 \<le> sem_current s" "sem_current s \<le> sem_max s" "0 < sem_max s"
    using \<open>gin_inv s\<close> sem_Available_ok by (auto simp: gin_inv_def sem_ok_def)
  ultimately show ?thesis
    using run assms(1) by (auto simp: m gin_free_def sem_Current_def)
qed

theorem gin_middleware_bounds_requests_witness:
  "\<exists>s. run_ops (guard_call gin_take gin_leave) [Enter, Enter, Enter, Leave, Enter] (sem_New 2, 0) =
    ([True, True, False, True, True], s, 2) \<and> sem_Current s = 2"
proof -
  obtain bs s n where run:
    "run_ops (guard_call gin_take gin_leave) [Enter, Enter, Enter, Leave, Enter] (sem_New 2, 0) = (bs, s, n)"
    using prod_cases3 by blast
  have "(0::int) < 2" "(2::int) < 2 ^ 62" by simp_all
  from gin_middleware_bounds_requests [OF this run] run show ?thesis by auto
qed

end
