(* ===== verification/Circuit_Breaker.thy ===== *)
theory Circuit_Breaker
  imports Go_Prelude
begin

section \<open>The circuit breaker (\<open>pkg/breaker/breaker.go\<close>)\<close>

text \<open>
  \<open>Execute\<close> runs the client's function between two sections under the mutex. The first
  decides whether the call is admitted, and in which role; the second records its outcome.
  Both are functions on the breaker's state, so that calls can overlap in the step relation
  below; \<open>cb_Execute\<close> composes them for one call at a time. Clock readings are arguments.
  A function that panics leaves \<open>Execute\<close> without the second section.
\<close>

subsection \<open>State and operations\<close>

datatype cb_state = Closed | Open | HalfOpen

text \<open>\<open>String\<close> is a method of the integer type that the three states are constants of.\<close>

fun state_code :: "cb_state \<Rightarrow> i64" where
  "state_code Closed = 0"
| "state_code Open = 1"
| "state_code HalfOpen = 2"

definition State_String :: "i64 \<Rightarrow> string" where
  "State_String s =
     (if s = state_code Closed then ''closed''
      else if s = state_code Open then ''open''
      else if s = state_code HalfOpen then ''half-open''
      else ''unknown('' @ fmt_d s @ '')'')"

record cb_config =
  MaxFailures :: i64
  Timeout :: duration
  HalfOpenRequests :: i64

definition cb_DefaultConfig :: cb_config where
  "cb_DefaultConfig = \<lparr>MaxFailures = 5, Timeout = 30 * second, HalfOpenRequests = 1\<rparr>"

record breaker =
  cb_cfg :: cb_config
  cb_st :: cb_state
  failures :: i64
  successes :: i64
  halfOpenAllowed :: i64
  lastFailure :: time

text \<open>The zero value of \<open>lastFailure\<close> is an argument: its clock reading is not used while closed.\<close>

definition cb_New :: "time \<Rightarrow> cb_config option \<Rightarrow> breaker" where
  "cb_New zero cfg =
     (let c = (case cfg of None \<Rightarrow> cb_DefaultConfig | Some c \<Rightarrow> c);
          c = (if HalfOpenRequests c \<le> 0 then c\<lparr>HalfOpenRequests := 1\<rparr> else c)
      in \<lparr>cb_cfg = c, cb_st = Closed, failures = 0, successes = 0, halfOpenAllowed = 0, lastFailure = zero\<rparr>)"

definition toOpen :: "time \<Rightarrow> breaker \<Rightarrow> breaker" where
  "toOpen now cb = cb\<lparr>cb_st := Open, lastFailure := now, successes := 0, halfOpenAllowed := 0\<rparr>"

definition toHalfOpen :: "breaker \<Rightarrow> breaker" where
  "toHalfOpen cb = cb\<lparr>cb_st := HalfOpen, successes := 0, halfOpenAllowed := HalfOpenRequests (cb_cfg cb)\<rparr>"

definition toClosed :: "breaker \<Rightarrow> breaker" where
  "toClosed cb = cb\<lparr>cb_st := Closed, failures := 0, successes := 0, halfOpenAllowed := 0\<rparr>"

definition checkStateTransition :: "time \<Rightarrow> breaker \<Rightarrow> breaker" where
  "checkStateTransition now cb =
     (if cb_st cb = Open \<and> time_sub now (lastFailure cb) \<ge> Timeout (cb_cfg cb)
      then toHalfOpen cb else cb)"

definition cb_State :: "time \<Rightarrow> breaker \<Rightarrow> cb_state \<times> breaker" where
  "cb_State now cb = (let cb' = checkStateTransition now cb in (cb_st cb', cb'))"

definition cb_Reset :: "breaker \<Rightarrow> breaker" where
  "cb_Reset cb = toClosed cb"

definition cb_Failures :: "breaker \<Rightarrow> i64" where
  "cb_Failures cb = failures cb"

text \<open>The first section of \<open>Execute\<close>: the role in which the call proceeds.\<close>

datatype cb_role = Rejected | Probe | Normal

definition cb_admit :: "time \<Rightarrow> breaker \<Rightarrow> cb_role \<times> breaker" where
  "cb_admit now cb =
     (let cb = checkStateTransition now cb
      in case cb_st cb of
           Open \<Rightarrow> (Rejected, cb)
         | HalfOpen \<Rightarrow>
             (if halfOpenAllowed cb \<le> 0 then (Rejected, cb)
              else (Probe, cb\<lparr>halfOpenAllowed := wrap64 (halfOpenAllowed cb - 1)\<rparr>))
         | Closed \<Rightarrow> (Normal, cb))"

text \<open>
  The second section. The branch of a failed normal call reads the clock for \<open>lastFailure\<close>
  and, when it opens the breaker, once more in \<open>toOpen\<close>.
\<close>

fun cb_report :: "cb_role \<Rightarrow> 'e outcome \<Rightarrow> time \<Rightarrow> time \<Rightarrow> breaker \<Rightarrow> breaker" where
  "cb_report Probe (Err e) t1 t2 cb = toOpen t1 cb"
| "cb_report Probe Ok t1 t2 cb =
     (let cb = cb\<lparr>successes := wrap64 (successes cb + 1)\<rparr>
      in if successes cb \<ge> HalfOpenRequests (cb_cfg cb) then toClosed cb else cb)"
| "cb_report Normal (Err e) t1 t2 cb =
     (let cb = cb\<lparr>failures := wrap64 (failures cb + 1), lastFailure := t1\<rparr>
      in if failures cb \<ge> MaxFailures (cb_cfg cb) then toOpen t2 cb else cb)"
| "cb_report Normal Ok t1 t2 cb = cb\<lparr>failures := 0\<rparr>"
| "cb_report _ Panic t1 t2 cb = cb"
| "cb_report Rejected _ t1 t2 cb = cb"

datatype 'e cb_error = CbOpen | CbFn 'e

text \<open>One call with no other call in between; \<open>fn\<close> is the outcome the function would have.\<close>

definition cb_Execute :: "time \<Rightarrow> 'e outcome \<Rightarrow> time \<Rightarrow> time \<Rightarrow> breaker \<Rightarrow> 'e cb_error outcome \<times> breaker" where
  "cb_Execute now fn t1 t2 cb =
     (let (role, cb) = cb_admit now cb
      in if role = Rejected then (Err CbOpen, cb)
         else (map_outcome CbFn fn, cb_report role fn t1 t2 cb))"

lemmas cb_transitions = toOpen_def toHalfOpen_def toClosed_def checkStateTransition_def

subsection \<open>One call at a time\<close>

text \<open>
  The well-formed states between two such calls: closed below the failure limit, or open,
  or half open with the probes still allowed and the successes so far adding up to at most
  the number of probes; a probe that panicked is in neither count. A \<open>MaxFailures\<close> that is
  not positive acts as 1.
\<close>

definition cb_limit :: "cb_config \<Rightarrow> i64" where
  "cb_limit c = max 1 (MaxFailures c)"

definition cb_cfg_ok :: "cb_config \<Rightarrow> bool" where
  "cb_cfg_ok c \<longleftrightarrow> 0 < HalfOpenRequests c \<and> HalfOpenRequests c \<le> max_i64 \<and> MaxFailures c \<le> max_i64"

definition cb_ok :: "breaker \<Rightarrow> bool" where
  "cb_ok cb \<longleftrightarrow> cb_cfg_ok (cb_cfg cb) \<and> 0 \<le> failures cb \<and> failures cb \<le> cb_limit (cb_cfg cb) \<and>
     (case cb_st cb of
        Closed \<Rightarrow> failures cb < cb_limit (cb_cfg cb) \<and> halfOpenAllowed cb = 0 \<and> successes cb = 0
      | Open \<Rightarrow> halfOpenAllowed cb = 0 \<and> successes cb = 0
      | HalfOpen \<Rightarrow> 0 \<le> successes cb \<and> 0 \<le> halfOpenAllowed cb \<and>
          successes cb < HalfOpenRequests (cb_cfg cb) \<and>
          successes cb + halfOpenAllowed cb \<le> HalfOpenRequests (cb_cfg cb))"

lemma wrap64_succ: "0 \<le> x \<Longrightarrow> x < y \<Longrightarrow> y \<le> max_i64 \<Longrightarrow> wrap64 (x + 1) = x + 1"
  by (rule wrap64_id) (simp add: go_defs)

lemma wrap64_pred: "0 < x \<Longrightarrow> x \<le> max_i64 \<Longrightarrow> wrap64 (x - 1) = x - 1"
  by (rule wrap64_id) (simp add: go_defs)

lemma cb_limit_le: "cb_cfg_ok c \<Longrightarrow> cb_limit c \<le> max_i64"
  by (simp add: cb_cfg_ok_def cb_limit_def go_defs)

text \<open>
  The abstract breaker, and what it promises. Half open, it counts the probes that succeeded
  and the probes that are left; a probe that panics is used up, and with none left every
  call is rejected.
\<close>

datatype abs_breaker = AClosed (fails: nat) | AOpen (since: time) | AHalfOpen (good: nat) (left: nat)

definition cb_abs :: "breaker \<Rightarrow> abs_breaker" where
  "cb_abs cb = (case cb_st cb of
      Closed \<Rightarrow> AClosed (nat (failures cb))
    | Open \<Rightarrow> AOpen (lastFailure cb)
    | HalfOpen \<Rightarrow> AHalfOpen (nat (successes cb)) (nat (halfOpenAllowed cb)))"

fun abs_wake :: "duration \<Rightarrow> nat \<Rightarrow> time \<Rightarrow> abs_breaker \<Rightarrow> abs_breaker" where
  "abs_wake timeout probes now (AOpen t) = (if time_sub now t \<ge> timeout then AHalfOpen 0 probes else AOpen t)"
| "abs_wake timeout probes now a = a"

fun abs_call :: "nat \<Rightarrow> nat \<Rightarrow> 'e outcome \<Rightarrow> time \<Rightarrow> time \<Rightarrow> abs_breaker \<Rightarrow> 'e cb_error outcome \<times> abs_breaker" where
  "abs_call maxf probes fn t1 t2 (AOpen t) = (Err CbOpen, AOpen t)"
| "abs_call maxf probes fn t1 t2 (AClosed n) =
     (map_outcome CbFn fn,
      case fn of Ok \<Rightarrow> AClosed 0 | Err _ \<Rightarrow> (if Suc n < maxf then AClosed (Suc n) else AOpen t2) | Panic \<Rightarrow> AClosed n)"
| "abs_call maxf probes fn t1 t2 (AHalfOpen k 0) = (Err CbOpen, AHalfOpen k 0)"
| "abs_call maxf probes fn t1 t2 (AHalfOpen k (Suc n)) =
     (map_outcome CbFn fn,
      case fn of Ok \<Rightarrow> (if Suc k < probes then AHalfOpen (Suc k) n else AClosed 0) | Err _ \<Rightarrow> AOpen t1
      | Panic \<Rightarrow> AHalfOpen k n)"

lemma check_ok: "cb_ok cb \<Longrightarrow> cb_ok (checkStateTransition now cb)"
  by (auto simp: cb_ok_def cb_cfg_ok_def cb_transitions split: cb_state.splits)

lemma check_cfg [simp]: "cb_cfg (checkStateTransition now cb) = cb_cfg cb"
  by (simp add: cb_transitions)

abbreviation probes_of :: "cb_config \<Rightarrow> nat" where
  "probes_of c \<equiv> nat (HalfOpenRequests c)"

lemma check_abs:
  "cb_abs (checkStateTransition now cb) = abs_wake (Timeout (cb_cfg cb)) (probes_of (cb_cfg cb)) now (cb_abs cb)"
  by (auto simp: cb_abs_def cb_transitions split: cb_state.splits)

text \<open>The outcome of a call made in each state, after the check of the timeout.\<close>

lemma closed_call:
  assumes ok: "cb_ok cb" and st: "cb_st cb = Closed"
  shows "cb_ok (cb_report Normal fn t1 t2 cb) \<and>
    abs_call (nat (MaxFailures (cb_cfg cb))) p fn t1 t2 (cb_abs cb) =
      (map_outcome CbFn fn, cb_abs (cb_report Normal fn t1 t2 cb))"
proof (cases fn)
  case (Err e)
  have f: "0 \<le> failures cb" "failures cb < cb_limit (cb_cfg cb)" and c: "cb_cfg_ok (cb_cfg cb)"
    and z: "halfOpenAllowed cb = 0" "successes cb = 0"
    using ok st by (simp_all add: cb_ok_def)
  then have w: "wrap64 (failures cb + 1) = failures cb + 1"
    using wrap64_succ cb_limit_le by blast
  have "Suc (nat (failures cb)) < nat (MaxFailures (cb_cfg cb)) \<longleftrightarrow> failures cb + 1 < MaxFailures (cb_cfg cb)"
    and "Suc (nat (failures cb)) = nat (failures cb + 1)"
    using f(1) by linarith+
  then show ?thesis
    using f c st z by (auto simp: Err w cb_ok_def cb_abs_def cb_limit_def toOpen_def Let_def max_def split: if_splits)
qed (use assms in \<open>auto simp: cb_ok_def cb_abs_def cb_limit_def\<close>)

lemma half_open_call:
  assumes ok: "cb_ok cb" and st: "cb_st cb = HalfOpen" and left: "0 < halfOpenAllowed cb"
  shows "let cb' = cb_report Probe fn t1 t2 (cb\<lparr>halfOpenAllowed := wrap64 (halfOpenAllowed cb - 1)\<rparr>) in
    cb_ok cb' \<and>
    abs_call m (probes_of (cb_cfg cb)) fn t1 t2 (cb_abs cb) = (map_outcome CbFn fn, cb_abs cb')"
proof -
  have s: "0 \<le> successes cb" "0 \<le> failures cb" "failures cb \<le> cb_limit (cb_cfg cb)"
    and sum: "successes cb + halfOpenAllowed cb \<le> HalfOpenRequests (cb_cfg cb)"
    and c: "cb_cfg_ok (cb_cfg cb)"
    using ok st by (simp_all add: cb_ok_def)
  obtain n where n: "nat (halfOpenAllowed cb) = Suc n" "nat (halfOpenAllowed cb - 1) = n"
    using left by (cases "nat (halfOpenAllowed cb)") auto
  have w: "wrap64 (successes cb + 1) = successes cb + 1" "wrap64 (halfOpenAllowed cb - 1) = halfOpenAllowed cb - 1"
    using s sum c left by (auto simp: cb_cfg_ok_def intro!: wrap64_succ wrap64_pred)
  have "Suc (nat (successes cb)) < nat (HalfOpenRequests (cb_cfg cb)) \<longleftrightarrow>
      successes cb + 1 < HalfOpenRequests (cb_cfg cb)"
    and "Suc (nat (successes cb)) = nat (successes cb + 1)"
    using s(1) by linarith+
  then show ?thesis
    using s sum c st left
    by (cases fn) (auto simp: w n cb_ok_def cb_abs_def cb_limit_def toOpen_def toClosed_def Let_def)
qed

lemma cb_report_cfg [simp]: "cb_cfg (cb_report role fn t1 t2 cb) = cb_cfg cb"
  by (cases role; cases fn) (simp_all add: Let_def cb_transitions)

lemma cb_Execute_refines:
  assumes "cb_ok cb" and "cb_Execute now fn t1 t2 cb = (r, cb')"
  shows "cb_ok cb' \<and> cb_cfg cb' = cb_cfg cb \<and>
    abs_call (nat (MaxFailures (cb_cfg cb))) (probes_of (cb_cfg cb)) fn t1 t2
      (abs_wake (Timeout (cb_cfg cb)) (probes_of (cb_cfg cb)) now (cb_abs cb)) = (r, cb_abs cb')"
proof -
  define c where "c = checkStateTransition now cb"
  have ok: "cb_ok c" and cfg: "cb_cfg c = cb_cfg cb"
    and wake: "abs_wake (Timeout (cb_cfg cb)) (probes_of (cb_cfg cb)) now (cb_abs cb) = cb_abs c"
    using check_ok [OF assms(1)] by (simp_all add: c_def check_abs)
  show ?thesis
  proof (cases "cb_st c")
    case Closed
    then have "r = map_outcome CbFn fn" "cb' = cb_report Normal fn t1 t2 c"
      using assms(2) by (simp_all add: cb_Execute_def cb_admit_def c_def Let_def)
    then show ?thesis using closed_call [OF ok Closed] by (simp add: wake cfg)
  next
    case Open
    then have "r = Err CbOpen" "cb' = c"
      using assms(2) by (simp_all add: cb_Execute_def cb_admit_def c_def Let_def)
    moreover have "cb_abs c = AOpen (lastFailure c)" using Open by (simp add: cb_abs_def)
    ultimately show ?thesis using ok by (simp add: wake cfg)
  next
    case HalfOpen
    show ?thesis
    proof (cases "0 < halfOpenAllowed c")
      case True
      then have "r = map_outcome CbFn fn"
        "cb' = cb_report Probe fn t1 t2 (c\<lparr>halfOpenAllowed := wrap64 (halfOpenAllowed c - 1)\<rparr>)"
        using assms(2) HalfOpen by (simp_all add: cb_Execute_def cb_admit_def c_def Let_def)
      then show ?thesis using half_open_call [OF ok HalfOpen True] by (simp add: wake cfg Let_def)
    next
      case False
      then have "r = Err CbOpen" "cb' = c"
        using assms(2) HalfOpen by (simp_all add: cb_Execute_def cb_admit_def c_def Let_def)
      moreover have "cb_abs c = AHalfOpen (nat (successes c)) 0" using HalfOpen False by (simp add: cb_abs_def)
      ultimately show ?thesis using ok by (simp add: wake cfg)
    qed
  qed
qed

text \<open>The calls of a client, and what it observes.\<close>

datatype 'e cb_op = OpExecute time "'e outcome" time time | OpState time | OpReset

datatype 'e cb_obs = ObsResult "'e cb_error outcome" | ObsState cb_state | ObsDone

fun cb_call :: "'e cb_op \<Rightarrow> breaker \<Rightarrow> 'e cb_obs \<times> breaker" where
  "cb_call (OpExecute now fn t1 t2) cb = (let (r, cb') = cb_Execute now fn t1 t2 cb in (ObsResult r, cb'))"
| "cb_call (OpState now) cb = (let (s, cb') = cb_State now cb in (ObsState s, cb'))"
| "cb_call OpReset cb = (ObsDone, cb_Reset cb)"

fun abs_state :: "abs_breaker \<Rightarrow> cb_state" where
  "abs_state (AClosed n) = Closed"
| "abs_state (AOpen t) = Open"
| "abs_state (AHalfOpen k n) = HalfOpen"

fun abs_step :: "cb_config \<Rightarrow> 'e cb_op \<Rightarrow> abs_breaker \<Rightarrow> 'e cb_obs \<times> abs_breaker" where
  "abs_step c (OpExecute now fn t1 t2) a =
     (let (r, a') = abs_call (nat (MaxFailures c)) (probes_of c) fn t1 t2 (abs_wake (Timeout c) (probes_of c) now a)
      in (ObsResult r, a'))"
| "abs_step c (OpState now) a = (let a' = abs_wake (Timeout c) (probes_of c) now a in (ObsState (abs_state a'), a'))"
| "abs_step c OpReset a = (ObsDone, AClosed 0)"

lemma cb_call_refines:
  assumes "cb_ok cb \<and> cb_cfg cb = c" and "cb_call x cb = (r, cb')"
  shows "(cb_ok cb' \<and> cb_cfg cb' = c) \<and> abs_step c x (cb_abs cb) = (r, cb_abs cb')"
proof (cases x)
  case (OpExecute now fn t1 t2)
  obtain o1 cb1 where e: "cb_Execute now fn t1 t2 cb = (o1, cb1)" by fastforce
  with assms cb_Execute_refines [of cb now fn t1 t2 o1 cb1] OpExecute show ?thesis by auto
next
  case (OpState now)
  moreover have "abs_state (cb_abs b) = cb_st b" for b by (simp add: cb_abs_def split: cb_state.split)
  ultimately show ?thesis
    using assms check_ok [of cb now] by (auto simp: cb_State_def Let_def check_abs [symmetric])
next
  case OpReset
  with assms show ?thesis
    by (auto simp: cb_Reset_def toClosed_def cb_ok_def cb_abs_def cb_limit_def)
qed

interpretation cb: op_refinement cb_call "abs_step c" cb_abs "\<lambda>cb. cb_ok cb \<and> cb_cfg cb = c" "\<lambda>_. True"
  for c
  by unfold_locales (rule cb_call_refines)

lemma cb_New_ok:
  "MaxFailures cfg \<le> max_i64 \<Longrightarrow> HalfOpenRequests cfg \<le> max_i64 \<Longrightarrow>
     cb_ok (cb_New zero (Some cfg)) \<and> cb_abs (cb_New zero (Some cfg)) = AClosed 0"
  by (auto simp: cb_New_def cb_ok_def cb_cfg_ok_def cb_abs_def cb_limit_def go_defs Let_def)

subsection \<open>Overlapping calls\<close>

text \<open>
  Any number of calls in flight, each between its two sections. \<open>cs_era\<close> is a ghost count of
  the probes admitted since the breaker last became half open.
\<close>

record cb_sys =
  cs_cb :: breaker
  cs_calls :: "cb_role list"
  cs_era :: i64

definition new_era :: "time \<Rightarrow> cb_sys \<Rightarrow> i64" where
  "new_era now \<sigma> =
     (if cb_st (cs_cb \<sigma>) = Open \<and> cb_st (checkStateTransition now (cs_cb \<sigma>)) = HalfOpen then 0 else cs_era \<sigma>)"

inductive cb_step :: "cb_sys \<Rightarrow> cb_sys \<Rightarrow> bool" where
  rejected:
    "cb_admit now (cs_cb \<sigma>) = (Rejected, cb) \<Longrightarrow>
     cb_step \<sigma> (\<sigma>\<lparr>cs_cb := cb, cs_era := new_era now \<sigma>\<rparr>)"
| admitted:
    "cb_admit now (cs_cb \<sigma>) = (role, cb) \<Longrightarrow> role \<noteq> Rejected \<Longrightarrow>
     cb_step \<sigma> (\<sigma>\<lparr>cs_cb := cb, cs_calls := cs_calls \<sigma> @ [role],
       cs_era := new_era now \<sigma> + (if role = Probe then 1 else 0)\<rparr>)"
| finished:
    "i < length (cs_calls \<sigma>) \<Longrightarrow> cb_report (cs_calls \<sigma> ! i) (fn :: unit outcome) t1 t2 (cs_cb \<sigma>) = cb \<Longrightarrow>
     cb_step \<sigma> (\<sigma>\<lparr>cs_cb := cb, cs_calls := take i (cs_calls \<sigma>) @ drop (Suc i) (cs_calls \<sigma>)\<rparr>)"
| queried:
    "cb_State now (cs_cb \<sigma>) = (st, cb) \<Longrightarrow>
     cb_step \<sigma> (\<sigma>\<lparr>cs_cb := cb, cs_era := new_era now \<sigma>\<rparr>)"
| reset:
    "cb_step \<sigma> (\<sigma>\<lparr>cs_cb := cb_Reset (cs_cb \<sigma>)\<rparr>)"

definition cb_start :: "cb_sys \<Rightarrow> bool" where
  "cb_start \<sigma> \<longleftrightarrow> (\<exists>zero cfg. HalfOpenRequests cfg \<le> max_i64 \<and>
     \<sigma> = \<lparr>cs_cb = cb_New zero (Some cfg), cs_calls = [], cs_era = 0\<rparr>)"

abbreviation cb_reach :: "cb_sys \<Rightarrow> bool" where
  "cb_reach \<equiv> reach cb_start cb_step"

text \<open>
  Half open, the probes admitted in this era and those still allowed add up to the limit;
  otherwise none is allowed. In every state the limit bounds the era's probes.
\<close>

definition probes_ok :: "breaker \<Rightarrow> i64 \<Rightarrow> bool" where
  "probes_ok cb era \<longleftrightarrow> 0 < HalfOpenRequests (cb_cfg cb) \<and> HalfOpenRequests (cb_cfg cb) \<le> max_i64 \<and>
     0 \<le> era \<and> era \<le> HalfOpenRequests (cb_cfg cb) \<and> 0 \<le> halfOpenAllowed cb \<and>
     (if cb_st cb = HalfOpen then era + halfOpenAllowed cb = HalfOpenRequests (cb_cfg cb)
      else halfOpenAllowed cb = 0)"

lemma probes_check:
  "probes_ok (cs_cb \<sigma>) (cs_era \<sigma>) \<Longrightarrow> probes_ok (checkStateTransition now (cs_cb \<sigma>)) (new_era now \<sigma>)"
  by (auto simp: probes_ok_def new_era_def cb_transitions split: if_splits)

lemma probes_admit:
  assumes "probes_ok (cs_cb \<sigma>) (cs_era \<sigma>)" and "cb_admit now (cs_cb \<sigma>) = (role, cb)"
  shows "probes_ok cb (new_era now \<sigma> + (if role = Probe then 1 else 0))"
proof -
  define c where "c = checkStateTransition now (cs_cb \<sigma>)"
  have ok: "probes_ok c (new_era now \<sigma>)" using probes_check [OF assms(1)] by (simp add: c_def)
  have "0 < halfOpenAllowed c \<Longrightarrow> wrap64 (halfOpenAllowed c - 1) = halfOpenAllowed c - 1"
    using ok by (intro wrap64_pred) (auto simp: probes_ok_def split: if_splits)
  then show ?thesis
    using assms(2) ok unfolding cb_admit_def c_def [symmetric] Let_def
    by (auto simp: probes_ok_def split: cb_state.splits if_splits)
qed

lemma probes_report: "probes_ok cb era \<Longrightarrow> probes_ok (cb_report role fn t1 t2 cb) era"
  by (cases role; cases fn) (auto simp: probes_ok_def cb_transitions Let_def)

definition cb_sys_ok :: "cb_sys \<Rightarrow> bool" where
  "cb_sys_ok \<sigma> \<longleftrightarrow> probes_ok (cs_cb \<sigma>) (cs_era \<sigma>)"

lemma cb_step_ok: "cb_step \<sigma> \<tau> \<Longrightarrow> cb_sys_ok \<sigma> \<Longrightarrow> cb_sys_ok \<tau>"
proof (induction rule: cb_step.induct)
  case (rejected now \<sigma> cb)
  then show ?case using probes_admit [of \<sigma> now Rejected cb] by (simp add: cb_sys_ok_def)
next
  case (admitted now \<sigma> role cb)
  then show ?case using probes_admit [of \<sigma> now role cb] by (simp add: cb_sys_ok_def)
next
  case (finished i \<sigma> fn t1 t2 cb)
  then show ?case using probes_report by (auto simp: cb_sys_ok_def)
next
  case (queried now \<sigma> st cb)
  then show ?case using probes_check [of \<sigma> now] by (simp add: cb_sys_ok_def cb_State_def Let_def)
next
  case (reset \<sigma>)
  then show ?case by (simp add: cb_sys_ok_def cb_Reset_def toClosed_def probes_ok_def)
qed

lemma cb_start_ok: "cb_start \<sigma> \<Longrightarrow> cb_sys_ok \<sigma>"
  by (auto simp: cb_start_def cb_sys_ok_def probes_ok_def cb_New_def Let_def go_defs)

interpretation cbs: inductive_invariant cb_start cb_step cb_sys_ok
  by unfold_locales (rule cb_start_ok, assumption, rule cb_step_ok, assumption+)

subsection \<open>Properties\<close>

text \<open>
  C3. Used by one call at a time, the breaker is the three-state machine: every sequence of
  \<open>Execute\<close>, \<open>State\<close> and \<open>Reset\<close> calls on a new breaker returns what the abstract machine
  returns, functions that panic included. Closed, it counts consecutive failures and opens at
  the limit; open, it rejects until the timeout has passed; half open, it admits
  \<open>HalfOpenRequests\<close> probes, closes only once that many have succeeded and opens at the first
  that fails. A probe that panics is used up without closing or opening the breaker, which
  rejects every call once no probe is left. (README.md describes a breaker that a single
  successful probe closes: that is the case of \<open>HalfOpenRequests = 1\<close>.)
\<close>

theorem cb_refines_state_machine:
  assumes "MaxFailures cfg \<le> max_i64" and "HalfOpenRequests cfg \<le> max_i64"
  shows "fst (run_ops cb_call ops (cb_New zero (Some cfg))) =
    fst (run_ops (abs_step (cb_cfg (cb_New zero (Some cfg)))) ops (AClosed 0))"
proof -
  let ?cb = "cb_New zero (Some cfg)"
  obtain rs cb' where run: "run_ops cb_call ops ?cb = (rs, cb')" by fastforce
  have "cb_ok ?cb \<and> cb_cfg ?cb = cb_cfg ?cb" and "cb_abs ?cb = AClosed 0"
    using cb_New_ok [OF assms(1,2)] by simp_all
  with cb.run_refines [OF _ _ run, of "cb_cfg ?cb"] run show ?thesis by (simp add: list.pred_True)
qed

theorem cb_refines_state_machine_witness:
  "fst (run_ops cb_call
     [OpExecute 0 (Err ''x'') 1 1, OpExecute 2 (Err ''y'') 3 4, OpExecute 5 Ok 6 6, OpState 13,
      OpState 14, OpExecute 15 Ok 16 16, OpState 17, OpExecute 18 Ok 19 19, OpState 20]
     (cb_New 0 (Some \<lparr>MaxFailures = 2, Timeout = 10, HalfOpenRequests = 2\<rparr>))) =
   [ObsResult (Err (CbFn ''x'')), ObsResult (Err (CbFn ''y'')), ObsResult (Err CbOpen), ObsState Open,
    ObsState HalfOpen, ObsResult Ok, ObsState HalfOpen, ObsResult Ok, ObsState Closed] \<and>
   fst (run_ops cb_call
     [OpExecute 0 (Err ''x'') 1 1, OpExecute 11 Panic 12 12, OpExecute 99 Ok 99 99]
     (cb_New 0 (Some \<lparr>MaxFailures = 1, Timeout = 10, HalfOpenRequests = 1\<rparr>))) =
   [ObsResult (Err (CbFn ''x'')), ObsResult Panic, ObsResult (Err CbOpen)]"
proof -
  let ?c = "\<lparr>MaxFailures = 2, Timeout = 10, HalfOpenRequests = 2\<rparr>"
  let ?ops = "[OpExecute 0 (Err ''x'') 1 1, OpExecute 2 (Err ''y'') 3 4, OpExecute 5 Ok 6 6, OpState 13,
      OpState 14, OpExecute 15 Ok 16 16, OpState 17, OpExecute 18 Ok 19 19, OpState 20]"
  let ?ops' = "[OpExecute 0 (Err ''x'') 1 1, OpExecute 11 Panic 12 12, OpExecute 99 Ok 99 99]"
  let ?d = "\<lparr>MaxFailures = 1, Timeout = 10, HalfOpenRequests = 1\<rparr>"
  have "MaxFailures ?c \<le> max_i64" "HalfOpenRequests ?c \<le> max_i64"
    "MaxFailures ?d \<le> max_i64" "HalfOpenRequests ?d \<le> max_i64" by (simp_all add: go_defs)
  from cb_refines_state_machine [OF this(1,2), of ?ops 0] cb_refines_state_machine [OF this(3,4), of ?ops' 0]
  show ?thesis by (simp add: cb_New_def time_sub_def go_defs eval_nat_numeral)
qed

fun failing_calls :: "time list \<Rightarrow> breaker \<Rightarrow> breaker" where
  "failing_calls [] cb = cb"
| "failing_calls (t # ts) cb = failing_calls ts (snd (cb_Execute t (Err ()) t t cb))"

lemma failing_call:
  "cb_st cb = Closed \<Longrightarrow> cb_Execute t (Err ()) t t cb =
     (let cb' = cb\<lparr>failures := wrap64 (failures cb + 1), lastFailure := t\<rparr>
      in (Err (CbFn ()), if failures cb' \<ge> MaxFailures (cb_cfg cb) then toOpen t cb' else cb'))"
  by (simp add: cb_Execute_def cb_admit_def checkStateTransition_def Let_def)

lemma failing_calls_count:
  assumes "cb_st cb = Closed" and "0 \<le> failures cb" and "MaxFailures (cb_cfg cb) \<le> max_i64"
    and "failures cb + int (length ts) \<le> MaxFailures (cb_cfg cb)" and "ts \<noteq> []"
  shows "let cb' = failing_calls ts cb in failures cb' = failures cb + int (length ts) \<and>
    cb_st cb' = (if failures cb' < MaxFailures (cb_cfg cb) then Closed else Open) \<and> lastFailure cb' = last ts"
  using assms
proof (induction ts arbitrary: cb)
  case (Cons t ts)
  have w: "wrap64 (failures cb + 1) = failures cb + 1"
    using Cons.prems by (intro wrap64_succ [of _ "MaxFailures (cb_cfg cb)"]) simp_all
  let ?cb = "cb\<lparr>failures := failures cb + 1, lastFailure := t\<rparr>"
  show ?case
  proof (cases ts)
    case Nil
    then show ?thesis using Cons.prems w by (simp add: failing_call Let_def toOpen_def)
  next
    case (Cons u us)
    then have "failing_calls (t # ts) cb = failing_calls ts ?cb"
      using Cons.prems w by (simp add: failing_call Let_def)
    then show ?thesis
      using Cons.IH [of ?cb] Cons.prems Cons by (simp add: Let_def)
  qed
qed simp

text \<open>
  A new breaker opens at the \<open>MaxFailures\<close>-th consecutive failure and not before: after
  \<open>k\<close> failing calls it is closed with failure count \<open>k\<close> while \<open>k\<close> is below the limit, and open
  since the last reading of the clock once \<open>k\<close> reaches it.
\<close>

theorem cb_opens_at_limit:
  assumes "MaxFailures cfg \<le> max_i64" and "ts \<noteq> []" and "int (length ts) \<le> MaxFailures cfg"
  shows "let cb = failing_calls ts (cb_New zero (Some cfg)) in
    cb_Failures cb = int (length ts) \<and>
    cb_st cb = (if int (length ts) < MaxFailures cfg then Closed else Open) \<and> lastFailure cb = last ts"
proof -
  let ?cb = "cb_New zero (Some cfg)"
  have "MaxFailures (cb_cfg ?cb) = MaxFailures cfg" "cb_st ?cb = Closed" "failures ?cb = 0"
    by (simp_all add: cb_New_def Let_def)
  with failing_calls_count [of ?cb ts] assms show ?thesis by (simp add: cb_Failures_def Let_def)
qed

theorem cb_opens_at_limit_witness:
  "cb_st (failing_calls [1, 2] (cb_New 0 (Some \<lparr>MaxFailures = 3, Timeout = 10, HalfOpenRequests = 1\<rparr>))) = Closed \<and>
   cb_st (failing_calls [1, 2, 5] (cb_New 0 (Some \<lparr>MaxFailures = 3, Timeout = 10, HalfOpenRequests = 1\<rparr>))) = Open"
  using cb_opens_at_limit [of "\<lparr>MaxFailures = 3, Timeout = 10, HalfOpenRequests = 1\<rparr>" "[1, 2]" 0]
    cb_opens_at_limit [of "\<lparr>MaxFailures = 3, Timeout = 10, HalfOpenRequests = 1\<rparr>" "[1, 2, 5]" 0]
  by (simp add: Let_def go_defs)

text \<open>
  C10. Whatever calls overlap, with whatever outcomes (panics included), resets and queries,
  at most \<open>HalfOpenRequests\<close> probes are admitted between one entry into the half-open state
  and the next.
\<close>

theorem cb_probes_bounded:
  assumes "cb_reach \<sigma>"
  shows "0 \<le> cs_era \<sigma> \<and> cs_era \<sigma> \<le> HalfOpenRequests (cb_cfg (cs_cb \<sigma>))"
  using cbs.reach_inv [OF assms] by (simp add: cb_sys_ok_def probes_ok_def)

abbreviation cb_one :: "cb_state \<Rightarrow> i64 \<Rightarrow> time \<Rightarrow> breaker" where
  "cb_one st f t \<equiv> \<lparr>cb_cfg = \<lparr>MaxFailures = 1, Timeout = 10, HalfOpenRequests = 1\<rparr>, cb_st = st,
     failures = f, successes = 0, halfOpenAllowed = 0, lastFailure = t\<rparr>"

text \<open>A run with limits of 1: a call fails, and after the timeout a probe is in flight.\<close>

lemma cb_reach_probe:
  "cb_reach \<lparr>cs_cb = cb_one Closed 0 0, cs_calls = [Normal], cs_era = 0\<rparr>"
  "cb_reach \<lparr>cs_cb = cb_one HalfOpen 1 0, cs_calls = [Normal, Probe], cs_era = 1\<rparr>"
proof -
  have "cb_start \<lparr>cs_cb = cb_one Closed 0 0, cs_calls = [], cs_era = 0\<rparr>" (is "cb_start ?\<sigma>0")
    unfolding cb_start_def
    by (rule exI [of _ 0], rule exI [of _ "\<lparr>MaxFailures = 1, Timeout = 10, HalfOpenRequests = 1\<rparr>"])
      (simp add: cb_New_def go_defs)
  then have r0: "cb_reach ?\<sigma>0" by (rule reach_init)
  let ?\<sigma>1 = "\<lparr>cs_cb = cb_one Closed 0 0, cs_calls = [Normal], cs_era = 0\<rparr>"
  let ?\<sigma>2 = "\<lparr>cs_cb = cb_one Closed 0 0, cs_calls = [Normal, Normal], cs_era = 0\<rparr>"
  let ?\<sigma>3 = "\<lparr>cs_cb = cb_one Open 1 0, cs_calls = [Normal], cs_era = 0\<rparr>"
  let ?\<sigma>4 = "\<lparr>cs_cb = cb_one HalfOpen 1 0, cs_calls = [Normal, Probe], cs_era = 1\<rparr>"
  have "cb_step ?\<sigma>0 ?\<sigma>1" "cb_step ?\<sigma>1 ?\<sigma>2"
    using cb_step.admitted [of 0 ?\<sigma>0 Normal "cb_one Closed 0 0"]
      cb_step.admitted [of 0 ?\<sigma>1 Normal "cb_one Closed 0 0"]
    by (simp_all add: cb_admit_def checkStateTransition_def new_era_def)
  moreover have "cb_step ?\<sigma>2 ?\<sigma>3"
    using cb_step.finished [of 1 ?\<sigma>2 "Err ()" 0 0 "cb_one Open 1 0"] wrap64_id [OF in_i64_1]
    by (simp add: toOpen_def Let_def)
  moreover have "cb_step ?\<sigma>3 ?\<sigma>4"
    using cb_step.admitted [of 10 ?\<sigma>3 Probe "cb_one HalfOpen 1 0"] wrap64_id [OF in_i64_0]
    by (simp add: cb_admit_def cb_transitions new_era_def go_defs)
  ultimately show "cb_reach ?\<sigma>1" "cb_reach ?\<sigma>4" using r0 by (blast intro: reach_step)+
qed

theorem cb_probes_bounded_witness:
  "cb_reach \<lparr>cs_cb = cb_one HalfOpen 1 0, cs_calls = [Normal, Probe], cs_era = 1\<rparr> \<and> (1::int) \<le> 1"
  using cb_reach_probe(2) cb_probes_bounded [OF cb_reach_probe(2)] by simp

text \<open>
  C27. A probe that panics is never reported. There is a reachable state with no call in
  flight in which the breaker is half open, and from then on it rejects every call and
  stays half open, however much time passes, until it is reset.
\<close>

theorem cb_panicking_probe_blocks_forever:
  "\<exists>\<sigma>. cb_reach \<sigma> \<and> cs_calls \<sigma> = [] \<and> cb_st (cs_cb \<sigma>) = HalfOpen \<and>
     (\<forall>now fn t1 t2. cb_Execute now fn t1 t2 (cs_cb \<sigma>) = (Err (CbOpen :: string cb_error), cs_cb \<sigma>)) \<and>
     (\<forall>now. cb_State now (cs_cb \<sigma>) = (HalfOpen, cs_cb \<sigma>))"
proof (intro exI conjI)
  let ?\<sigma> = "\<lparr>cs_cb = cb_one HalfOpen 1 0, cs_calls = [Normal, Probe], cs_era = 1\<rparr>"
  let ?\<tau> = "\<lparr>cs_cb = cb_one HalfOpen 1 0, cs_calls = [Normal], cs_era = 1\<rparr>"
  let ?\<upsilon> = "\<lparr>cs_cb = cb_one HalfOpen 1 0, cs_calls = [], cs_era = 1\<rparr>"
  have "cb_step ?\<sigma> ?\<tau>" "cb_step ?\<tau> ?\<upsilon>"
    using cb_step.finished [of 1 ?\<sigma> Panic 0 0] cb_step.finished [of 0 ?\<tau> Panic 0 0] by simp_all
  then show "cb_reach ?\<upsilon>" using cb_reach_probe(2) by (blast intro: reach_step)
qed (simp_all add: cb_Execute_def cb_admit_def cb_State_def checkStateTransition_def)

text \<open>
  C28. With overlapping calls the open state can be left without waiting for the timeout. A
  call admitted while the breaker was closed and a probe are in flight in the half-open
  state; the first fails and opens the breaker; then the probe, still in flight, reports its
  success and closes the breaker although the timeout has not passed.
\<close>

theorem cb_late_probe_closes_open_breaker:
  "\<exists>\<rho> \<sigma> \<tau>. cb_reach \<rho> \<and> cb_st (cs_cb \<rho>) = HalfOpen \<and> cs_calls \<rho> = [Normal, Probe] \<and>
     cb_step \<rho> \<sigma> \<and> cs_cb \<sigma> = cb_report Normal (Err ()) 11 11 (cs_cb \<rho>) \<and> cs_calls \<sigma> = [Probe] \<and>
     cb_reach \<sigma> \<and> cb_st (cs_cb \<sigma>) = Open \<and>
     time_sub 12 (lastFailure (cs_cb \<sigma>)) < Timeout (cb_cfg (cs_cb \<sigma>)) \<and>
     cb_step \<sigma> \<tau> \<and> cs_cb \<tau> = cb_report Probe (Ok :: unit outcome) 12 12 (cs_cb \<sigma>) \<and> cs_calls \<tau> = [] \<and>
     cb_st (cs_cb \<tau>) = Closed"
proof (intro exI conjI)
  let ?\<rho> = "\<lparr>cs_cb = cb_one HalfOpen 1 0, cs_calls = [Normal, Probe], cs_era = 1\<rparr>"
  let ?\<sigma> = "\<lparr>cs_cb = cb_one Open 2 11, cs_calls = [Probe], cs_era = 1\<rparr>"
  let ?\<tau> = "\<lparr>cs_cb = cb_one Closed 0 11, cs_calls = [], cs_era = 1\<rparr>"
  have w: "wrap64 2 = 2" "wrap64 1 = 1" by (simp_all add: go_defs)
  show r: "cb_reach ?\<rho>" by (rule cb_reach_probe(2))
  show s: "cb_step ?\<rho> ?\<sigma>"
    using cb_step.finished [of 0 ?\<rho> "Err ()" 11 11 "cb_one Open 2 11"]
    by (simp add: toOpen_def w Let_def)
  show "cb_reach ?\<sigma>" by (rule reach_step [OF r s])
  show "cb_step ?\<sigma> ?\<tau>"
    using cb_step.finished [of 0 ?\<sigma> Ok 12 12 "cb_one Closed 0 11"] by (simp add: toClosed_def w Let_def)
  show "cs_cb ?\<sigma> = cb_report Normal (Err ()) 11 11 (cs_cb ?\<rho>)"
    "cs_cb ?\<tau> = cb_report Probe (Ok :: unit outcome) 12 12 (cs_cb ?\<sigma>)"
    by (simp_all add: toOpen_def toClosed_def w Let_def)
qed (simp_all add: go_defs)

text \<open>
  Nor is a breaker that a probe has closed safe from a probe of an earlier half-open period
  that is still in flight: its failure opens the breaker again.
\<close>

theorem cb_late_probe_reopens_closed_breaker:
  "\<exists>\<rho> \<sigma> \<tau>. cb_reach \<rho> \<and> cs_calls \<rho> = [Probe, Probe] \<and>
     cb_step \<rho> \<sigma> \<and> cs_cb \<sigma> = cb_report Probe (Ok :: unit outcome) 22 22 (cs_cb \<rho>) \<and> cs_calls \<sigma> = [Probe] \<and>
     cb_st (cs_cb \<sigma>) = Closed \<and>
     cb_step \<sigma> \<tau> \<and> cs_cb \<tau> = cb_report Probe (Err ()) 23 23 (cs_cb \<sigma>) \<and> cs_calls \<tau> = [] \<and>
     cb_st (cs_cb \<tau>) = Open"
proof (intro exI conjI)
  let ?q = "\<lparr>cs_cb = cb_one HalfOpen 1 0, cs_calls = [Normal, Probe], cs_era = 1\<rparr>"
  let ?p = "\<lparr>cs_cb = cb_one Open 2 11, cs_calls = [Probe], cs_era = 1\<rparr>"
  let ?\<rho> = "\<lparr>cs_cb = cb_one HalfOpen 2 11, cs_calls = [Probe, Probe], cs_era = 1\<rparr>"
  let ?\<sigma> = "\<lparr>cs_cb = cb_one Closed 0 11, cs_calls = [Probe], cs_era = 1\<rparr>"
  let ?\<tau> = "\<lparr>cs_cb = cb_one Open 0 23, cs_calls = [], cs_era = 1\<rparr>"
  have w: "wrap64 2 = 2" "wrap64 1 = 1" "wrap64 0 = 0" by (simp_all add: go_defs)
  have "cb_step ?q ?p"
    using cb_step.finished [of 0 ?q "Err ()" 11 11 "cb_one Open 2 11"]
    by (simp add: toOpen_def w Let_def)
  then have r: "cb_reach ?p" by (rule reach_step [OF cb_reach_probe(2)])
  have "cb_step ?p ?\<rho>"
    using cb_step.admitted [of 21 ?p Probe "cb_one HalfOpen 2 11"]
    by (simp add: cb_admit_def cb_transitions new_era_def w go_defs)
  then show "cb_reach ?\<rho>" by (rule reach_step [OF r])
  show "cb_step ?\<rho> ?\<sigma>"
    using cb_step.finished [of 0 ?\<rho> Ok 22 22 "cb_one Closed 0 11"] by (simp add: toClosed_def w Let_def)
  show "cb_step ?\<sigma> ?\<tau>"
    using cb_step.finished [of 0 ?\<sigma> "Err ()" 23 23 "cb_one Open 0 23"] by (simp add: toOpen_def w Let_def)
  show "cs_cb ?\<sigma> = cb_report Probe (Ok :: unit outcome) 22 22 (cs_cb ?\<rho>)"
    "cs_cb ?\<tau> = cb_report Probe (Err ()) 23 23 (cs_cb ?\<sigma>)"
    by (simp_all add: toOpen_def toClosed_def w Let_def)
qed (simp_all add: go_defs)

end
