(* ===== verification/Worker_Pool.thy ===== *)
theory Worker_Pool
  imports Go_Prelude
begin

section \<open>The worker pool (\<open>pkg/pool/pool.go\<close>)\<close>

text \<open>
  Workers and callers are goroutines that share two buffered channels (tasks and results), a
  channel used as a semaphore, atomic counters, a mutex and a context. The state is a
  record of all of these with a program counter per goroutine; a step is what one goroutine
  does between two points where others can run: one section under the mutex, one channel
  operation (with the branch its select takes), or one atomic addition to a counter that
  others read. A send on a closed channel panics and ends the process: the state then records the
  crash and takes no further step. What a task returns is a choice of the step that
  executes it. Callbacks run between two steps of a worker and do not touch this state.

  The counters are unbounded numbers here; the code's are 64 and 32 bits wide.
\<close>

subsection \<open>Tasks, results, metrics\<close>

text \<open>A \<open>TaskFunc\<close>: its identifier and its function, which the pool only calls.\<close>

datatype 'f task = TaskFunc (task_ID: string) (task_fn: 'f)

text \<open>What \<open>Execute\<close> does: return a value and an error (\<^const>\<open>None\<close> for nil), or panic.\<close>

datatype 'v task_outcome = Return "'v option" "string option" | Panics string

record 'v result =
  r_TaskID :: string
  r_Value :: "'v option"
  r_Error :: "string option"
  r_StartTime :: time
  r_Duration :: duration

definition zero_result :: "'v result" where
  "zero_result = \<lparr>r_TaskID = '''', r_Value = None, r_Error = None, r_StartTime = 0, r_Duration = 0\<rparr>"

record pool_config =
  Workers :: i64
  QueueSize :: i64
  TaskTimeout :: duration
  ShutdownGrace :: duration

definition DefaultPoolConfig :: "i64 \<Rightarrow> pool_config" where
  "DefaultPoolConfig numCPU = \<lparr>Workers = numCPU, QueueSize = 1000, TaskTimeout = 30 * second, ShutdownGrace = 5 * second\<rparr>"

record metrics =
  ActiveWorkers :: int
  QueuedTasks :: int
  CompletedTasks :: int
  FailedTasks :: int
  PanickedTasks :: int
  TotalLatencyUs :: int
  TaskCount :: int

definition zero_metrics :: metrics where
  "zero_metrics = \<lparr>ActiveWorkers = 0, QueuedTasks = 0, CompletedTasks = 0, FailedTasks = 0,
     PanickedTasks = 0, TotalLatencyUs = 0, TaskCount = 0\<rparr>"

definition AverageLatency :: "metrics \<Rightarrow> duration" where
  "AverageLatency m = (if TaskCount m = 0 then 0 else wrap64 (go_div (TotalLatencyUs m) (TaskCount m) * 1000))"

text \<open>
  The counters \<open>executeTask\<close> changes, each by an \<open>atomic.AddInt64\<close> of its own: what is added to
  which counter.
\<close>

datatype counter = PanickedCounter | LatencyCounter | TaskCounter | FailedCounter | CompletedCounter

type_synonym counter_add = "counter \<times> int"

fun atomic_add :: "counter_add \<Rightarrow> metrics \<Rightarrow> metrics" where
  "atomic_add (PanickedCounter, n) m = m\<lparr>PanickedTasks := PanickedTasks m + n\<rparr>"
| "atomic_add (LatencyCounter, n) m = m\<lparr>TotalLatencyUs := TotalLatencyUs m + n\<rparr>"
| "atomic_add (TaskCounter, n) m = m\<lparr>TaskCount := TaskCount m + n\<rparr>"
| "atomic_add (FailedCounter, n) m = m\<lparr>FailedTasks := FailedTasks m + n\<rparr>"
| "atomic_add (CompletedCounter, n) m = m\<lparr>CompletedTasks := CompletedTasks m + n\<rparr>"

text \<open>
  \<open>executeTask\<close>: the recovered panic becomes an error. Besides the result, the additions it
  makes before it returns, in their order. The start and the duration come from the clock.
\<close>

definition executeTask ::
  "'f task \<Rightarrow> 'v task_outcome \<Rightarrow> time \<Rightarrow> duration \<Rightarrow> 'v result \<times> counter_add list" where
  "executeTask task out start dur =
     (let (val, err, adds) =
            (case out of
               Return v e \<Rightarrow> (v, e, [])
             | Panics r \<Rightarrow> (None, Some (''task panicked: '' @ r), [(PanickedCounter, 1)]));
          adds = adds @ [(LatencyCounter, go_div dur 1000), (TaskCounter, 1)];
          adds = adds @ (if err \<noteq> None then [(FailedCounter, 1)] else [(CompletedCounter, 1)])
      in (\<lparr>r_TaskID = task_ID task, r_Value = val, r_Error = err, r_StartTime = start, r_Duration = dur\<rparr>, adds))"

subsection \<open>Goroutines\<close>

text \<open>
  A worker: in its select; with a task received; told to stop while it holds a task; with the
  semaphore acquired; executing; with what the task returned, the semaphore still held and
  the additions to counters that \<open>executeTask\<close> has left to make; after releasing the semaphore; after the counter of active workers is lowered, about to send the result; returning; in
  its deferred function, with the count of workers lowered; and gone.
\<close>

datatype ('f, 'v) worker =
    WSelect
  | WTaken "'f task"
  | WStopping "'f task"
  | WAcquired "'f task"
  | WRunning "'f task"
  | WRan "'v result" "counter_add list"
  | WReleased "'v result"
  | WReport "'v result"
  | WLeaving
  | WLeft
  | WExited

text \<open>What a caller does after a submission: nothing, wait for its result, or go on with a batch.\<close>

datatype 'f after_submit = ThenReturn | ThenWait | ThenBatch "'f task list" "string set" nat

text \<open>A receive loop on the results: \<open>SubmitWait\<close>'s and the collector of \<open>SubmitBatch\<close>.\<close>

datatype ('f, 'v) receiver = Await "'f task" | Collect "string set" nat "'v result list"

text \<open>
  A caller: idle; in \<open>Submit\<close> past the mutex, past the counter, and after its select failed; in
  a receive loop, and putting back a result that is not its own; back from \<open>SubmitWait\<close> with
  a result; in the loop of \<open>SubmitBatch\<close>, and after it closed its channel; in \<open>Stop\<close>; in
  \<open>Shutdown\<close> before it closes the tasks, while it waits, after it cancelled, and before it
  closes the results; in \<open>Resize\<close>, before the second mutex and in either loop.
\<close>

datatype ('f, 'v) caller =
    CIdle
  | CEntered "'f task" "'f after_submit"
  | CSubmitting "'f task" "'f after_submit"
  | CRefused "'f task" "'f after_submit"
  | CReceiving "('f, 'v) receiver"
  | CPutBack "('f, 'v) receiver" "'v result"
  | CReturned "'f task" "'v result"
  | CBatch "'f task list" "string set" nat
  | CBatchClosed "string set" "'v result list"
  | CStopping
  | CClosing
  | CDraining
  | CCancelled
  | CFinishing
  | CResizing i64
  | CGrowing i64 nat
  | CShrinking i64 nat

datatype crash = SendOnClosedTasks | SendOnClosedResults | CloseOfClosedTasks | CloseOfClosedResults

subsection \<open>The state\<close>

record ('f, 'v) pool =
  p_config :: pool_config
  p_tasks :: "'f task list"
  p_tasks_closed :: bool
  p_results :: "'v result list"
  p_results_closed :: bool
  p_sem :: nat
  p_sem_cap :: nat
  p_metrics :: metrics
  p_cancelled :: bool
  p_started :: bool
  p_closed :: bool
  p_wg :: int
  p_workerCount :: int
  p_resizeMu :: bool
  p_workers :: "('f, 'v) worker list"
  p_callers :: "('f, 'v) caller list"
  p_crash :: "crash option"
  g_accepted :: "'f task multiset"
  g_executed :: "'f task multiset"
  g_log :: "('f task \<times> 'v task_outcome \<times> time \<times> duration) multiset"
  g_dropped :: "'f task multiset"
  g_resized :: bool

text \<open>
  \<open>NewWorkerPool\<close>; making a channel of a negative size panics. The last fields are ghosts:
  the tasks accepted, executed and dropped so far, the executions with what the task did and
  the clock read, and whether \<open>Resize\<close> passed its checks.
\<close>

definition NewWorkerPool :: "pool_config \<Rightarrow> nat \<Rightarrow> ('f, 'v) pool option" where
  "NewWorkerPool cfg callers =
     (if QueueSize cfg < 0 \<or> Workers cfg < 0 then None
      else Some \<lparr>p_config = cfg, p_tasks = [], p_tasks_closed = False, p_results = [], p_results_closed = False,
        p_sem = 0, p_sem_cap = nat (Workers cfg), p_metrics = zero_metrics, p_cancelled = False,
        p_started = False, p_closed = False, p_wg = 0, p_workerCount = 0, p_resizeMu = False,
        p_workers = [], p_callers = replicate callers CIdle, p_crash = None,
        g_accepted = {#}, g_executed = {#}, g_log = {#}, g_dropped = {#}, g_resized = False\<rparr>)"

definition p_cap :: "('f, 'v) pool \<Rightarrow> nat" where
  "p_cap p = nat (QueueSize (p_config p))"

text \<open>Loops that start goroutines: one \<open>wg.Add\<close>, one increment and one \<open>go\<close> each.\<close>

fun spawn :: "nat \<Rightarrow> ('f, 'v) pool \<Rightarrow> ('f, 'v) pool" where
  "spawn 0 p = p"
| "spawn (Suc k) p =
     spawn k (p\<lparr>p_wg := p_wg p + 1, p_workerCount := p_workerCount p + 1, p_workers := p_workers p @ [WSelect]\<rparr>)"

definition startLocked :: "('f, 'v) pool \<Rightarrow> ('f, 'v) pool" where
  "startLocked p =
     (if p_started p \<or> p_closed p then p
      else spawn (nat (Workers (p_config p))) (p\<lparr>p_started := True\<rparr>))"

text \<open>The section of \<open>Submit\<close> under the mutex: the pool is closed, or it is started if need be.\<close>

definition submit_enter :: "('f, 'v) pool \<Rightarrow> bool \<times> ('f, 'v) pool" where
  "submit_enter p = (if p_closed p then (False, p) else (True, if \<not> p_started p then startLocked p else p))"

definition add_queued :: "int \<Rightarrow> ('f, 'v) pool \<Rightarrow> ('f, 'v) pool" where
  "add_queued d p = p\<lparr>p_metrics := (p_metrics p)\<lparr>QueuedTasks := QueuedTasks (p_metrics p) + d\<rparr>\<rparr>"

definition add_active :: "int \<Rightarrow> ('f, 'v) pool \<Rightarrow> ('f, 'v) pool" where
  "add_active d p = p\<lparr>p_metrics := (p_metrics p)\<lparr>ActiveWorkers := ActiveWorkers (p_metrics p) + d\<rparr>\<rparr>"

definition set_worker :: "nat \<Rightarrow> ('f, 'v) worker \<Rightarrow> ('f, 'v) pool \<Rightarrow> ('f, 'v) pool" where
  "set_worker i w p = p\<lparr>p_workers := (p_workers p)[i := w]\<rparr>"

definition set_caller :: "nat \<Rightarrow> ('f, 'v) caller \<Rightarrow> ('f, 'v) pool \<Rightarrow> ('f, 'v) pool" where
  "set_caller j c p = p\<lparr>p_callers := (p_callers p)[j := c]\<rparr>"

definition crash_pool :: "crash \<Rightarrow> ('f, 'v) pool \<Rightarrow> ('f, 'v) pool" where
  "crash_pool c p = p\<lparr>p_crash := Some c\<rparr>"

text \<open>Sends with a default branch: on the tasks (a worker told to stop puts its task back), on the results.\<close>

definition try_put_task :: "'f task \<Rightarrow> ('f, 'v) pool \<Rightarrow> ('f, 'v) pool" where
  "try_put_task t p =
     (if p_tasks_closed p then crash_pool SendOnClosedTasks p
      else if length (p_tasks p) < p_cap p then p\<lparr>p_tasks := p_tasks p @ [t]\<rparr>
      else p\<lparr>g_dropped := add_mset t (g_dropped p)\<rparr>)"

definition try_put_result :: "'v result \<Rightarrow> ('f, 'v) pool \<Rightarrow> ('f, 'v) pool" where
  "try_put_result r p =
     (if p_results_closed p then crash_pool SendOnClosedResults p
      else if length (p_results p) < p_cap p then p\<lparr>p_results := p_results p @ [r]\<rparr>
      else p)"

text \<open>Closing a channel: a second close panics.\<close>

definition close_tasks :: "('f, 'v) pool \<Rightarrow> ('f, 'v) pool" where
  "close_tasks p = (if p_tasks_closed p then crash_pool CloseOfClosedTasks p else p\<lparr>p_tasks_closed := True\<rparr>)"

definition close_results :: "('f, 'v) pool \<Rightarrow> ('f, 'v) pool" where
  "close_results p =
     (if p_results_closed p then crash_pool CloseOfClosedResults p else p\<lparr>p_results_closed := True\<rparr>)"

text \<open>What a caller does once its submission has succeeded or failed.\<close>

fun submitted :: "'f task \<Rightarrow> bool \<Rightarrow> 'f after_submit \<Rightarrow> ('f, 'v) caller" where
  "submitted t ok ThenReturn = CIdle"
| "submitted t ok ThenWait = (if ok then CReceiving (Await t) else CIdle)"
| "submitted t ok (ThenBatch ts ids n) =
     (if ok then CBatch ts (insert (task_ID t) ids) (Suc n) else CBatch ts ids n)"

text \<open>What a receive loop does with a result: return it, keep it, or put it back.\<close>

fun on_result :: "('f, 'v) receiver \<Rightarrow> 'v result \<Rightarrow> ('f, 'v) caller" where
  "on_result (Await t) r =
     (if r_TaskID r = task_ID t then CReturned t r else CPutBack (Await t) r)"
| "on_result (Collect ids n got) r =
     (if r_TaskID r \<in> ids
      then (if Suc (length got) < n then CReceiving (Collect ids n (got @ [r])) else CBatchClosed ids (got @ [r]))
      else CPutBack (Collect ids n got) r)"

text \<open>
  \<open>SubmitBatchWait\<close> ranges over the closed channel of its batch. Before each append it looks
  at its context (one flag per look, true when the context is done); the result is what it
  returns and whether that is an error.
\<close>

fun batch_wait :: "bool list \<Rightarrow> 'v result list \<Rightarrow> 'v result list \<Rightarrow> 'v result list \<times> bool" where
  "batch_wait done [] got = (got, False)"
| "batch_wait [] (r # rs) got = batch_wait [] rs (got @ [r])"
| "batch_wait (d # done) (r # rs) got = (if d then (got, True) else batch_wait done rs (got @ [r]))"

text \<open>Reads.\<close>

definition QueueLength :: "('f, 'v) pool \<Rightarrow> int" where
  "QueueLength p = int (length (p_tasks p))"

definition pool_ActiveWorkers :: "('f, 'v) pool \<Rightarrow> int" where
  "pool_ActiveWorkers p = ActiveWorkers (p_metrics p)"

definition WorkerCount :: "('f, 'v) pool \<Rightarrow> int" where
  "WorkerCount p = p_workerCount p"

definition IsRunning :: "('f, 'v) pool \<Rightarrow> bool" where
  "IsRunning p \<longleftrightarrow> p_started p \<and> \<not> p_closed p"

text \<open>The test that ends \<open>WaitForDrain\<close>.\<close>

definition drained :: "('f, 'v) pool \<Rightarrow> bool" where
  "drained p \<longleftrightarrow> QueueLength p = 0 \<and> pool_ActiveWorkers p = 0"

subsection \<open>Steps of a worker\<close>

inductive worker_step :: "nat \<Rightarrow> ('f, 'v) pool \<Rightarrow> ('f, 'v) pool \<Rightarrow> bool" where
  w_cancelled:
    "i < length (p_workers p) \<Longrightarrow> p_workers p ! i = WSelect \<Longrightarrow> p_cancelled p \<Longrightarrow>
     worker_step i p (set_worker i WLeaving p)"
| w_take:
    "i < length (p_workers p) \<Longrightarrow> p_workers p ! i = WSelect \<Longrightarrow> p_tasks p = t # ts \<Longrightarrow>
     worker_step i p (set_worker i (WTaken t) (p\<lparr>p_tasks := ts\<rparr>))"
| w_closed:
    "i < length (p_workers p) \<Longrightarrow> p_workers p ! i = WSelect \<Longrightarrow> p_tasks p = [] \<Longrightarrow> p_tasks_closed p \<Longrightarrow>
     worker_step i p (set_worker i WLeaving p)"
| w_acquire:
    "i < length (p_workers p) \<Longrightarrow> p_workers p ! i = WTaken t \<Longrightarrow> p_sem p < p_sem_cap p \<Longrightarrow>
     worker_step i p (set_worker i (WAcquired t) (p\<lparr>p_sem := p_sem p + 1\<rparr>))"
| w_drop:
    "i < length (p_workers p) \<Longrightarrow> p_workers p ! i = WTaken t \<Longrightarrow> p_cancelled p \<Longrightarrow>
     worker_step i p (set_worker i WLeaving (p\<lparr>g_dropped := add_mset t (g_dropped p)\<rparr>))"
| w_put_back:
    "i < length (p_workers p) \<Longrightarrow> p_workers p ! i = WStopping t \<Longrightarrow>
     worker_step i p (try_put_task t (set_worker i WLeaving p))"
| w_hand_over:
    "i < length (p_workers p) \<Longrightarrow> p_workers p ! i = WStopping t \<Longrightarrow> p_tasks p = [] \<Longrightarrow> \<not> p_tasks_closed p \<Longrightarrow>
     k < length (p_workers p) \<Longrightarrow> p_workers p ! k = WSelect \<Longrightarrow>
     worker_step i p (set_worker k (WTaken t) (set_worker i WLeaving p))"
| w_active:
    "i < length (p_workers p) \<Longrightarrow> p_workers p ! i = WAcquired t \<Longrightarrow>
     worker_step i p (add_active 1 (set_worker i (WRunning t) p))"
| w_execute:
    "i < length (p_workers p) \<Longrightarrow> p_workers p ! i = WRunning t \<Longrightarrow>
     executeTask t out start dur = (r, adds) \<Longrightarrow>
     worker_step i p (set_worker i (WRan r adds)
       (p\<lparr>g_executed := add_mset t (g_executed p), g_log := add_mset (t, out, start, dur) (g_log p)\<rparr>))"
| w_count:
    "i < length (p_workers p) \<Longrightarrow> p_workers p ! i = WRan r (a # adds) \<Longrightarrow>
     worker_step i p (set_worker i (WRan r adds) (p\<lparr>p_metrics := atomic_add a (p_metrics p)\<rparr>))"
| w_release:
    "i < length (p_workers p) \<Longrightarrow> p_workers p ! i = WRan r [] \<Longrightarrow> 0 < p_sem p \<Longrightarrow>
     worker_step i p (set_worker i (WReleased r) (p\<lparr>p_sem := p_sem p - 1\<rparr>))"
| w_inactive:
    "i < length (p_workers p) \<Longrightarrow> p_workers p ! i = WReleased r \<Longrightarrow>
     worker_step i p (add_active (- 1) (set_worker i (WReport r) p))"
| w_report:
    "i < length (p_workers p) \<Longrightarrow> p_workers p ! i = WReport r \<Longrightarrow>
     worker_step i p (try_put_result r (set_worker i WSelect p))"
| w_report_to:
    "i < length (p_workers p) \<Longrightarrow> p_workers p ! i = WReport r \<Longrightarrow> p_results p = [] \<Longrightarrow> \<not> p_results_closed p \<Longrightarrow>
     j < length (p_callers p) \<Longrightarrow> p_callers p ! j = CReceiving rcv \<Longrightarrow>
     worker_step i p (set_caller j (on_result rcv r) (set_worker i WSelect p))"
| w_leave:
    "i < length (p_workers p) \<Longrightarrow> p_workers p ! i = WLeaving \<Longrightarrow>
     worker_step i p (set_worker i WLeft (p\<lparr>p_workerCount := p_workerCount p - 1\<rparr>))"
| w_done:
    "i < length (p_workers p) \<Longrightarrow> p_workers p ! i = WLeft \<Longrightarrow>
     worker_step i p (set_worker i WExited (p\<lparr>p_wg := p_wg p - 1\<rparr>))"

subsection \<open>Steps of a caller that submits\<close>

text \<open>
  The entry of a submission of any kind is the section under the mutex. The default branch
  of the select is taken when no other branch is ready.
\<close>

definition enter_submit :: "nat \<Rightarrow> 'f task \<Rightarrow> 'f after_submit \<Rightarrow> ('f, 'v) pool \<Rightarrow> ('f, 'v) pool" where
  "enter_submit j t k p =
     (case submit_enter p of
        (True, p) \<Rightarrow> set_caller j (CEntered t k) p
      | (False, p) \<Rightarrow> set_caller j (submitted t False k) p)"

inductive submit_step :: "nat \<Rightarrow> ('f, 'v) pool \<Rightarrow> ('f, 'v) pool \<Rightarrow> bool" where
  s_submit:
    "j < length (p_callers p) \<Longrightarrow> p_callers p ! j = CIdle \<Longrightarrow> k = ThenReturn \<or> k = ThenWait \<Longrightarrow>
     submit_step j p (enter_submit j t k p)"
| s_batch:
    "j < length (p_callers p) \<Longrightarrow> p_callers p ! j = CIdle \<Longrightarrow>
     submit_step j p (set_caller j (CBatch ts {} 0) p)"
| s_batch_next:
    "j < length (p_callers p) \<Longrightarrow> p_callers p ! j = CBatch (t # ts) ids n \<Longrightarrow>
     submit_step j p (enter_submit j t (ThenBatch ts ids n) p)"
| s_batch_all:
    "j < length (p_callers p) \<Longrightarrow> p_callers p ! j = CBatch [] ids n \<Longrightarrow>
     submit_step j p (set_caller j (if n = 0 then CBatchClosed ids [] else CReceiving (Collect ids n [])) p)"
| s_count:
    "j < length (p_callers p) \<Longrightarrow> p_callers p ! j = CEntered t k \<Longrightarrow>
     submit_step j p (add_queued 1 (set_caller j (CSubmitting t k) p))"
| s_send:
    "j < length (p_callers p) \<Longrightarrow> p_callers p ! j = CSubmitting t k \<Longrightarrow> \<not> p_tasks_closed p \<Longrightarrow>
     length (p_tasks p) < p_cap p \<Longrightarrow>
     submit_step j p (set_caller j (submitted t True k)
       (p\<lparr>p_tasks := p_tasks p @ [t], g_accepted := add_mset t (g_accepted p)\<rparr>))"
| s_send_to:
    "j < length (p_callers p) \<Longrightarrow> p_callers p ! j = CSubmitting t k \<Longrightarrow> \<not> p_tasks_closed p \<Longrightarrow> p_tasks p = [] \<Longrightarrow>
     i < length (p_workers p) \<Longrightarrow> p_workers p ! i = WSelect \<Longrightarrow>
     submit_step j p (set_worker i (WTaken t) (set_caller j (submitted t True k)
       (p\<lparr>g_accepted := add_mset t (g_accepted p)\<rparr>)))"
| s_send_closed:
    "j < length (p_callers p) \<Longrightarrow> p_callers p ! j = CSubmitting t k \<Longrightarrow> p_tasks_closed p \<Longrightarrow>
     submit_step j p (crash_pool SendOnClosedTasks p)"
| s_cancelled:
    "j < length (p_callers p) \<Longrightarrow> p_callers p ! j = CSubmitting t k \<Longrightarrow> p_cancelled p \<Longrightarrow>
     submit_step j p (set_caller j (CRefused t k) p)"
| s_full:
    "j < length (p_callers p) \<Longrightarrow> p_callers p ! j = CSubmitting t k \<Longrightarrow> \<not> p_cancelled p \<Longrightarrow> \<not> p_tasks_closed p \<Longrightarrow>
     \<not> length (p_tasks p) < p_cap p \<Longrightarrow>
     submit_step j p (set_caller j (CRefused t k) p)"
| s_uncount:
    "j < length (p_callers p) \<Longrightarrow> p_callers p ! j = CRefused t k \<Longrightarrow>
     submit_step j p (add_queued (- 1) (set_caller j (submitted t False k) p))"

subsection \<open>Steps of a caller that receives\<close>

text \<open>
  A closed channel that is empty delivers the zero result. The last step is a client that
  reads the channel \<open>Results\<close> returns.
\<close>

inductive receive_step :: "nat \<Rightarrow> ('f, 'v) pool \<Rightarrow> ('f, 'v) pool \<Rightarrow> bool" where
  r_receive:
    "j < length (p_callers p) \<Longrightarrow> p_callers p ! j = CReceiving rcv \<Longrightarrow> p_results p = r # rs \<Longrightarrow>
     receive_step j p (set_caller j (on_result rcv r) (p\<lparr>p_results := rs\<rparr>))"
| r_closed:
    "j < length (p_callers p) \<Longrightarrow> p_callers p ! j = CReceiving rcv \<Longrightarrow> p_results p = [] \<Longrightarrow> p_results_closed p \<Longrightarrow>
     receive_step j p (set_caller j (on_result rcv zero_result) p)"
| r_give_up:
    "j < length (p_callers p) \<Longrightarrow> p_callers p ! j = CReceiving (Await t) \<Longrightarrow>
     receive_step j p (set_caller j CIdle p)"
| r_cancelled:
    "j < length (p_callers p) \<Longrightarrow> p_callers p ! j = CReceiving (Collect ids n got) \<Longrightarrow> p_cancelled p \<Longrightarrow>
     receive_step j p (set_caller j (CBatchClosed ids got) p)"
| r_put_back:
    "j < length (p_callers p) \<Longrightarrow> p_callers p ! j = CPutBack rcv r \<Longrightarrow>
     receive_step j p (try_put_result r (set_caller j (CReceiving rcv) p))"
| r_hand_over:
    "j < length (p_callers p) \<Longrightarrow> p_callers p ! j = CPutBack rcv r \<Longrightarrow> p_results p = [] \<Longrightarrow> \<not> p_results_closed p \<Longrightarrow>
     k < length (p_callers p) \<Longrightarrow> p_callers p ! k = CReceiving rcv' \<Longrightarrow>
     receive_step j p (set_caller k (on_result rcv' r) (set_caller j (CReceiving rcv) p))"
| r_client:
    "p_results p = r # rs \<Longrightarrow> receive_step j p (p\<lparr>p_results := rs\<rparr>)"

subsection \<open>Steps of a caller that controls the pool\<close>

definition resize_allowed :: "i64 \<Rightarrow> ('f, 'v) pool \<Rightarrow> bool" where
  "resize_allowed n p \<longleftrightarrow> 0 < n \<and> p_started p \<and> \<not> p_closed p"

text \<open>\<open>Resize\<close> with the second mutex held: the loop it enters.\<close>

definition resize_loop :: "i64 \<Rightarrow> int \<Rightarrow> ('f, 'v) caller" where
  "resize_loop n current = (if current < n then CGrowing n (nat (n - current)) else CShrinking n (nat (current - n)))"

inductive control_step :: "nat \<Rightarrow> ('f, 'v) pool \<Rightarrow> ('f, 'v) pool \<Rightarrow> bool" where
  c_start:
    "j < length (p_callers p) \<Longrightarrow> p_callers p ! j = CIdle \<Longrightarrow>
     control_step j p (startLocked p)"
| c_stop:
    "j < length (p_callers p) \<Longrightarrow> p_callers p ! j = CIdle \<Longrightarrow>
     control_step j p (set_caller j CStopping (p\<lparr>p_cancelled := True\<rparr>))"
| c_shutdown:
    "j < length (p_callers p) \<Longrightarrow> p_callers p ! j = CIdle \<or> p_callers p ! j = CStopping \<Longrightarrow>
     control_step j p (if p_closed p then set_caller j CIdle p else set_caller j CClosing (p\<lparr>p_closed := True\<rparr>))"
| c_close_tasks:
    "j < length (p_callers p) \<Longrightarrow> p_callers p ! j = CClosing \<Longrightarrow>
     control_step j p (close_tasks (set_caller j CDraining p))"
| c_timeout:
    "j < length (p_callers p) \<Longrightarrow> p_callers p ! j = CDraining \<Longrightarrow>
     control_step j p (set_caller j CCancelled (p\<lparr>p_cancelled := True\<rparr>))"
| c_waited:
    "j < length (p_callers p) \<Longrightarrow> p_callers p ! j = CDraining \<or> p_callers p ! j = CCancelled \<Longrightarrow> p_wg p = 0 \<Longrightarrow>
     control_step j p (set_caller j CFinishing p)"
| c_close_results:
    "j < length (p_callers p) \<Longrightarrow> p_callers p ! j = CFinishing \<Longrightarrow>
     control_step j p (close_results (set_caller j CIdle p))"
| c_resize:
    "j < length (p_callers p) \<Longrightarrow> p_callers p ! j = CIdle \<Longrightarrow> resize_allowed n p \<Longrightarrow>
     control_step j p (set_caller j (CResizing n) (p\<lparr>g_resized := True\<rparr>))"
| c_resize_lock:
    "j < length (p_callers p) \<Longrightarrow> p_callers p ! j = CResizing n \<Longrightarrow> \<not> p_resizeMu p \<Longrightarrow>
     control_step j p (set_caller j (resize_loop n (p_workerCount p)) (p\<lparr>p_resizeMu := True\<rparr>))"
| c_grow:
    "j < length (p_callers p) \<Longrightarrow> p_callers p ! j = CGrowing n (Suc k) \<Longrightarrow>
     control_step j p (set_caller j (CGrowing n k) (spawn 1 p))"
| c_shrink:
    "j < length (p_callers p) \<Longrightarrow> p_callers p ! j = CShrinking n (Suc k) \<Longrightarrow>
     i < length (p_workers p) \<Longrightarrow> p_workers p ! i = WSelect \<Longrightarrow>
     control_step j p (set_caller j (CShrinking n k)
       (set_worker i WLeaving p))"
| c_shrink_taken:
    "j < length (p_callers p) \<Longrightarrow> p_callers p ! j = CShrinking n (Suc k) \<Longrightarrow>
     i < length (p_workers p) \<Longrightarrow> p_workers p ! i = WTaken t \<Longrightarrow>
     control_step j p (set_caller j (CShrinking n k) (set_worker i (WStopping t) p))"
| c_shrink_cancelled:
    "j < length (p_callers p) \<Longrightarrow> p_callers p ! j = CShrinking n (Suc k) \<Longrightarrow> p_cancelled p \<Longrightarrow>
     control_step j p (set_caller j CIdle (p\<lparr>p_resizeMu := False\<rparr>))"
| c_resized:
    "j < length (p_callers p) \<Longrightarrow> p_callers p ! j = CGrowing n 0 \<or> p_callers p ! j = CShrinking n 0 \<Longrightarrow>
     control_step j p (set_caller j CIdle
       (p\<lparr>p_resizeMu := False, p_config := (p_config p)\<lparr>Workers := n\<rparr>\<rparr>))"

subsection \<open>Runs of the pool\<close>

inductive pool_step :: "('f, 'v) pool \<Rightarrow> ('f, 'v) pool \<Rightarrow> bool" where
  by_worker: "p_crash p = None \<Longrightarrow> worker_step i p q \<Longrightarrow> pool_step p q"
| by_submit: "p_crash p = None \<Longrightarrow> submit_step j p q \<Longrightarrow> pool_step p q"
| by_receive: "p_crash p = None \<Longrightarrow> receive_step j p q \<Longrightarrow> pool_step p q"
| by_control: "p_crash p = None \<Longrightarrow> control_step j p q \<Longrightarrow> pool_step p q"

definition pool_start :: "pool_config \<Rightarrow> ('f, 'v) pool \<Rightarrow> bool" where
  "pool_start cfg p \<longleftrightarrow> (\<exists>n. NewWorkerPool cfg n = Some p)"

abbreviation pool_reach :: "pool_config \<Rightarrow> ('f, 'v) pool \<Rightarrow> bool" where
  "pool_reach cfg \<equiv> reach (pool_start cfg) pool_step"

lemma pool_next: "pool_reach cfg p \<Longrightarrow> pool_step p q \<Longrightarrow> pool_reach cfg q"
  by (rule reach_step)

end
