(* ===== verification/Pool_Invariants.thy ===== *)
theory Pool_Invariants
  imports Worker_Pool
begin

section \<open>What holds in every reachable state of the worker pool\<close>

text \<open>
  Each invariant relates a counter of the pool to a sum over its goroutines. The sums are
  of integers, so that the update of one goroutine is one rewrite; every invariant is an
  instance of \<^const>\<open>inductive_invariant\<close>.
\<close>

subsection \<open>Sums over goroutines\<close>

abbreviation wsum :: "(('f, 'v) worker \<Rightarrow> int) \<Rightarrow> ('f, 'v) pool \<Rightarrow> int" where
  "wsum f p \<equiv> sum_list (map f (p_workers p))"

abbreviation csum :: "(('f, 'v) caller \<Rightarrow> int) \<Rightarrow> ('f, 'v) pool \<Rightarrow> int" where
  "csum f p \<equiv> sum_list (map f (p_callers p))"

fun holds_sem :: "('f, 'v) worker \<Rightarrow> int" where
  "holds_sem (WAcquired t) = 1" | "holds_sem (WRunning t) = 1" | "holds_sem (WRan r adds) = 1"
| "holds_sem _ = 0"

fun counted_active :: "('f, 'v) worker \<Rightarrow> int" where
  "counted_active (WRunning t) = 1" | "counted_active (WRan r adds) = 1" | "counted_active (WReleased r) = 1"
| "counted_active _ = 0"

fun in_wg :: "('f, 'v) worker \<Rightarrow> int" where
  "in_wg WExited = 0" | "in_wg _ = 1"

fun in_count :: "('f, 'v) worker \<Rightarrow> int" where
  "in_count WExited = 0" | "in_count WLeft = 0" | "in_count _ = 1"

fun counted_queued :: "('f, 'v) caller \<Rightarrow> int" where
  "counted_queued (CSubmitting t k) = 1" | "counted_queued (CRefused t k) = 1"
| "counted_queued _ = 0"

lemma submitted_not_counted [simp]: "counted_queued (submitted t b k) = 0"
  by (cases k) auto

lemma on_result_not_counted [simp]: "counted_queued (on_result rcv r) = 0"
  by (cases rcv) auto

lemma resize_loop_not_counted [simp]: "counted_queued (resize_loop n c) = 0"
  by (simp add: resize_loop_def)

named_theorems pool_ops \<open>the operations a step is made of\<close>

lemmas [pool_ops] = set_worker_def set_caller_def add_active_def add_queued_def crash_pool_def
  try_put_task_def try_put_result_def close_tasks_def close_results_def enter_submit_def
  submit_enter_def startLocked_def

lemma spawn_eq:
  "spawn k p = p\<lparr>p_wg := p_wg p + int k, p_workerCount := p_workerCount p + int k,
     p_workers := p_workers p @ replicate k WSelect\<rparr>"
  by (induction k arbitrary: p) (simp_all add: replicate_append_same [symmetric] del: replicate_append_same)

subsection \<open>The semaphore and the counts of workers\<close>

definition sem_ok :: "pool_config \<Rightarrow> ('f, 'v) pool \<Rightarrow> bool" where
  "sem_ok cfg p \<longleftrightarrow> int (p_sem p) = wsum holds_sem p \<and> p_sem p \<le> p_sem_cap p \<and>
     p_sem_cap p = nat (Workers cfg) \<and> 0 \<le> Workers cfg \<and>
     p_wg p = wsum in_wg p \<and> p_workerCount p = wsum in_count p"

lemma sem_ok_init: "pool_start cfg p \<Longrightarrow> sem_ok cfg p"
  by (auto simp: pool_start_def NewWorkerPool_def sem_ok_def split: if_splits)

lemma sem_ok_worker: "worker_step i p q \<Longrightarrow> sem_ok cfg p \<Longrightarrow> sem_ok cfg q"
  by (induction rule: worker_step.induct)
    (auto simp: sem_ok_def pool_ops sum_list_map_update_int nth_list_update)

lemma sem_ok_submit: "submit_step i p q \<Longrightarrow> sem_ok cfg p \<Longrightarrow> sem_ok cfg q"
  by (induction rule: submit_step.induct)
    (auto simp: sem_ok_def pool_ops spawn_eq sum_list_replicate sum_list_map_update_int nth_list_update)

lemma sem_ok_receive: "receive_step i p q \<Longrightarrow> sem_ok cfg p \<Longrightarrow> sem_ok cfg q"
  by (induction rule: receive_step.induct) (auto simp: sem_ok_def pool_ops)

lemma sem_ok_control: "control_step i p q \<Longrightarrow> sem_ok cfg p \<Longrightarrow> sem_ok cfg q"
  by (induction rule: control_step.induct)
    (auto simp: sem_ok_def pool_ops spawn_eq sum_list_replicate sum_list_map_update_int)

lemma sem_ok_step: "pool_step p q \<Longrightarrow> sem_ok cfg p \<Longrightarrow> sem_ok cfg q"
  by (induction rule: pool_step.induct) (blast intro: sem_ok_worker sem_ok_submit sem_ok_receive sem_ok_control)+

interpretation ps: inductive_invariant "pool_start cfg" pool_step "sem_ok cfg" for cfg
  by unfold_locales (rule sem_ok_init, assumption, rule sem_ok_step, assumption+)

subsection \<open>The metrics\<close>

text \<open>
  The counters that record executions: what an execution adds to each in all, and what a
  worker has left to add. A counter and what is left for it make up the sum over all
  executions.
\<close>

fun read_counter :: "counter \<Rightarrow> metrics \<Rightarrow> int" where
  "read_counter PanickedCounter m = PanickedTasks m"
| "read_counter LatencyCounter m = TotalLatencyUs m"
| "read_counter TaskCounter m = TaskCount m"
| "read_counter FailedCounter m = FailedTasks m"
| "read_counter CompletedCounter m = CompletedTasks m"

fun amount :: "counter \<Rightarrow> counter_add \<Rightarrow> int" where
  "amount c (c', n) = (if c = c' then n else 0)"

fun still_to_add :: "counter \<Rightarrow> ('f, 'v) worker \<Rightarrow> int" where
  "still_to_add c (WRan r adds) = sum_list (map (amount c) adds)"
| "still_to_add c _ = 0"

fun succeeds :: "'v task_outcome \<Rightarrow> bool" where
  "succeeds (Return v e) = (e = None)" | "succeeds (Panics r) = False"

fun panics :: "'v task_outcome \<Rightarrow> bool" where
  "panics (Panics r) = True" | "panics (Return v e) = False"

fun recorded :: "counter \<Rightarrow> 'f task \<times> 'v task_outcome \<times> time \<times> duration \<Rightarrow> int" where
  "recorded PanickedCounter (t, out, start, dur) = of_bool (panics out)"
| "recorded LatencyCounter (t, out, start, dur) = go_div dur 1000"
| "recorded TaskCounter (t, out, start, dur) = 1"
| "recorded FailedCounter (t, out, start, dur) = of_bool (\<not> succeeds out)"
| "recorded CompletedCounter (t, out, start, dur) = of_bool (succeeds out)"

lemma executeTask_amounts:
  "executeTask t out start dur = (r, adds) \<Longrightarrow> sum_list (map (amount c) adds) = recorded c (t, out, start, dur)"
  by (cases c; cases out) (auto simp: executeTask_def Let_def split: if_splits)

lemma read_counter_add [simp]: "read_counter c (atomic_add a m) = read_counter c m + amount c a"
  by (cases a; cases "fst a"; cases c) auto

lemma atomic_add_others [simp]:
  "ActiveWorkers (atomic_add a m) = ActiveWorkers m" "QueuedTasks (atomic_add a m) = QueuedTasks m"
  by (cases a; cases "fst a"; auto)+

lemma read_counter_others [simp]:
  "read_counter c (m\<lparr>ActiveWorkers := n\<rparr>) = read_counter c m" "read_counter c (m\<lparr>QueuedTasks := n\<rparr>) = read_counter c m"
  by (cases c; simp)+

lemma read_counter_zero [simp]: "read_counter c zero_metrics = 0"
  by (cases c) (simp_all add: zero_metrics_def)

definition metrics_ok :: "('f, 'v) pool \<Rightarrow> bool" where
  "metrics_ok p \<longleftrightarrow>
     (\<forall>c. read_counter c (p_metrics p) + wsum (still_to_add c) p = (\<Sum>x\<in>#g_log p. recorded c x)) \<and>
     g_executed p = image_mset fst (g_log p) \<and>
     ActiveWorkers (p_metrics p) = wsum counted_active p \<and>
     QueuedTasks (p_metrics p) = int (size (g_accepted p)) + csum counted_queued p"

lemma metrics_ok_init: "pool_start cfg p \<Longrightarrow> metrics_ok p"
  by (auto simp: pool_start_def NewWorkerPool_def metrics_ok_def sum_list_replicate zero_metrics_def [THEN arg_cong, of ActiveWorkers]
      zero_metrics_def [THEN arg_cong, of QueuedTasks] split: if_splits)

lemma metrics_ok_worker: "worker_step i p q \<Longrightarrow> metrics_ok p \<Longrightarrow> metrics_ok q"
proof (induction rule: worker_step.induct)
  case (w_execute i p t out start dur r adds)
  then show ?case
    using executeTask_amounts [OF w_execute(3)]
    by (simp add: metrics_ok_def pool_ops sum_list_map_update_int)
qed (auto simp: metrics_ok_def pool_ops sum_list_map_update_int nth_list_update)

lemma metrics_ok_submit: "submit_step i p q \<Longrightarrow> metrics_ok p \<Longrightarrow> metrics_ok q"
  by (induction rule: submit_step.induct)
    (auto simp: metrics_ok_def Let_def pool_ops spawn_eq sum_list_replicate sum_list_map_update_int nth_list_update)

lemma metrics_ok_receive: "receive_step i p q \<Longrightarrow> metrics_ok p \<Longrightarrow> metrics_ok q"
  by (induction rule: receive_step.induct)
    (auto simp: metrics_ok_def Let_def pool_ops sum_list_map_update_int nth_list_update)

lemma metrics_ok_control: "control_step i p q \<Longrightarrow> metrics_ok p \<Longrightarrow> metrics_ok q"
  by (induction rule: control_step.induct)
    (auto simp: metrics_ok_def Let_def pool_ops spawn_eq sum_list_replicate sum_list_map_update_int nth_list_update)

lemma metrics_ok_step: "pool_step p q \<Longrightarrow> metrics_ok p \<Longrightarrow> metrics_ok q"
  by (induction rule: pool_step.induct)
    (blast intro: metrics_ok_worker metrics_ok_submit metrics_ok_receive metrics_ok_control)+

interpretation pm: inductive_invariant "pool_start cfg" pool_step metrics_ok for cfg
  by unfold_locales (rule metrics_ok_init, assumption, rule metrics_ok_step, assumption+)

subsection \<open>No task is lost or executed twice\<close>

fun carries :: "'f task \<Rightarrow> ('f, 'v) worker \<Rightarrow> int" where
  "carries t (WTaken u) = of_bool (t = u)" | "carries t (WStopping u) = of_bool (t = u)"
| "carries t (WAcquired u) = of_bool (t = u)" | "carries t (WRunning u) = of_bool (t = u)"
| "carries t _ = 0"

definition kept_ok :: "('f, 'v) pool \<Rightarrow> bool" where
  "kept_ok p \<longleftrightarrow> (p_crash p = None \<longrightarrow> (\<forall>t. int (count (g_accepted p) t) =
     int (count (mset (p_tasks p)) t) + wsum (carries t) p + int (count (g_executed p) t) + int (count (g_dropped p) t)))"

lemma kept_ok_init: "pool_start cfg p \<Longrightarrow> kept_ok p"
  by (auto simp: pool_start_def NewWorkerPool_def kept_ok_def split: if_splits)

lemma kept_ok_worker: "worker_step i p q \<Longrightarrow> p_crash p = None \<Longrightarrow> kept_ok p \<Longrightarrow> kept_ok q"
  by (induction rule: worker_step.induct)
    (auto simp: kept_ok_def pool_ops sum_list_map_update_int nth_list_update)

lemma kept_ok_submit: "submit_step i p q \<Longrightarrow> p_crash p = None \<Longrightarrow> kept_ok p \<Longrightarrow> kept_ok q"
  by (induction rule: submit_step.induct)
    (auto simp: kept_ok_def pool_ops spawn_eq sum_list_replicate sum_list_map_update_int nth_list_update)

lemma kept_ok_receive: "receive_step i p q \<Longrightarrow> p_crash p = None \<Longrightarrow> kept_ok p \<Longrightarrow> kept_ok q"
  by (induction rule: receive_step.induct) (auto simp: kept_ok_def pool_ops)

lemma kept_ok_control: "control_step i p q \<Longrightarrow> p_crash p = None \<Longrightarrow> kept_ok p \<Longrightarrow> kept_ok q"
  by (induction rule: control_step.induct)
    (auto simp: kept_ok_def pool_ops spawn_eq sum_list_replicate sum_list_map_update_int nth_list_update)

lemma kept_ok_step: "pool_step p q \<Longrightarrow> kept_ok p \<Longrightarrow> kept_ok q"
  by (induction rule: pool_step.induct)
    (blast intro: kept_ok_worker kept_ok_submit kept_ok_receive kept_ok_control)+

interpretation pk: inductive_invariant "pool_start cfg" pool_step kept_ok for cfg
  by unfold_locales (rule kept_ok_init, assumption, rule kept_ok_step, assumption+)

subsection \<open>Closing the channels\<close>

fun is_closing :: "('f, 'v) caller \<Rightarrow> int" where
  "is_closing CClosing = 1" | "is_closing _ = 0"

fun is_waiting :: "('f, 'v) caller \<Rightarrow> int" where
  "is_waiting CDraining = 1" | "is_waiting CCancelled = 1" | "is_waiting _ = 0"

fun is_finishing :: "('f, 'v) caller \<Rightarrow> int" where
  "is_finishing CFinishing = 1" | "is_finishing _ = 0"

fun resizes :: "('f, 'v) caller \<Rightarrow> bool" where
  "resizes (CResizing n) = True" | "resizes (CGrowing n k) = True" | "resizes (CShrinking n k) = True"
| "resizes _ = False"

fun needs_start :: "('f, 'v) caller \<Rightarrow> bool" where
  "needs_start (CEntered t k) = True" | "needs_start (CSubmitting t k) = True"
| "needs_start (CRefused t k) = True" | "needs_start c = resizes c"

lemma submitted_phase [simp]:
  "is_closing (submitted t b k) = 0" "is_waiting (submitted t b k) = 0" "is_finishing (submitted t b k) = 0"
  "\<not> resizes (submitted t b k)" "\<not> needs_start (submitted t b k)"
  by (cases k; simp)+

lemma on_result_phase [simp]:
  "is_closing (on_result rcv r) = 0" "is_waiting (on_result rcv r) = 0" "is_finishing (on_result rcv r) = 0"
  "\<not> resizes (on_result rcv r)" "\<not> needs_start (on_result rcv r)"
  by (cases rcv; simp)+

lemma resize_loop_phase [simp]:
  "is_closing (resize_loop n c) = 0" "is_waiting (resize_loop n c) = 0" "is_finishing (resize_loop n c) = 0"
  by (simp_all add: resize_loop_def)

lemma phase_bounds:
  fixes cs :: "('f, 'v) caller list"
  shows "0 \<le> sum_list (map is_closing cs)" "0 \<le> sum_list (map is_waiting cs)" "0 \<le> sum_list (map is_finishing cs)"
    and "j < length cs \<Longrightarrow> is_closing (cs ! j) \<le> sum_list (map is_closing cs)"
    and "j < length cs \<Longrightarrow> is_waiting (cs ! j) \<le> sum_list (map is_waiting cs)"
    and "j < length cs \<Longrightarrow> is_finishing (cs ! j) \<le> sum_list (map is_finishing cs)"
proof -
  have *: "0 \<le> is_closing c" "0 \<le> is_waiting c" "0 \<le> is_finishing c" for c :: "('f, 'v) caller"
    by (cases c; simp)+
  show "0 \<le> sum_list (map is_closing cs)" "0 \<le> sum_list (map is_waiting cs)" "0 \<le> sum_list (map is_finishing cs)"
    by (rule sum_list_map_nonneg, rule *)+
  show "j < length cs \<Longrightarrow> is_closing (cs ! j) \<le> sum_list (map is_closing cs)"
    "j < length cs \<Longrightarrow> is_waiting (cs ! j) \<le> sum_list (map is_waiting cs)"
    "j < length cs \<Longrightarrow> is_finishing (cs ! j) \<le> sum_list (map is_finishing cs)"
    by (rule member_le_sum_list_map [OF *(1)], simp, rule member_le_sum_list_map [OF *(2)], simp,
        rule member_le_sum_list_map [OF *(3)], simp)
qed

definition phases_ok :: "('f, 'v) pool \<Rightarrow> bool" where
  "phases_ok p \<longleftrightarrow>
     csum is_closing p + csum is_waiting p + csum is_finishing p + of_bool (p_results_closed p) = of_bool (p_closed p) \<and>
     csum is_waiting p + csum is_finishing p + of_bool (p_results_closed p) = of_bool (p_tasks_closed p) \<and>
     p_crash p \<noteq> Some CloseOfClosedTasks \<and> p_crash p \<noteq> Some CloseOfClosedResults"

lemma phases_ok_init: "pool_start cfg p \<Longrightarrow> phases_ok p"
  by (auto simp: pool_start_def NewWorkerPool_def phases_ok_def sum_list_replicate split: if_splits)

lemma phases_ok_worker: "worker_step i p q \<Longrightarrow> phases_ok p \<Longrightarrow> phases_ok q"
  by (induction rule: worker_step.induct)
    (auto simp: phases_ok_def pool_ops sum_list_map_update_int nth_list_update)

lemma phases_ok_submit: "submit_step i p q \<Longrightarrow> phases_ok p \<Longrightarrow> phases_ok q"
  by (induction rule: submit_step.induct)
    (auto simp: phases_ok_def pool_ops spawn_eq sum_list_map_update_int nth_list_update)

lemma phases_ok_receive: "receive_step i p q \<Longrightarrow> phases_ok p \<Longrightarrow> phases_ok q"
  by (induction rule: receive_step.induct)
    (auto simp: phases_ok_def pool_ops sum_list_map_update_int nth_list_update)

lemma phases_ok_control: "control_step i p q \<Longrightarrow> phases_ok p \<Longrightarrow> phases_ok q"
proof (induction rule: control_step.induct)
  case (c_close_tasks j p)
  with phase_bounds(1-3) [of "p_callers p"] phase_bounds(4) [of j "p_callers p"] show ?case
    by (auto simp: phases_ok_def pool_ops sum_list_map_update_int of_bool_def split: if_splits)
next
  case (c_close_results j p)
  with phase_bounds(1-3) [of "p_callers p"] phase_bounds(6) [of j "p_callers p"] show ?case
    by (auto simp: phases_ok_def pool_ops sum_list_map_update_int of_bool_def split: if_splits)
qed (auto simp: phases_ok_def pool_ops spawn_eq sum_list_map_update_int nth_list_update split: if_splits)

lemma phases_ok_step: "pool_step p q \<Longrightarrow> phases_ok p \<Longrightarrow> phases_ok q"
  by (induction rule: pool_step.induct)
    (blast intro: phases_ok_worker phases_ok_submit phases_ok_receive phases_ok_control)+

interpretation pc: inductive_invariant "pool_start cfg" pool_step phases_ok for cfg
  by unfold_locales (rule phases_ok_init, assumption, rule phases_ok_step, assumption+)

subsection \<open>Leaving the pool\<close>

fun leaves :: "('f, 'v) worker \<Rightarrow> bool" where
  "leaves WLeaving = True" | "leaves WLeft = True" | "leaves WExited = True" | "leaves _ = False"

fun is_stopping :: "('f, 'v) worker \<Rightarrow> bool" where
  "is_stopping (WStopping t) = True" | "is_stopping _ = False"

text \<open>
  A pool that is not started has no workers and accepted nothing; a started one has at
  least the configured number of them, unless it was configured with a negative number.
\<close>

definition start_ok :: "pool_config \<Rightarrow> ('f, 'v) pool \<Rightarrow> bool" where
  "start_ok cfg p \<longleftrightarrow>
     (\<forall>j < length (p_callers p). resizes (p_callers p ! j) \<longrightarrow> g_resized p) \<and>
     (p_started p \<longrightarrow> nat (Workers cfg) \<le> length (p_workers p)) \<and>
     (\<not> p_started p \<longrightarrow> p_workers p = [] \<and> g_accepted p = {#} \<and> p_config p = cfg \<and>
        (\<forall>j < length (p_callers p). \<not> needs_start (p_callers p ! j)))"

lemma start_ok_init: "pool_start cfg p \<Longrightarrow> start_ok cfg p"
  by (auto simp: pool_start_def NewWorkerPool_def start_ok_def split: if_splits)

lemma start_ok_worker: "worker_step i p q \<Longrightarrow> start_ok cfg p \<Longrightarrow> start_ok cfg q"
  by (induction rule: worker_step.induct) (auto simp: start_ok_def pool_ops nth_list_update)

lemma start_ok_submit: "submit_step i p q \<Longrightarrow> start_ok cfg p \<Longrightarrow> start_ok cfg q"
  by (induction rule: submit_step.induct) (auto simp: start_ok_def pool_ops spawn_eq nth_list_update)

lemma start_ok_receive: "receive_step i p q \<Longrightarrow> start_ok cfg p \<Longrightarrow> start_ok cfg q"
proof (induction rule: receive_step.induct)
qed (auto simp: start_ok_def pool_ops nth_list_update)

lemma start_ok_control: "control_step i p q \<Longrightarrow> start_ok cfg p \<Longrightarrow> start_ok cfg q"
  by (induction rule: control_step.induct)
    (auto simp: start_ok_def pool_ops spawn_eq nth_list_update resize_allowed_def)

lemma start_ok_step: "pool_step p q \<Longrightarrow> start_ok cfg p \<Longrightarrow> start_ok cfg q"
  by (induction rule: pool_step.induct)
    (blast intro: start_ok_worker start_ok_submit start_ok_receive start_ok_control)+

interpretation pstart: inductive_invariant "pool_start cfg" pool_step "start_ok cfg" for cfg
  by unfold_locales (rule start_ok_init, assumption, rule start_ok_step, assumption+)

text \<open>
  Without a resize the workers that started are gone when \<open>Shutdown\<close> has waited for them, and
  no later step starts others; and no worker is ever told to stop.
\<close>

definition gone_ok :: "('f, 'v) pool \<Rightarrow> bool" where
  "gone_ok p \<longleftrightarrow> (\<not> g_resized p \<longrightarrow> 0 < csum is_finishing p \<or> p_results_closed p \<longrightarrow>
     (\<forall>i < length (p_workers p). p_workers p ! i = WExited)) \<and>
   (\<not> g_resized p \<longrightarrow> (\<forall>i < length (p_workers p). \<not> is_stopping (p_workers p ! i)))"

lemma gone_ok_worker: "worker_step i p q \<Longrightarrow> gone_ok p \<Longrightarrow> gone_ok q"
  by (induction rule: worker_step.induct)
    (auto simp: gone_ok_def pool_ops sum_list_map_update_int nth_list_update)

lemma finishing_closed:
  assumes "phases_ok p" and "0 < csum is_finishing p \<or> p_results_closed p"
  shows "p_closed p" and "p_tasks_closed p"
  using assms phase_bounds(1-3) [of "p_callers p"] by (auto simp: phases_ok_def of_bool_def split: if_splits)

lemma startLocked_gone: "phases_ok p \<Longrightarrow> gone_ok p \<Longrightarrow> gone_ok (startLocked p)"
  using finishing_closed [of p] by (auto simp: gone_ok_def startLocked_def spawn_eq nth_append)

lemma startLocked_same [simp]:
  "p_callers (startLocked p) = p_callers p" "p_tasks (startLocked p) = p_tasks p" "p_crash (startLocked p) = p_crash p"
  "g_resized (startLocked p) = g_resized p" "p_results_closed (startLocked p) = p_results_closed p"
  "p_tasks_closed (startLocked p) = p_tasks_closed p" "p_cancelled (startLocked p) = p_cancelled p"
  "g_dropped (startLocked p) = g_dropped p" "g_accepted (startLocked p) = g_accepted p"
  by (simp_all add: startLocked_def spawn_eq)

lemma gone_ok_submit: "submit_step j p q \<Longrightarrow> phases_ok p \<Longrightarrow> gone_ok p \<Longrightarrow> gone_ok q"
proof (induction rule: submit_step.induct)
  case (s_submit j p k t)
  with startLocked_gone [OF s_submit(4,5)] show ?case
    by (auto simp: gone_ok_def pool_ops(2) enter_submit_def submit_enter_def sum_list_map_update_int)
next
  case (s_batch_next j p t ts ids n)
  with startLocked_gone [OF s_batch_next(3,4)] show ?case
    by (auto simp: gone_ok_def pool_ops(2) enter_submit_def submit_enter_def sum_list_map_update_int)
qed (auto simp: gone_ok_def pool_ops sum_list_map_update_int nth_list_update)

lemma gone_ok_receive: "receive_step j p q \<Longrightarrow> gone_ok p \<Longrightarrow> gone_ok q"
  by (induction rule: receive_step.induct)
    (auto simp: gone_ok_def pool_ops sum_list_map_update_int nth_list_update)

lemma wg_zero_gone:
  assumes "sem_ok cfg p" and "p_wg p = 0" and "i < length (p_workers p)"
  shows "p_workers p ! i = WExited"
proof -
  have "0 \<le> in_wg w" for w :: "('a, 'b) worker" by (cases w) auto
  then have "in_wg (p_workers p ! i) \<le> wsum in_wg p"
    using assms(3) by (intro member_le_sum_list_map) simp_all
  then show ?thesis using assms by (cases "p_workers p ! i") (simp_all add: sem_ok_def)
qed

lemma gone_ok_control:
  "control_step j p q \<Longrightarrow> sem_ok cfg p \<Longrightarrow> phases_ok p \<Longrightarrow> start_ok cfg p \<Longrightarrow> gone_ok p \<Longrightarrow> gone_ok q"
proof (induction rule: control_step.induct)
  case (c_start j p)
  then show ?case using startLocked_gone by blast
next
  case (c_waited j p)
  with wg_zero_gone [OF c_waited(4) c_waited(3)] show ?case by (simp add: gone_ok_def set_caller_def)
next
  case (c_close_results j p)
  with phase_bounds(6) [of j "p_callers p"] show ?case by (simp add: gone_ok_def pool_ops)
qed (auto simp: gone_ok_def start_ok_def pool_ops sum_list_map_update_int nth_list_update)

text \<open>
  Without a resize or a cancellation a worker leaves only when the queue is closed and empty,
  and no task is dropped.
\<close>

definition grace_ok :: "('f, 'v) pool \<Rightarrow> bool" where
  "grace_ok p \<longleftrightarrow> (\<not> g_resized p \<longrightarrow> \<not> p_cancelled p \<longrightarrow> p_crash p = None \<longrightarrow> g_dropped p = {#} \<and>
     (\<forall>i < length (p_workers p). leaves (p_workers p ! i) \<longrightarrow> p_tasks_closed p \<and> p_tasks p = []))"

lemma grace_ok_worker: "worker_step i p q \<Longrightarrow> p_crash p = None \<Longrightarrow> gone_ok p \<Longrightarrow> grace_ok p \<Longrightarrow> grace_ok q"
  by (induction rule: worker_step.induct)
    (auto simp: grace_ok_def gone_ok_def pool_ops nth_list_update)

lemma grace_ok_submit: "submit_step j p q \<Longrightarrow> p_crash p = None \<Longrightarrow> grace_ok p \<Longrightarrow> grace_ok q"
  by (induction rule: submit_step.induct)
    (auto simp: grace_ok_def pool_ops spawn_eq nth_list_update nth_append)

lemma grace_ok_receive: "receive_step j p q \<Longrightarrow> p_crash p = None \<Longrightarrow> grace_ok p \<Longrightarrow> grace_ok q"
  by (induction rule: receive_step.induct) (auto simp: grace_ok_def pool_ops nth_list_update)

lemma grace_ok_control: "control_step j p q \<Longrightarrow> start_ok cfg p \<Longrightarrow> p_crash p = None \<Longrightarrow> grace_ok p \<Longrightarrow> grace_ok q"
  by (induction rule: control_step.induct)
    (auto simp: grace_ok_def start_ok_def pool_ops spawn_eq nth_list_update nth_append)

definition exits_ok :: "pool_config \<Rightarrow> ('f, 'v) pool \<Rightarrow> bool" where
  "exits_ok cfg p \<longleftrightarrow> sem_ok cfg p \<and> phases_ok p \<and> start_ok cfg p \<and> gone_ok p \<and> grace_ok p"

lemma exits_ok_init: "pool_start cfg p \<Longrightarrow> exits_ok cfg p"
  using sem_ok_init [of cfg p] phases_ok_init [of cfg p] start_ok_init [of cfg p]
  by (auto simp: exits_ok_def pool_start_def NewWorkerPool_def gone_ok_def grace_ok_def sum_list_replicate split: if_splits)

lemma exits_ok_step: "pool_step p q \<Longrightarrow> exits_ok cfg p \<Longrightarrow> exits_ok cfg q"
proof -
  assume st: "pool_step p q" and ok: "exits_ok cfg p"
  have "sem_ok cfg q" "phases_ok q" "start_ok cfg q"
    using st ok sem_ok_step phases_ok_step start_ok_step unfolding exits_ok_def by blast+
  moreover from st ok have "gone_ok q"
    by (induction rule: pool_step.induct)
      (auto simp: exits_ok_def dest: gone_ok_worker gone_ok_submit gone_ok_receive gone_ok_control)
  moreover from st ok have "grace_ok q"
    by (induction rule: pool_step.induct)
      (auto simp: exits_ok_def dest: grace_ok_worker grace_ok_submit grace_ok_receive grace_ok_control)
  ultimately show ?thesis by (simp add: exits_ok_def)
qed

interpretation pe: inductive_invariant "pool_start cfg" pool_step "exits_ok cfg" for cfg
  by unfold_locales (rule exits_ok_init, assumption, rule exits_ok_step, assumption+)

end
