(* ===== verification/Pool_Runs.thy ===== *)
theory Pool_Runs
  imports Worker_Pool
begin

section \<open>Runs of a small worker pool\<close>

text \<open>
  A pool with one worker, a queue of one task and two callers, taken through the runs its
  properties are about: a task that is submitted, executed and returned, and the shutdown
  after it; a resize; and the runs on which the process crashes.
\<close>

definition demo_config :: pool_config where
  "demo_config = \<lparr>Workers = 1, QueueSize = 1, TaskTimeout = 0, ShutdownGrace = 0\<rparr>"

abbreviation demo_task :: "unit task" where
  "demo_task \<equiv> TaskFunc ''a'' ()"

abbreviation demo_result :: "nat result" where
  "demo_result \<equiv> \<lparr>r_TaskID = ''a'', r_Value = Some 7, r_Error = None, r_StartTime = 0, r_Duration = 0\<rparr>"

definition demo :: "(unit, nat) worker list \<Rightarrow> (unit, nat) caller list \<Rightarrow> (unit, nat) pool" where
  "demo ws cs = \<lparr>p_config = demo_config, p_tasks = [], p_tasks_closed = False, p_results = [], p_results_closed = False,
     p_sem = 0, p_sem_cap = 1, p_metrics = zero_metrics, p_cancelled = False,
     p_started = True, p_closed = False, p_wg = 1, p_workerCount = 1, p_resizeMu = False,
     p_workers = ws, p_callers = cs, p_crash = None,
     g_accepted = {#}, g_executed = {#}, g_log = {#}, g_dropped = {#}, g_resized = False\<rparr>"

definition demo_metrics :: "int \<Rightarrow> int \<Rightarrow> int \<Rightarrow> metrics" where
  "demo_metrics active queued finished = zero_metrics\<lparr>ActiveWorkers := active, QueuedTasks := queued,
     CompletedTasks := finished, TaskCount := finished\<rparr>"

lemmas demo_defs = demo_def demo_config_def demo_metrics_def zero_metrics_def p_cap_def
  set_worker_def set_caller_def add_active_def add_queued_def crash_pool_def try_put_task_def
  try_put_result_def close_tasks_def close_results_def enter_submit_def submit_enter_def startLocked_def

text \<open>A call of \<open>SubmitWait\<close>, up to the accepted task.\<close>

abbreviation "demo_new \<equiv> (demo [] [CIdle, CIdle])\<lparr>p_started := False, p_wg := 0, p_workerCount := 0\<rparr>"

abbreviation "demo_entered \<equiv> demo [WSelect] [CEntered demo_task ThenWait, CIdle]"

abbreviation "demo_accepted w c \<equiv>
  (demo [w] [CReceiving (Await demo_task), c])\<lparr>p_metrics := demo_metrics 0 1 0, g_accepted := {#demo_task#}\<rparr>"

lemma demo_reach_new: "pool_reach demo_config demo_new"
  by (rule reach_init, unfold pool_start_def, rule exI [of _ 2])
    (simp add: NewWorkerPool_def demo_defs numeral_2_eq_2)

lemma demo_reach_entered: "pool_reach demo_config demo_entered"
proof -
  have s1: "pool_step demo_new demo_entered"
    using by_submit [OF _ s_submit [of 0 demo_new ThenWait demo_task]] by (simp add: demo_defs)
  show ?thesis
    by (rule pool_next [OF demo_reach_new s1])
qed

lemma demo_reach_queued: "pool_reach demo_config ((demo_accepted WSelect CIdle)\<lparr>p_tasks := [demo_task]\<rparr>)"
proof -
  let ?p = "(demo [WSelect] [CSubmitting demo_task ThenWait, CIdle])\<lparr>p_metrics := demo_metrics 0 1 0\<rparr>"
  let ?q = "(demo_accepted WSelect CIdle)\<lparr>p_tasks := [demo_task]\<rparr>"
  have s1: "pool_step demo_entered ?p"
    using by_submit [OF _ s_count [of 0 demo_entered demo_task ThenWait]] by (simp add: demo_defs)
  have s2: "pool_step ?p ?q"
    using by_submit [OF _ s_send [of 0 ?p demo_task ThenWait]] by (simp add: demo_defs)
  show ?thesis
    by (rule pool_next [OF pool_next [OF demo_reach_entered s1] s2])
qed

lemma demo_reach_taken: "pool_reach demo_config (demo_accepted (WTaken demo_task) CIdle)"
proof -
  let ?p = "(demo_accepted WSelect CIdle)\<lparr>p_tasks := [demo_task]\<rparr>"
  have s1: "pool_step ?p (demo_accepted (WTaken demo_task) CIdle)"
    using by_worker [OF _ w_take [of 0 ?p demo_task "[]"]] by (simp add: demo_defs)
  show ?thesis
    by (rule pool_next [OF demo_reach_queued s1])
qed

lemma demo_reach_running:
  "pool_reach demo_config ((demo_accepted (WRunning demo_task) CIdle)\<lparr>p_sem := 1, p_metrics := demo_metrics 1 1 0\<rparr>)"
proof -
  let ?o = "demo_accepted (WTaken demo_task) CIdle"
  let ?p = "(demo_accepted (WAcquired demo_task) CIdle)\<lparr>p_sem := 1\<rparr>"
  let ?q = "(demo_accepted (WRunning demo_task) CIdle)\<lparr>p_sem := 1, p_metrics := demo_metrics 1 1 0\<rparr>"
  have s1: "pool_step ?o ?p"
    using by_worker [OF _ w_acquire [of 0 ?o demo_task]] by (simp add: demo_defs)
  have s2: "pool_step ?p ?q"
    using by_worker [OF _ w_active [of 0 ?p demo_task]] by (simp add: demo_defs)
  show ?thesis
    by (rule pool_next [OF pool_next [OF demo_reach_taken s1] s2])
qed

text \<open>The task is executed and its result returned.\<close>

abbreviation "demo_after w c1 c2 \<equiv>
  (demo [w] [c1, c2])\<lparr>p_metrics := demo_metrics 0 1 1, g_accepted := {#demo_task#}, g_executed := {#demo_task#},
     g_log := {#(demo_task, Return (Some 7) None, 0, 0)#}\<rparr>"

text \<open>A worker makes the additions it has left.\<close>

lemma pool_counts:
  "pool_reach cfg p \<Longrightarrow> p_crash p = None \<Longrightarrow> i < length (p_workers p) \<Longrightarrow> p_workers p ! i = WRan r adds \<Longrightarrow>
     pool_reach cfg (set_worker i (WRan r []) (p\<lparr>p_metrics := fold atomic_add adds (p_metrics p)\<rparr>))"
proof (induction adds arbitrary: p)
  case Nil
  then have "p\<lparr>p_workers := (p_workers p)[i := WRan r []]\<rparr> = p" by (metis list_update_id pool.surjective pool.update_convs(15))
  with Nil show ?case by (simp add: set_worker_def)
next
  case (Cons a adds)
  let ?q = "set_worker i (WRan r adds) (p\<lparr>p_metrics := atomic_add a (p_metrics p)\<rparr>)"
  have "pool_reach cfg ?q"
    using pool_next [OF Cons.prems(1) by_worker [OF Cons.prems(2) w_count [OF Cons.prems(3,4)]]] .
  from Cons.IH [OF this] Cons.prems show ?case by (simp add: set_worker_def)
qed

lemma demo_reach_returned: "pool_reach demo_config (demo_after WSelect (CReturned demo_task demo_result) CIdle)"
proof -
  let ?p = "(demo_accepted (WRunning demo_task) CIdle)\<lparr>p_sem := 1, p_metrics := demo_metrics 1 1 0\<rparr>"
  let ?c = "CReceiving (Await demo_task)"
  let ?adds = "[(LatencyCounter, 0), (TaskCounter, 1), (CompletedCounter, 1)]"
  let ?p' = "(demo_after (WRan demo_result ?adds) ?c CIdle)\<lparr>p_sem := 1, p_metrics := demo_metrics 1 1 0\<rparr>"
  let ?q = "(demo_after (WRan demo_result []) ?c CIdle)\<lparr>p_sem := 1, p_metrics := demo_metrics 1 1 1\<rparr>"
  let ?r = "(demo_after (WReleased demo_result) ?c CIdle)\<lparr>p_metrics := demo_metrics 1 1 1\<rparr>"
  let ?s = "demo_after (WReport demo_result) ?c CIdle"
  let ?t = "(demo_after WSelect ?c CIdle)\<lparr>p_results := [demo_result]\<rparr>"
  let ?u = "demo_after WSelect (CReturned demo_task demo_result) CIdle"
  have "executeTask demo_task (Return (Some 7) None) 0 0 = (demo_result, ?adds)"
    by (simp add: executeTask_def go_defs)
  then have s1: "pool_step ?p ?p'"
    using by_worker [OF _ w_execute [of 0 ?p demo_task "Return (Some 7) None" 0 0 demo_result ?adds]]
    by (simp add: demo_def set_worker_def)
  have "pool_reach demo_config ?q"
    using pool_counts [OF pool_next [OF demo_reach_running s1], of 0 demo_result ?adds]
    by (simp add: demo_def set_worker_def demo_metrics_def zero_metrics_def)
  note q = this
  have s2: "pool_step ?q ?r"
    using by_worker [OF _ w_release [of 0 ?q demo_result]] by (simp add: demo_defs)
  have s3: "pool_step ?r ?s"
    using by_worker [OF _ w_inactive [of 0 ?r demo_result]] by (simp add: demo_defs)
  have s4: "pool_step ?s ?t"
    using by_worker [OF _ w_report [of 0 ?s demo_result]] by (simp add: demo_defs)
  have s5: "pool_step ?t ?u"
    using by_receive [OF _ r_receive [of 0 ?t "Await demo_task" demo_result "[]"]] by (simp add: demo_defs)
  show ?thesis
    by (rule pool_next [OF pool_next [OF pool_next [OF pool_next [OF q s2] s3] s4] s5])
qed

text \<open>The pool is shut down: the state with the queue closed, and the state at the end.\<close>

abbreviation "demo_shutting w c \<equiv>
  (demo_after w (CReturned demo_task demo_result) c)\<lparr>p_closed := True\<rparr>"

lemma demo_reach_closed:
  "pool_reach demo_config ((demo_shutting WSelect CDraining)\<lparr>p_tasks_closed := True\<rparr>)"
proof -
  let ?o = "demo_after WSelect (CReturned demo_task demo_result) CIdle"
  let ?p = "demo_shutting WSelect CClosing"
  let ?q = "(demo_shutting WSelect CDraining)\<lparr>p_tasks_closed := True\<rparr>"
  have s1: "pool_step ?o ?p"
    using by_control [OF _ c_shutdown [of 1 ?o]] by (simp add: demo_defs)
  have s2: "pool_step ?p ?q"
    using by_control [OF _ c_close_tasks [of 1 ?p]] by (simp add: demo_defs)
  show ?thesis
    by (rule pool_next [OF pool_next [OF demo_reach_returned s1] s2])
qed

abbreviation "demo_finished \<equiv> (demo_shutting WExited CIdle)
  \<lparr>p_tasks_closed := True, p_results_closed := True, p_workerCount := 0, p_wg := 0\<rparr>"

lemma demo_reach_finished: "pool_reach demo_config demo_finished"
proof -
  let ?o = "(demo_shutting WSelect CDraining)\<lparr>p_tasks_closed := True\<rparr>"
  let ?p = "(demo_shutting WLeaving CDraining)\<lparr>p_tasks_closed := True\<rparr>"
  let ?q = "(demo_shutting WLeft CDraining)\<lparr>p_tasks_closed := True, p_workerCount := 0\<rparr>"
  let ?r = "(demo_shutting WExited CDraining)\<lparr>p_tasks_closed := True, p_workerCount := 0, p_wg := 0\<rparr>"
  let ?s = "(demo_shutting WExited CFinishing)\<lparr>p_tasks_closed := True, p_workerCount := 0, p_wg := 0\<rparr>"
  have s1: "pool_step ?o ?p"
    using by_worker [OF _ w_closed [of 0 ?o]] by (simp add: demo_defs)
  have s2: "pool_step ?p ?q"
    using by_worker [OF _ w_leave [of 0 ?p]] by (simp add: demo_defs)
  have s3: "pool_step ?q ?r"
    using by_worker [OF _ w_done [of 0 ?q]] by (simp add: demo_defs)
  have s4: "pool_step ?r ?s"
    using by_control [OF _ c_waited [of 1 ?r]] by (simp add: demo_defs)
  have s5: "pool_step ?s demo_finished"
    using by_control [OF _ c_close_results [of 1 ?s]] by (simp add: demo_defs)
  show ?thesis
    by (rule pool_next [OF pool_next [OF pool_next [OF pool_next [OF pool_next [OF demo_reach_closed s1] s2] s3] s4] s5])
qed

text \<open>A call of \<open>Shutdown\<close> between the two halves of a submission.\<close>

lemma demo_reach_race:
  "pool_reach demo_config ((demo [WSelect] [CSubmitting demo_task ThenWait, CDraining])
     \<lparr>p_closed := True, p_tasks_closed := True, p_metrics := demo_metrics 0 1 0, p_crash := Some SendOnClosedTasks\<rparr>)"
proof -
  let ?p = "(demo [WSelect] [CEntered demo_task ThenWait, CClosing])\<lparr>p_closed := True\<rparr>"
  let ?q = "(demo [WSelect] [CEntered demo_task ThenWait, CDraining])\<lparr>p_closed := True, p_tasks_closed := True\<rparr>"
  let ?r = "(demo [WSelect] [CSubmitting demo_task ThenWait, CDraining])
     \<lparr>p_closed := True, p_tasks_closed := True, p_metrics := demo_metrics 0 1 0\<rparr>"
  let ?s = "?r\<lparr>p_crash := Some SendOnClosedTasks\<rparr>"
  have s1: "pool_step demo_entered ?p"
    using by_control [OF _ c_shutdown [of 1 demo_entered]] by (simp add: demo_defs)
  have s2: "pool_step ?p ?q"
    using by_control [OF _ c_close_tasks [of 1 ?p]] by (simp add: demo_defs)
  have s3: "pool_step ?q ?r"
    using by_submit [OF _ s_count [of 0 ?q demo_task ThenWait]] by (simp add: demo_defs)
  have s4: "pool_step ?r ?s"
    using by_submit [OF _ s_send_closed [of 0 ?r demo_task ThenWait]] by (simp add: demo_defs)
  show ?thesis
    by (rule pool_next [OF pool_next [OF pool_next [OF pool_next [OF demo_reach_entered s1] s2] s3] s4])
qed

text \<open>A call of \<open>Stop\<close> while \<open>SubmitWait\<close> waits.\<close>

abbreviation "demo_stopped w c \<equiv> (demo_accepted w c)
  \<lparr>p_cancelled := True, p_closed := True, p_tasks_closed := True, p_tasks := [demo_task]\<rparr>"

lemma demo_reach_stopped:
  "pool_reach demo_config ((demo_stopped WExited CIdle)\<lparr>p_workerCount := 0, p_wg := 0, p_results_closed := True\<rparr>)"
proof -
  let ?o = "(demo_accepted WSelect CIdle)\<lparr>p_tasks := [demo_task]\<rparr>"
  let ?p = "(demo_accepted WSelect CStopping)\<lparr>p_cancelled := True, p_tasks := [demo_task]\<rparr>"
  let ?q = "(demo_accepted WSelect CClosing)\<lparr>p_cancelled := True, p_closed := True, p_tasks := [demo_task]\<rparr>"
  let ?r = "demo_stopped WSelect CDraining"
  let ?s = "demo_stopped WLeaving CDraining"
  let ?t = "(demo_stopped WLeft CDraining)\<lparr>p_workerCount := 0\<rparr>"
  let ?u = "(demo_stopped WExited CDraining)\<lparr>p_workerCount := 0, p_wg := 0\<rparr>"
  let ?v = "(demo_stopped WExited CFinishing)\<lparr>p_workerCount := 0, p_wg := 0\<rparr>"
  let ?w = "(demo_stopped WExited CIdle)\<lparr>p_workerCount := 0, p_wg := 0, p_results_closed := True\<rparr>"
  have s1: "pool_step ?o ?p"
    using by_control [OF _ c_stop [of 1 ?o]] by (simp add: demo_defs)
  have s2: "pool_step ?p ?q"
    using by_control [OF _ c_shutdown [of 1 ?p]] by (simp add: demo_defs)
  have s3: "pool_step ?q ?r"
    using by_control [OF _ c_close_tasks [of 1 ?q]] by (simp add: demo_defs)
  have s4: "pool_step ?r ?s"
    using by_worker [OF _ w_cancelled [of 0 ?r]] by (simp add: demo_defs)
  have s5: "pool_step ?s ?t"
    using by_worker [OF _ w_leave [of 0 ?s]] by (simp add: demo_defs)
  have s6: "pool_step ?t ?u"
    using by_worker [OF _ w_done [of 0 ?t]] by (simp add: demo_defs)
  have s7: "pool_step ?u ?v"
    using by_control [OF _ c_waited [of 1 ?u]] by (simp add: demo_defs)
  have s8: "pool_step ?v ?w"
    using by_control [OF _ c_close_results [of 1 ?v]] by (simp add: demo_defs)
  show ?thesis
    by (rule pool_next [OF pool_next [OF pool_next [OF pool_next [OF pool_next [OF pool_next [OF pool_next [OF pool_next [OF demo_reach_queued s1] s2] s3] s4] s5] s6] s7] s8])
qed

lemma demo_reach_stopped_crash:
  "pool_reach demo_config ((demo_stopped WExited CIdle)
     \<lparr>p_workerCount := 0, p_wg := 0, p_results_closed := True, p_crash := Some SendOnClosedResults\<rparr>)"
proof -
  let ?o = "(demo_stopped WExited CIdle)\<lparr>p_workerCount := 0, p_wg := 0, p_results_closed := True\<rparr>"
  let ?p = "?o\<lparr>p_callers := [CPutBack (Await demo_task) zero_result, CIdle]\<rparr>"
  let ?q = "?o\<lparr>p_crash := Some SendOnClosedResults\<rparr>"
  have s1: "pool_step ?o ?p"
    using by_receive [OF _ r_closed [of 0 ?o "Await demo_task"]] by (simp add: demo_defs zero_result_def)
  have s2: "pool_step ?p ?q"
    using by_receive [OF _ r_put_back [of 0 ?p "Await demo_task" zero_result]] by (simp add: demo_defs)
  show ?thesis
    by (rule pool_next [OF pool_next [OF demo_reach_stopped s1] s2])
qed

text \<open>A resize of the pool to two workers.\<close>

abbreviation "demo_resized \<equiv> (demo [WSelect, WSelect] [CIdle, CIdle])
  \<lparr>p_wg := 2, p_workerCount := 2, g_resized := True, p_config := demo_config\<lparr>Workers := 2\<rparr>\<rparr>"

lemma demo_reach_resized: "pool_reach demo_config demo_resized"
proof -
  let ?o = "demo [WSelect] [CIdle, CIdle]"
  let ?p = "(demo [WSelect] [CResizing 2, CIdle])\<lparr>g_resized := True\<rparr>"
  let ?q = "(demo [WSelect] [CGrowing 2 1, CIdle])\<lparr>g_resized := True, p_resizeMu := True\<rparr>"
  let ?r = "(demo [WSelect, WSelect] [CGrowing 2 0, CIdle])
    \<lparr>p_wg := 2, p_workerCount := 2, g_resized := True, p_resizeMu := True\<rparr>"
  have s1: "pool_step demo_new ?o"
    using by_control [OF _ c_start [of 0 demo_new]] by (simp add: demo_defs)
  have s2: "pool_step ?o ?p"
    using by_control [OF _ c_resize [of 0 ?o 2]] by (simp add: demo_defs resize_allowed_def)
  have s3: "pool_step ?p ?q"
    using by_control [OF _ c_resize_lock [of 0 ?p 2]] by (simp add: demo_defs resize_loop_def)
  have s4: "pool_step ?q ?r"
    using by_control [OF _ c_grow [of 0 ?q 2 0]] by (simp add: demo_defs)
  have s5: "pool_step ?r demo_resized"
    using by_control [OF _ c_resized [of 0 ?r 2]] by (simp add: demo_defs)
  show ?thesis
    by (rule pool_next [OF pool_next [OF pool_next [OF pool_next [OF pool_next [OF demo_reach_new s1] s2] s3] s4] s5])
qed

end
