(* ===== verification/Pool_Properties.thy ===== *)
theory Pool_Properties
  imports Pool_Invariants Pool_Runs
begin

section \<open>What the worker pool promises\<close>

text \<open>
  The invariants of the pool read as properties of its interface: the bound on concurrency,
  the metrics, the fate of a task, shutdown and draining, and the origin of a result; then
  runs that show where the promises end.
\<close>

lemma sum_as_count:
  "(\<And>x. f x = of_bool (P x)) \<Longrightarrow> sum_list (map f xs) = int (length (filter P xs))"
  by (induction xs) (simp_all add: of_bool_def)

lemma sum_list_all_zero: "(\<And>x. x \<in> set xs \<Longrightarrow> f x = (0::int)) \<Longrightarrow> sum_list (map f xs) = 0"
  by (induction xs) simp_all

subsection \<open>Where results come from\<close>

fun held_result :: "('f, 'v) worker \<Rightarrow> 'v result list" where
  "held_result (WRan r adds) = [r]" | "held_result (WReleased r) = [r]" | "held_result (WReport r) = [r]"
| "held_result _ = []"

fun got_results :: "('f, 'v) receiver \<Rightarrow> 'v result list" where
  "got_results (Await t) = []" | "got_results (Collect ids n got) = got"

fun caller_results :: "('f, 'v) caller \<Rightarrow> 'v result list" where
  "caller_results (CReceiving rcv) = got_results rcv"
| "caller_results (CPutBack rcv r) = r # got_results rcv"
| "caller_results (CReturned t r) = [r]"
| "caller_results (CBatchClosed ids got) = got"
| "caller_results _ = []"

text \<open>
  What the result of an execution has to say: whose task it was, when and how long it ran, and
  the value and the error it returned, or its panic as an error. A result is genuine if it says
  that of one of the executions so far, or if it is what the closed channel delivers.
\<close>

definition faithful :: "'f task \<times> 'v task_outcome \<times> time \<times> duration \<Rightarrow> 'v result \<Rightarrow> bool" where
  "faithful x r \<longleftrightarrow> (case x of (t, out, start, dur) \<Rightarrow>
     r_TaskID r = task_ID t \<and> r_StartTime r = start \<and> r_Duration r = dur \<and>
     (case out of
        Return v e \<Rightarrow> r_Value r = v \<and> r_Error r = e
      | Panics c \<Rightarrow> r_Value r = None \<and> r_Error r = Some (''task panicked: '' @ c)))"

definition genuine :: "('f task \<times> 'v task_outcome \<times> time \<times> duration) multiset \<Rightarrow> bool \<Rightarrow> 'v result \<Rightarrow> bool" where
  "genuine L closed r \<longleftrightarrow> (\<exists>x \<in># L. faithful x r) \<or> closed \<and> r = zero_result"

abbreviation genuine_in :: "('f, 'v) pool \<Rightarrow> 'v result \<Rightarrow> bool" where
  "genuine_in p \<equiv> genuine (g_log p) (p_results_closed p)"

text \<open>Everything a receive loop keeps carries an identifier it asked for.\<close>

fun own_results :: "('f, 'v) caller \<Rightarrow> bool" where
  "own_results (CReceiving (Collect ids n got)) \<longleftrightarrow> r_TaskID ` set got \<subseteq> ids \<and> length got < n"
| "own_results (CPutBack (Collect ids n got) r) \<longleftrightarrow> r_TaskID ` set got \<subseteq> ids \<and> length got < n"
| "own_results (CReturned t r) \<longleftrightarrow> r_TaskID r = task_ID t"
| "own_results (CBatchClosed ids got) \<longleftrightarrow> r_TaskID ` set got \<subseteq> ids"
| "own_results _ \<longleftrightarrow> True"

definition results_ok :: "('f, 'v) pool \<Rightarrow> bool" where
  "results_ok p \<longleftrightarrow> (\<forall>r \<in> set (p_results p). genuine_in p r) \<and>
     (\<forall>i < length (p_workers p). \<forall>r \<in> set (held_result (p_workers p ! i)). genuine_in p r) \<and>
     (\<forall>j < length (p_callers p). (\<forall>r \<in> set (caller_results (p_callers p ! j)). genuine_in p r) \<and>
        own_results (p_callers p ! j))"

lemma genuine_add [intro]: "genuine E c r \<Longrightarrow> genuine (add_mset x E) c r"
  and genuine_close [intro]: "genuine E c r \<Longrightarrow> genuine E True r"
  and genuine_zero [simp]: "genuine E True zero_result"
  by (auto simp: genuine_def)

lemma executeTask_faithful:
  "executeTask t out start dur = (r, adds) \<Longrightarrow> faithful (t, out, start, dur) r"
  by (auto simp: faithful_def executeTask_def Let_def split: task_outcome.splits)

lemma executeTask_genuine:
  "executeTask t out start dur = (r, adds) \<Longrightarrow> genuine (add_mset (t, out, start, dur) L) c r"
  by (auto simp: genuine_def dest: executeTask_faithful)

lemma submitted_results [simp]: "caller_results (submitted t b k) = []" "own_results (submitted t b k)"
  by (cases k; simp)+

lemma resize_loop_results [simp]: "caller_results (resize_loop n c) = []" "own_results (resize_loop n c)"
  by (simp_all add: resize_loop_def)

lemma on_result_results:
  "r' \<in> set (caller_results (on_result rcv r)) \<Longrightarrow> r' = r \<or> r' \<in> set (got_results rcv)"
  by (cases rcv) (auto split: if_splits)

lemma on_result_own: "own_results (CReceiving rcv) \<Longrightarrow> own_results (on_result rcv r)"
  by (cases rcv) auto

lemma results_ok_init: "pool_start cfg p \<Longrightarrow> results_ok p"
  by (auto simp: pool_start_def NewWorkerPool_def results_ok_def split: if_splits)

lemma results_ok_worker: "worker_step i p q \<Longrightarrow> results_ok p \<Longrightarrow> results_ok q"
proof (induction rule: worker_step.induct)
  case (w_execute i p t out start dur r adds)
  then show ?case
    using executeTask_genuine [OF w_execute(3)]
    by (auto simp: results_ok_def pool_ops nth_list_update)
next
  case (w_report_to i p r j rcv)
  then show ?case
    using on_result_own [of rcv r]
    by (auto simp: results_ok_def pool_ops nth_list_update dest!: on_result_results)
qed (auto simp: results_ok_def pool_ops nth_list_update)

lemma results_ok_submit: "submit_step j p q \<Longrightarrow> results_ok p \<Longrightarrow> results_ok q"
  by (induction rule: submit_step.induct)
    (auto simp: results_ok_def pool_ops spawn_eq nth_list_update nth_append)

lemma results_ok_receive: "receive_step j p q \<Longrightarrow> results_ok p \<Longrightarrow> results_ok q"
proof (induction rule: receive_step.induct)
  case (r_receive j p rcv r rs)
  then show ?case
    using on_result_own [of rcv r]
    by (auto simp: results_ok_def pool_ops nth_list_update dest!: on_result_results)
next
  case (r_closed j p rcv)
  then show ?case
    using on_result_own [of rcv zero_result]
    by (auto simp: results_ok_def pool_ops nth_list_update dest!: on_result_results)
next
  case (r_put_back j p rcv r)
  then have "own_results (CReceiving rcv)" by (cases rcv) (fastforce simp: results_ok_def)+
  with r_put_back show ?case by (auto simp: results_ok_def pool_ops nth_list_update)
next
  case (r_hand_over j p rcv r k rcv')
  then have "own_results (CReceiving rcv)" by (cases rcv) (fastforce simp: results_ok_def)+
  with r_hand_over show ?case
    using on_result_own [of rcv' r]
    by (auto simp: results_ok_def pool_ops nth_list_update dest!: on_result_results)
qed (fastforce simp: results_ok_def pool_ops nth_list_update)+

lemma results_ok_control: "control_step j p q \<Longrightarrow> results_ok p \<Longrightarrow> results_ok q"
proof (induction rule: control_step.induct)
  case (c_close_results j p)
  have "genuine_in p r \<Longrightarrow> genuine (g_log p) True r" for r by (rule genuine_close)
  with c_close_results show ?case by (auto simp: results_ok_def pool_ops nth_list_update)
qed (auto simp: results_ok_def pool_ops spawn_eq nth_list_update nth_append)

lemma results_ok_step: "pool_step p q \<Longrightarrow> results_ok p \<Longrightarrow> results_ok q"
  by (induction rule: pool_step.induct)
    (blast intro: results_ok_worker results_ok_submit results_ok_receive results_ok_control)+

interpretation pr: inductive_invariant "pool_start cfg" pool_step results_ok for cfg
  by unfold_locales (rule results_ok_init, assumption, rule results_ok_step, assumption+)

subsection \<open>Draining\<close>

text \<open>How many steps the workers can still take once the queue is closed.\<close>

fun rank :: "('f, 'v) worker \<Rightarrow> nat" where
  "rank WExited = 0" | "rank WLeft = 1" | "rank WLeaving = 2" | "rank WSelect = 3" | "rank (WReport r) = 4"
| "rank (WReleased r) = 5" | "rank (WRan r adds) = 6 + length adds" | "rank (WRunning t) = 11"
| "rank (WAcquired t) = 12" | "rank (WTaken t) = 13" | "rank (WStopping t) = 13"

definition steps_left :: "('f, 'v) pool \<Rightarrow> nat" where
  "steps_left p = 11 * length (p_tasks p) + sum_list (map rank (p_workers p))"

lemma rank_update:
  "i < length ws \<Longrightarrow> rank w < rank (ws ! i) + k \<Longrightarrow> sum_list (map rank (ws[i := w])) < sum_list (map rank ws) + k"
  using sum_list_map_update [of i ws rank w] by linarith

lemma executeTask_length: "executeTask t out start dur = (r, adds) \<Longrightarrow> length adds \<le> 4"
  by (auto simp: executeTask_def Let_def split: task_outcome.splits if_splits)

lemma worker_step_decreases:
  "worker_step i p q \<Longrightarrow> p_tasks_closed p \<Longrightarrow> p_crash q = None \<Longrightarrow> steps_left q < steps_left p"
proof (induction rule: worker_step.induct)
  case (w_take i p t ts)
  then show ?case using rank_update [of i "p_workers p" "WTaken t" 11] by (simp add: steps_left_def pool_ops)
next
  case (w_execute i p t out start dur r adds)
  then show ?case
    using executeTask_length [OF w_execute(3)] rank_update [of i "p_workers p" "WRan r adds" 0]
    by (simp add: steps_left_def pool_ops)
qed (auto simp: steps_left_def pool_ops intro!: rank_update [where k = 0, simplified] split: if_splits)

lemma worker_can_step:
  assumes ok: "sem_ok cfg p" and "0 < Workers cfg" and "p_tasks_closed p"
    and i: "i < length (p_workers p)" and live: "p_workers p ! i \<noteq> WExited"
  shows "\<exists>k q. worker_step k p q"
proof -
  have unblocked: "\<exists>k q. worker_step k p q"
    if "k < length (p_workers p)" and "p_workers p ! k \<noteq> WExited" and "\<And>t. p_workers p ! k \<noteq> WTaken t" for k
  proof (cases "p_workers p ! k")
    case WSelect
    then show ?thesis using that assms(3) by (cases "p_tasks p") (blast intro: w_closed w_take)+
  next
    case (WRunning t)
    obtain r adds where "executeTask t (Return None None :: 'b task_outcome) 0 0 = (r, adds)" by fastforce
    then show ?thesis using w_execute [OF that(1) WRunning] by blast
  next
    case (WRan r adds)
    have "0 \<le> holds_sem w" for w :: "('a, 'b) worker" by (cases w) auto
    then have "holds_sem (p_workers p ! k) \<le> wsum holds_sem p"
      using that(1) by (intro member_le_sum_list_map) simp_all
    then have "0 < p_sem p" using ok WRan by (simp add: sem_ok_def)
    then show ?thesis using w_release [OF that(1)] w_count [OF that(1)] WRan by (cases adds) blast+
  qed (use that in \<open>blast intro: w_put_back w_active w_inactive w_report w_leave w_done\<close>)+
  show ?thesis
  proof (cases "p_sem p < p_sem_cap p")
    case True
    then show ?thesis using unblocked [OF i live] w_acquire [OF i _ True] by blast
  next
    case False
    then have "wsum holds_sem p = int (p_sem p)" "p_sem p = nat (Workers cfg)" using ok by (auto simp: sem_ok_def)
    then have "0 < wsum holds_sem p" using assms(2) by linarith
    then have "\<exists>w \<in> set (p_workers p). holds_sem w \<noteq> 0"
      using sum_list_all_zero [of "p_workers p" holds_sem] by force
    then obtain k where "k < length (p_workers p)" "holds_sem (p_workers p ! k) \<noteq> 0"
      by (metis in_set_conv_nth)
    then show ?thesis using unblocked [of k] by (cases "p_workers p ! k") auto
  qed
qed

subsection \<open>Properties\<close>

fun executes :: "('f, 'v) worker \<Rightarrow> bool" where
  "executes (WRunning t) = True" | "executes _ = False"

lemma sum_at_least:
  "(\<And>x. of_bool (P x) \<le> f x) \<Longrightarrow> int (length (filter P xs)) \<le> sum_list (map f xs)"
proof (induction xs)
  case (Cons x xs)
  then have "of_bool (P x) \<le> f x" by simp
  with Cons show ?case by (cases "P x") auto
qed simp

text \<open>
  C4. In every reachable state at most the configured number of tasks is being executed,
  whatever calls of \<open>Resize\<close>, \<open>Submit\<close> and \<open>Shutdown\<close> interleave: the semaphore's capacity
  is the number of workers the pool was created with, and every executing worker holds it.
  \<open>Resize\<close> does not change that capacity, so a pool that is resized up does not execute
  more tasks at a time.
\<close>

theorem pool_bounds_concurrency:
  fixes p :: "('f, 'v) pool"
  assumes "pool_reach cfg p"
  shows "int (length (filter executes (p_workers p))) \<le> int (p_sem p) \<and>
    p_sem p \<le> p_sem_cap p \<and> int (p_sem_cap p) = Workers cfg"
proof -
  have "of_bool (executes w) \<le> holds_sem w" for w :: "('f, 'v) worker" by (cases w) simp_all
  then have "int (length (filter executes (p_workers p))) \<le> wsum holds_sem p" by (rule sum_at_least)
  with ps.reach_inv [OF assms] show ?thesis by (simp add: sem_ok_def)
qed

theorem pool_bounds_concurrency_witness:
  "pool_reach demo_config demo_resized \<and> WorkerCount demo_resized = 2 \<and> int (p_sem_cap demo_resized) = 1"
  using pool_bounds_concurrency [OF demo_reach_resized] demo_reach_resized
  by (simp add: demo_config_def WorkerCount_def)

text \<open>
  The wait group and the number \<open>WorkerCount\<close> reports are the workers that have not
  returned yet, so the wait group is never negative.
\<close>

theorem pool_counts_workers:
  fixes p :: "('f, 'v) pool"
  assumes "pool_reach cfg p"
  shows "p_wg p = int (length (filter (\<lambda>w. w \<noteq> WExited) (p_workers p))) \<and>
    WorkerCount p = int (length (filter (\<lambda>w. w \<noteq> WExited \<and> w \<noteq> WLeft) (p_workers p)))"
proof -
  have "in_wg w = of_bool (w \<noteq> WExited)" for w :: "('f, 'v) worker" by (cases w) simp_all
  then have "wsum in_wg p = int (length (filter (\<lambda>w. w \<noteq> WExited) (p_workers p)))"
    by (rule sum_as_count)
  moreover have "in_count w = of_bool (w \<noteq> WExited \<and> w \<noteq> WLeft)" for w :: "('f, 'v) worker" by (cases w) simp_all
  then have "wsum in_count p = int (length (filter (\<lambda>w. w \<noteq> WExited \<and> w \<noteq> WLeft) (p_workers p)))"
    by (rule sum_as_count)
  moreover note ps.reach_inv [OF assms]
  ultimately show ?thesis by (simp add: sem_ok_def WorkerCount_def)
qed

theorem pool_counts_workers_witness:
  "pool_reach demo_config demo_resized \<and> p_wg demo_resized = 2"
  using pool_counts_workers [OF demo_reach_resized] demo_reach_resized by (simp add: demo_def)

text \<open>
  A worker that has made all its additions; and the order of the additions a worker has left:
  the outcome of a task is counted after the task.
\<close>

fun settled :: "('f, 'v) worker \<Rightarrow> bool" where
  "settled (WRan r adds) = (adds = [])" | "settled _ = True"

fun task_first :: "counter_add list \<Rightarrow> bool" where
  "task_first [] = True"
| "task_first (a # adds) \<longleftrightarrow> 0 \<le> sum_list (map (amount TaskCounter) (a # adds)) \<and>
     sum_list (map (amount TaskCounter) (a # adds)) \<le>
       sum_list (map (amount CompletedCounter) (a # adds)) + sum_list (map (amount FailedCounter) (a # adds)) \<and>
     task_first adds"

fun adds_in_order :: "('f, 'v) worker \<Rightarrow> bool" where
  "adds_in_order (WRan r adds) = task_first adds" | "adds_in_order _ = True"

definition orders_ok :: "('f, 'v) pool \<Rightarrow> bool" where
  "orders_ok p \<longleftrightarrow> (\<forall>i < length (p_workers p). adds_in_order (p_workers p ! i))"

lemma executeTask_order: "executeTask t out start dur = (r, adds) \<Longrightarrow> task_first adds"
  by (cases out) (auto simp: executeTask_def Let_def split: if_splits)

lemma orders_ok_worker: "worker_step i p q \<Longrightarrow> orders_ok p \<Longrightarrow> orders_ok q"
proof (induction rule: worker_step.induct)
  case (w_execute i p t out start dur r adds)
  then show ?case using executeTask_order [OF w_execute(3)] by (simp add: orders_ok_def pool_ops nth_list_update)
next
  case (w_count i p r a adds)
  then have "adds_in_order (p_workers p ! i)" unfolding orders_ok_def by blast
  then have "adds_in_order (WRan r adds)" using w_count(2) by simp
  with w_count show ?case by (simp add: orders_ok_def pool_ops nth_list_update)
qed (auto simp: orders_ok_def pool_ops nth_list_update)

lemma orders_ok_step: "pool_step p q \<Longrightarrow> orders_ok p \<Longrightarrow> orders_ok q"
proof (induction rule: pool_step.induct)
  case (by_submit p j q)
  from by_submit(2,3) show ?case
    by (induction rule: submit_step.induct) (auto simp: orders_ok_def pool_ops spawn_eq nth_list_update nth_append)
next
  case (by_receive p j q)
  from by_receive(2,3) show ?case
    by (induction rule: receive_step.induct) (auto simp: orders_ok_def pool_ops)
next
  case (by_control p j q)
  from by_control(2,3) show ?case
    by (induction rule: control_step.induct) (auto simp: orders_ok_def pool_ops spawn_eq nth_list_update nth_append)
qed (rule orders_ok_worker)

interpretation pord: inductive_invariant "pool_start cfg" pool_step orders_ok for cfg
  by unfold_locales (force simp: pool_start_def NewWorkerPool_def orders_ok_def split: if_splits, rule orders_ok_step)

text \<open>What all workers together have left to add to a counter.\<close>

definition left_to_add :: "counter \<Rightarrow> ('f, 'v) pool \<Rightarrow> int" where
  "left_to_add c p = wsum (still_to_add c) p"

lemma pool_counter:
  "pool_reach cfg p \<Longrightarrow> read_counter c (p_metrics p) + left_to_add c p = (\<Sum>x\<in>#g_log p. recorded c x)"
  using pm.reach_inv [of cfg p] by (simp add: metrics_ok_def left_to_add_def)

lemma pool_log_executed: "pool_reach cfg p \<Longrightarrow> g_executed p = image_mset fst (g_log p)"
  using pm.reach_inv [of cfg p] by (simp add: metrics_ok_def)

lemma settled_left:
  fixes p :: "('f, 'v) pool"
  shows "list_all settled (p_workers p) \<Longrightarrow> left_to_add c p = 0"
proof -
  have "settled w \<Longrightarrow> still_to_add c w = 0" for w :: "('f, 'v) worker" by (cases w) simp_all
  then show "list_all settled (p_workers p) \<Longrightarrow> left_to_add c p = 0"
    unfolding left_to_add_def by (intro sum_list_all_zero) (simp add: list_all_iff)
qed

lemma left_in_order:
  assumes "pool_reach cfg p"
  shows "0 \<le> left_to_add TaskCounter p"
    and "left_to_add TaskCounter p \<le> left_to_add CompletedCounter p + left_to_add FailedCounter p"
proof -
  have "adds_in_order w" if "w \<in> set (p_workers p)" for w
    using pord.reach_inv [OF assms] that by (auto simp: orders_ok_def in_set_conv_nth)
  moreover have "adds_in_order w \<Longrightarrow> 0 \<le> still_to_add TaskCounter w \<and>
      still_to_add TaskCounter w \<le> still_to_add CompletedCounter w + still_to_add FailedCounter w" for w :: "('a, 'b) worker"
  proof (cases w)
    case (WRan r adds)
    then show "adds_in_order w \<Longrightarrow> ?thesis" by (cases adds) simp_all
  qed simp_all
  ultimately have w: "0 \<le> still_to_add TaskCounter w"
      "still_to_add TaskCounter w \<le> still_to_add CompletedCounter w + still_to_add FailedCounter w"
    if "w \<in> set (p_workers p)" for w using that by blast+
  show "0 \<le> left_to_add TaskCounter p" unfolding left_to_add_def using w(1) by (intro sum_list_nonneg) auto
  show "left_to_add TaskCounter p \<le> left_to_add CompletedCounter p + left_to_add FailedCounter p"
    unfolding left_to_add_def sum_list_addf [symmetric] using w(2) by (intro sum_list_mono)
qed

lemma sum_mset_of_bool: "(\<Sum>x\<in>#M. of_bool (P x)) = (int (size (filter_mset P M)))"
  by (induction M) simp_all

lemma settled_counters:
  "pool_reach cfg p \<Longrightarrow> list_all settled (p_workers p) \<Longrightarrow> read_counter c (p_metrics p) = (\<Sum>x\<in>#g_log p. recorded c x)"
  using pool_counter [of cfg p c] settled_left [of p c] by simp

text \<open>The executions that succeed, that fail and that panic, out of those so far.\<close>

definition runs_with :: "('v task_outcome \<Rightarrow> bool) \<Rightarrow> ('f, 'v) pool \<Rightarrow> int" where
  "runs_with P p = int (size (filter_mset (\<lambda>(t, out, start, dur). P out) (g_log p)))"

lemma recorded_sums:
  "(\<Sum>x\<in>#L. recorded TaskCounter x) = int (size L)"
  "(\<Sum>x\<in>#L. recorded CompletedCounter x) = int (size (filter_mset (\<lambda>(t, out, start, dur). succeeds out) L))"
  "(\<Sum>x\<in>#L. recorded FailedCounter x) = int (size (filter_mset (\<lambda>(t, out, start, dur). \<not> succeeds out) L))"
  "(\<Sum>x\<in>#L. recorded PanickedCounter x) = int (size (filter_mset (\<lambda>(t, out, start, dur). panics out) L))"
  "(\<Sum>x\<in>#L. recorded LatencyCounter x) = (\<Sum>(t, out, start, dur)\<in>#L. go_div dur 1000)"
  by (induction L) (auto split: prod.splits)

lemma size_filter_le:
  "(\<And>x. P x \<Longrightarrow> Q x) \<Longrightarrow> size (filter_mset P M) \<le> size (filter_mset Q M)"
  by (induction M) (auto intro: le_SucI)

lemma size_filter_split: "size (filter_mset P M) + size (filter_mset (\<lambda>x. \<not> P x) M) = size M"
  by (induction M) auto

lemma runs_split: "runs_with P p + runs_with (\<lambda>out. \<not> P out) p = int (size (g_log p))"
  using size_filter_split [of "\<lambda>x. P (fst (snd x))" "g_log p"]
  unfolding runs_with_def case_prod_beta of_nat_add [symmetric] by simp

lemma panics_fail:
  fixes p :: "('f, 'v) pool"
  shows "runs_with panics p \<le> runs_with (\<lambda>out. \<not> succeeds out) p"
proof -
  have "panics out \<Longrightarrow> \<not> succeeds out" for out :: "'v task_outcome" by (cases out) simp_all
  then show ?thesis unfolding runs_with_def case_prod_beta of_nat_le_iff by (intro size_filter_le) blast
qed

text \<open>
  C34. The metrics count exactly: at every moment each counter, together with the additions
  that workers between the return of their task and the release of the semaphore have left
  to make, is what the executions so far come to: their number, those that returned no error,
  those that failed (panics included), those that panicked, and the sum of their durations in
  microseconds. Outcomes never run ahead of the count of tasks, nor that count of the
  executions; while no worker has an addition left the counters agree with each other.
  The active workers are those between the two changes of that counter. The queued tasks are
  all tasks ever accepted, together with the submissions in progress: nothing lowers this
  counter when a task leaves the queue.
\<close>

theorem pool_metrics_exact:
  fixes p :: "('f, 'v) pool"
  assumes "pool_reach cfg p"
  shows "g_executed p = image_mset fst (g_log p) \<and>
    TaskCount (p_metrics p) + left_to_add TaskCounter p = int (size (g_log p)) \<and>
    CompletedTasks (p_metrics p) + left_to_add CompletedCounter p = runs_with succeeds p \<and>
    FailedTasks (p_metrics p) + left_to_add FailedCounter p = runs_with (\<lambda>out. \<not> succeeds out) p \<and>
    PanickedTasks (p_metrics p) + left_to_add PanickedCounter p = runs_with panics p \<and>
    TotalLatencyUs (p_metrics p) + left_to_add LatencyCounter p = (\<Sum>(t, out, start, dur)\<in>#g_log p. go_div dur 1000) \<and>
    CompletedTasks (p_metrics p) + FailedTasks (p_metrics p) \<le> TaskCount (p_metrics p) \<and>
    TaskCount (p_metrics p) \<le> int (size (g_executed p)) \<and>
    (list_all settled (p_workers p) \<longrightarrow>
       TaskCount (p_metrics p) = int (size (g_executed p)) \<and>
       TaskCount (p_metrics p) = CompletedTasks (p_metrics p) + FailedTasks (p_metrics p) \<and>
       PanickedTasks (p_metrics p) \<le> FailedTasks (p_metrics p)) \<and>
    pool_ActiveWorkers p = int (length (filter (\<lambda>w. counted_active w = 1) (p_workers p))) \<and>
    int (size (g_accepted p)) \<le> QueuedTasks (p_metrics p) \<and>
    (list_all (\<lambda>c. counted_queued c = 0) (p_callers p) \<longrightarrow> QueuedTasks (p_metrics p) = int (size (g_accepted p)))"
proof -
  have "counted_active w = of_bool (counted_active w = 1)" for w :: "('f, 'v) worker" by (cases w) simp_all
  then have active: "wsum counted_active p = int (length (filter (\<lambda>w. counted_active w = 1) (p_workers p)))"
    by (rule sum_as_count)
  have "0 \<le> counted_queued c" for c :: "('f, 'v) caller" by (cases c) simp_all
  then have queued: "0 \<le> csum counted_queued p" by (rule sum_list_map_nonneg)
  have none: "csum counted_queued p = 0" if "list_all (\<lambda>c. counted_queued c = 0) (p_callers p)"
    using that by (intro sum_list_all_zero) (simp add: list_all_iff)
  note count = pool_counter [OF assms, of TaskCounter] pool_counter [OF assms, of CompletedCounter]
    pool_counter [OF assms, of FailedCounter] pool_counter [OF assms, of PanickedCounter]
    pool_counter [OF assms, of LatencyCounter]
  note counts = count [unfolded recorded_sums read_counter.simps, folded runs_with_def]
  have settled: "TaskCount (p_metrics p) = int (size (g_executed p)) \<and>
      TaskCount (p_metrics p) = CompletedTasks (p_metrics p) + FailedTasks (p_metrics p) \<and>
      PanickedTasks (p_metrics p) \<le> FailedTasks (p_metrics p)" if "list_all settled (p_workers p)"
    using counts settled_left [OF that] runs_split [of succeeds p] panics_fail [of p] pool_log_executed [OF assms] by simp
  have order: "CompletedTasks (p_metrics p) + FailedTasks (p_metrics p) \<le> TaskCount (p_metrics p)"
      "TaskCount (p_metrics p) \<le> int (size (g_executed p))"
    using counts left_in_order [OF assms] runs_split [of succeeds p] pool_log_executed [OF assms] by simp_all
  have workers: "pool_ActiveWorkers p = int (length (filter (\<lambda>w. counted_active w = 1) (p_workers p)))"
    and tasks: "QueuedTasks (p_metrics p) = int (size (g_accepted p)) + csum counted_queued p"
    using pm.reach_inv [OF assms] active by (simp_all add: metrics_ok_def pool_ActiveWorkers_def)
  have "int (size (g_accepted p)) \<le> QueuedTasks (p_metrics p)" using tasks queued by simp
  moreover have "QueuedTasks (p_metrics p) = int (size (g_accepted p))"
    if "list_all (\<lambda>c. counted_queued c = 0) (p_callers p)" using tasks none [OF that] by simp
  ultimately show ?thesis using counts order workers settled pool_log_executed [OF assms] by blast
qed

theorem pool_metrics_exact_witness:
  "pool_reach demo_config demo_finished \<and> p_tasks demo_finished = [] \<and> QueuedTasks (p_metrics demo_finished) = 1 \<and>
   CompletedTasks (p_metrics demo_finished) = runs_with succeeds demo_finished"
  using pool_metrics_exact [OF demo_reach_finished] demo_reach_finished by (simp add: demo_def left_to_add_def)

text \<open>The tasks the workers hold.\<close>

fun held_tasks :: "('f, 'v) worker \<Rightarrow> 'f task list" where
  "held_tasks (WTaken t) = [t]" | "held_tasks (WStopping t) = [t]" | "held_tasks (WAcquired t) = [t]"
| "held_tasks (WRunning t) = [t]" | "held_tasks _ = []"

definition in_hand :: "('f, 'v) pool \<Rightarrow> 'f task multiset" where
  "in_hand p = mset (concat (map held_tasks (p_workers p)))"

lemma count_in_hand: "int (count (in_hand p) t) = wsum (carries t) p"
proof -
  have *: "int (count (mset (held_tasks w)) t) = carries t w" for w :: "('a, 'b) worker"
    by (cases w) auto
  have "int (count (mset (concat (map held_tasks ws))) t) = sum_list (map (carries t) ws)"
    for ws :: "('a, 'b) worker list"
    by (induction ws) (simp_all add: * [symmetric])
  then show ?thesis by (simp add: in_hand_def)
qed

lemma pool_conserved:
  assumes "pool_reach cfg p" and "p_crash p = None"
  shows "g_accepted p = mset (p_tasks p) + in_hand p + g_executed p + g_dropped p"
proof (rule multiset_eqI)
  fix t
  have "int (count (g_accepted p) t) =
      int (count (mset (p_tasks p) + in_hand p + g_executed p + g_dropped p) t)"
    using pk.reach_inv [OF assms(1)] assms(2) by (simp add: kept_ok_def count_in_hand)
  then show "count (g_accepted p) t = count (mset (p_tasks p) + in_hand p + g_executed p + g_dropped p) t"
    by simp
qed

text \<open>
  C12. No task is lost or executed twice: as multisets, the tasks accepted so far are those in
  the queue, those a worker holds, those executed and those dropped, as long as the process
  has not crashed.
\<close>

theorem pool_conserves_tasks:
  assumes "pool_reach cfg p" and "p_crash p = None"
  shows "g_accepted p = mset (p_tasks p) + in_hand p + g_executed p + g_dropped p \<and>
    size (g_executed p) \<le> size (g_accepted p)"
  using pool_conserved [OF assms] by simp

theorem pool_conserves_tasks_witness:
  "g_accepted (demo_accepted (WTaken demo_task) CIdle) = {#demo_task#} \<and>
   in_hand (demo_accepted (WTaken demo_task) CIdle) = {#demo_task#}"
  using pool_conserves_tasks [OF demo_reach_taken] by (simp add: demo_def)

text \<open>
  C14. No channel is closed twice, whatever calls of \<open>Stop\<close> and \<open>Shutdown\<close> overlap. In a pool
  that is never resized the results are closed only after every worker has returned, and no
  step of a worker crashes the process.
\<close>

theorem pool_channels_safe:
  assumes "pool_reach cfg p"
  shows "p_crash p \<noteq> Some CloseOfClosedTasks \<and> p_crash p \<noteq> Some CloseOfClosedResults \<and>
    (\<not> g_resized p \<longrightarrow>
       (p_results_closed p \<longrightarrow> list_all (\<lambda>w. w = WExited) (p_workers p)) \<and>
       (p_crash p = None \<longrightarrow> (\<forall>i q. worker_step i p q \<longrightarrow> p_crash q = None)))"
proof (intro conjI impI allI)
  have ok: "phases_ok p" "gone_ok p" using pe.reach_inv [OF assms] by (simp_all add: exits_ok_def)
  then show "p_crash p \<noteq> Some CloseOfClosedTasks" "p_crash p \<noteq> Some CloseOfClosedResults"
    by (simp_all add: phases_ok_def)
  show "list_all (\<lambda>w. w = WExited) (p_workers p)" if "\<not> g_resized p" "p_results_closed p"
    using ok that by (simp add: gone_ok_def list_all_length)
  show "p_crash q = None" if "\<not> g_resized p" "p_crash p = None" "worker_step i p q" for i q
    using that(3,1,2) ok(2)
    by (induction rule: worker_step.induct) (auto simp: gone_ok_def pool_ops)
qed

theorem pool_channels_safe_witness:
  "pool_reach demo_config demo_finished \<and> list_all (\<lambda>w. w = WExited) (p_workers demo_finished)"
  using pool_channels_safe [OF demo_reach_finished] demo_reach_finished by (simp add: demo_def)

text \<open>
  C5. A graceful shutdown loses nothing: when the results are closed in a pool with workers
  that was neither cancelled nor resized, the queue is empty, every worker has returned, and
  exactly the accepted tasks were executed, each as often as it was accepted.
\<close>

theorem pool_shutdown_executes_all:
  assumes reach: "pool_reach cfg p" and "0 < Workers cfg" and crash: "p_crash p = None"
    and closed: "p_results_closed p" and "\<not> p_cancelled p" and "\<not> g_resized p"
  shows "g_executed p = g_accepted p \<and> p_tasks p = [] \<and>
    TaskCount (p_metrics p) = int (size (g_accepted p)) \<and> list_all (\<lambda>w. w = WExited) (p_workers p)"
proof -
  have ok: "start_ok cfg p" "gone_ok p" "grace_ok p"
    using pe.reach_inv [OF reach] by (simp_all add: exits_ok_def)
  then have gone: "\<forall>i < length (p_workers p). p_workers p ! i = WExited"
    using assms by (simp add: gone_ok_def)
  then have "in_hand p = {#}"
    by (auto simp: in_hand_def in_set_conv_nth)
  moreover have "g_dropped p = {#}" using ok(3) assms by (simp add: grace_ok_def)
  moreover have "p_tasks p = []" if "p_started p"
  proof -
    have "nat (Workers cfg) \<le> length (p_workers p)" using ok(1) that by (simp add: start_ok_def)
    then have "0 < length (p_workers p)" using assms(2) by linarith
    then show ?thesis using ok(3) gone assms by (auto simp: grace_ok_def)
  qed
  moreover have "g_accepted p = {#}" if "\<not> p_started p" using ok(1) that by (simp add: start_ok_def)
  ultimately have "p_tasks p = [] \<and> g_executed p = g_accepted p"
    using pool_conserved [OF reach crash] by (cases "p_started p") simp_all
  moreover have "settled w" if "w \<in> set (p_workers p)" for w using gone that by (auto simp: in_set_conv_nth)
  then have "TaskCount (p_metrics p) = int (size (g_executed p))"
    using settled_counters [OF reach, of TaskCounter]
    by (simp only: list_all_iff read_counter.simps recorded_sums pool_log_executed [OF reach] size_image_mset) simp
  ultimately show ?thesis using gone by (simp add: list_all_length)
qed

theorem pool_shutdown_executes_all_witness:
  "g_executed demo_finished = {#demo_task#} \<and> TaskCount (p_metrics demo_finished) = 1"
  using pool_shutdown_executes_all [OF demo_reach_finished] by (simp add: demo_def demo_config_def)

text \<open>
  C13. A shutdown that waits comes to an end if the tasks return: once the queue is closed,
  every step of a worker lowers a bound on the steps left, and as long as some worker has not
  returned some worker can take a step.
\<close>

theorem pool_drains:
  assumes "pool_reach cfg p" and "0 < Workers cfg" and "p_tasks_closed p"
  shows "(\<forall>i q. worker_step i p q \<longrightarrow> p_crash q = None \<longrightarrow> steps_left q < steps_left p) \<and>
    (0 < p_wg p \<longrightarrow> (\<exists>i q. worker_step i p q))"
proof (intro conjI impI allI)
  show "steps_left q < steps_left p" if "worker_step i p q" "p_crash q = None" for i q
    using worker_step_decreases that assms(3) by blast
  have ok: "sem_ok cfg p" using ps.reach_inv [OF assms(1)] .
  assume "0 < p_wg p"
  then have "\<exists>w \<in> set (p_workers p). in_wg w \<noteq> 0"
    using ok sum_list_all_zero [of "p_workers p" in_wg] by (force simp: sem_ok_def)
  then obtain i where "i < length (p_workers p)" "in_wg (p_workers p ! i) \<noteq> 0"
    by (metis in_set_conv_nth)
  then show "\<exists>i q. worker_step i p q"
    using worker_can_step [OF ok assms(2,3)] by fastforce
qed

theorem pool_drains_witness:
  "\<exists>i q. worker_step i ((demo_shutting WSelect CDraining)\<lparr>p_tasks_closed := True\<rparr>) q"
  using pool_drains [OF demo_reach_closed] by (simp add: demo_def demo_config_def)

text \<open>
  What \<open>WaitForDrain\<close> waits for: when its test succeeds, every accepted task was executed
  or dropped or is held by a worker that has received it and not started it. That the tasks
  are processed does not follow: a state in which the test succeeds and the only accepted
  task is not executed is reachable.
\<close>

theorem pool_drained_meaning:
  fixes p :: "('f, 'v) pool"
  assumes "pool_reach cfg p" and "p_crash p = None" and "drained p"
  shows "g_accepted p = in_hand p + g_executed p + g_dropped p \<and> list_all (\<lambda>w. \<not> executes w) (p_workers p)"
proof -
  have "wsum counted_active p = 0"
    using pm.reach_inv [OF assms(1)] assms(3)
    by (simp add: metrics_ok_def drained_def pool_ActiveWorkers_def)
  moreover have "0 \<le> counted_active w" for w :: "('f, 'v) worker" by (cases w) simp_all
  ultimately have "counted_active w \<le> 0" if "w \<in> set (p_workers p)" for w
    using member_le_sum_list_map [of "p_workers p" counted_active w] that by simp
  moreover have "executes w \<Longrightarrow> counted_active w = 1" for w :: "('f, 'v) worker" by (cases w) simp_all
  ultimately have "list_all (\<lambda>w. \<not> executes w) (p_workers p)" by (force simp: list_all_iff)
  with pool_conserved [OF assms(1,2)] assms(3) show ?thesis by (simp add: drained_def QueueLength_def)
qed

theorem pool_drained_meaning_witness:
  "pool_reach demo_config (demo_accepted (WTaken demo_task) CIdle) \<and> drained (demo_accepted (WTaken demo_task) CIdle) \<and>
   g_executed (demo_accepted (WTaken demo_task) CIdle) = {#} \<and> in_hand (demo_accepted (WTaken demo_task) CIdle) = {#demo_task#}"
proof -
  have "drained (demo_accepted (WTaken demo_task) CIdle)"
    by (simp add: drained_def QueueLength_def pool_ActiveWorkers_def demo_def demo_metrics_def zero_metrics_def)
  from pool_drained_meaning [OF demo_reach_taken _ this] this demo_reach_taken show ?thesis by (simp add: demo_def)
qed

text \<open>
  C31. Results are genuine: what \<open>SubmitWait\<close> returns carries the identifier of its task, a
  batch returns only results with identifiers it submitted, and each of these, as each result
  in the channel, says of an execution in this pool whose task it was, when and how long it
  ran and which value and error it returned, a panic being the error with its text; or it is
  the zero result that a closed channel delivers.
\<close>

theorem pool_results_genuine:
  assumes "pool_reach cfg p" and "j < length (p_callers p)"
  shows "(\<forall>t r. p_callers p ! j = CReturned t r \<longrightarrow> r_TaskID r = task_ID t \<and> genuine_in p r) \<and>
    (\<forall>ids got. p_callers p ! j = CBatchClosed ids got \<longrightarrow>
       r_TaskID ` set got \<subseteq> ids \<and> list_all (genuine_in p) got) \<and>
    list_all (genuine_in p) (p_results p)"
  using pr.reach_inv [OF assms(1)] assms(2) by (fastforce simp: results_ok_def list_all_iff)

theorem pool_results_genuine_witness:
  "\<exists>x \<in># {#(demo_task, Return (Some 7) None, 0, 0)#}. faithful x demo_result"
proof -
  let ?p = "demo_after WSelect (CReturned demo_task demo_result) CIdle"
  have "genuine_in ?p demo_result"
    using pool_results_genuine [OF demo_reach_returned, of 0] by (simp add: demo_def)
  then show ?thesis by (simp add: genuine_def demo_def)
qed

text \<open>
  C36. \<open>Submit\<close> and \<open>Shutdown\<close> race: between the test of \<open>closed\<close> under the mutex and the send,
  a shutdown can close the queue, and the send on the closed channel ends the process.
\<close>

theorem pool_submit_shutdown_race_crashes:
  "\<exists>p :: (unit, nat) pool. pool_reach demo_config p \<and> p_crash p = Some SendOnClosedTasks \<and>
     \<not> p_cancelled p \<and> \<not> g_resized p"
  by (rule exI, rule conjI [OF demo_reach_race]) (simp add: demo_def)

text \<open>
  \<open>Stop\<close> while \<open>SubmitWait\<close> waits crashes the process: the closed results deliver the
  zero result, and putting it back is a send on a closed channel.
\<close>

theorem pool_stop_crashes_SubmitWait:
  "\<exists>p :: (unit, nat) pool. pool_reach demo_config p \<and> p_crash p = Some SendOnClosedResults \<and>
     \<not> g_resized p \<and> list_all (\<lambda>w. w = WExited) (p_workers p)"
  by (rule exI, rule conjI [OF demo_reach_stopped_crash]) (simp add: demo_def)

end
