(* ===== verification/Pool_Batches.thy ===== *)
theory Pool_Batches
  imports Pool_Properties
begin

section \<open>Batches, \<open>ParallelExecute\<close> and \<open>Map\<close>\<close>

text \<open>
  While the results are open, the results anywhere in the pool carry an identifier at most as
  often as tasks with it were executed. So a batch whose identifiers are unique gets one
  result per accepted task. \<open>ParallelExecute\<close> and \<open>Map\<close> number their tasks and run such a
  batch; what \<open>Map\<close> makes of the results is a function of the order they arrive in.
\<close>

subsection \<open>A batch gets each result once\<close>

definition id_count :: "string \<Rightarrow> 'v result list \<Rightarrow> int" where
  "id_count x rs = int (length (filter (\<lambda>r. r_TaskID r = x) rs))"

lemma id_count_simps [simp]:
  "id_count x [] = 0" "id_count x (r # rs) = of_bool (r_TaskID r = x) + id_count x rs"
  "id_count x (rs @ rs') = id_count x rs + id_count x rs'" "0 \<le> id_count x rs"
  by (simp_all add: id_count_def)

lemma id_count_on_result [simp]:
  "id_count x (caller_results (on_result rcv r)) = of_bool (r_TaskID r = x) + id_count x (got_results rcv)"
  by (cases rcv) auto











text \<open>
  The identifiers a batch has submitted are identifiers of accepted tasks, no more than its
  submissions; a batch that ends without a cancellation has one result for each of them.
\<close>

fun batch_ok :: "string set \<Rightarrow> bool \<Rightarrow> ('f, 'v) caller \<Rightarrow> bool" where
  "batch_ok A cancelled (CBatch ts ids n) \<longleftrightarrow> ids \<subseteq> A \<and> card ids \<le> n"
| "batch_ok A cancelled (CEntered t (ThenBatch ts ids n)) \<longleftrightarrow> ids \<subseteq> A \<and> card ids \<le> n"
| "batch_ok A cancelled (CSubmitting t (ThenBatch ts ids n)) \<longleftrightarrow> ids \<subseteq> A \<and> card ids \<le> n"
| "batch_ok A cancelled (CRefused t (ThenBatch ts ids n)) \<longleftrightarrow> ids \<subseteq> A \<and> card ids \<le> n"
| "batch_ok A cancelled (CReceiving (Collect ids n got)) \<longleftrightarrow> ids \<subseteq> A \<and> card ids \<le> n"
| "batch_ok A cancelled (CPutBack (Collect ids n got) r) \<longleftrightarrow> ids \<subseteq> A \<and> card ids \<le> n"
| "batch_ok A cancelled (CBatchClosed ids got) \<longleftrightarrow> ids \<subseteq> A \<and> (cancelled \<or> card ids \<le> length got)"
| "batch_ok A cancelled _ \<longleftrightarrow> True"

lemma batch_ok_mono:
  assumes "batch_ok A b c" and "A \<subseteq> B" and "b \<longrightarrow> b'"
  shows "batch_ok B b' c"
proof (cases c)
  case (CEntered t k) with assms show ?thesis by (cases k) auto
next
  case (CSubmitting t k) with assms show ?thesis by (cases k) auto
next
  case (CRefused t k) with assms show ?thesis by (cases k) auto
next
  case (CReceiving r) with assms show ?thesis by (cases r) auto
next
  case (CPutBack r x) with assms show ?thesis by (cases r) auto
qed (use assms in auto)

lemma batch_ok_submitted:
  "batch_ok A b (CSubmitting t k) \<Longrightarrow> (ok \<longrightarrow> task_ID t \<in> A) \<Longrightarrow> batch_ok A b (submitted t ok k)"
proof (cases k)
  case (ThenBatch ts ids n)
  have "card (insert (task_ID t) ids) \<le> Suc (card ids)" by (rule card_insert_le_m1) simp_all
  then show "batch_ok A b (CSubmitting t k) \<Longrightarrow> (ok \<longrightarrow> task_ID t \<in> A) \<Longrightarrow> batch_ok A b (submitted t ok k)"
    using ThenBatch by auto
qed auto

lemma batch_ok_on_result: "batch_ok A b (CReceiving rcv) \<Longrightarrow> batch_ok A b (on_result rcv r)"
  by (cases rcv) auto

definition batches_ok :: "('f, 'v) pool \<Rightarrow> bool" where
  "batches_ok p \<longleftrightarrow> (\<forall>j < length (p_callers p).
     batch_ok (task_ID ` set_mset (g_accepted p)) (p_cancelled p) (p_callers p ! j))"

lemma batches_ok_init: "pool_start cfg p \<Longrightarrow> batches_ok p"
  by (auto simp: pool_start_def NewWorkerPool_def batches_ok_def split: if_splits)

lemma batches_ok_callers:
  assumes "batches_ok p" and "g_accepted p \<subseteq># g_accepted q" and "p_cancelled p \<longrightarrow> p_cancelled q"
    and "length (p_callers q) = length (p_callers p)"
    and "\<And>k. k < length (p_callers p) \<Longrightarrow> p_callers q ! k \<noteq> p_callers p ! k \<Longrightarrow>
      batch_ok (task_ID ` set_mset (g_accepted p)) (p_cancelled p) (p_callers p ! k) \<Longrightarrow>
      batch_ok (task_ID ` set_mset (g_accepted q)) (p_cancelled q) (p_callers q ! k)"
  shows "batches_ok q"
  unfolding batches_ok_def
proof (intro allI impI)
  fix k assume "k < length (p_callers q)"
  then have k: "k < length (p_callers p)" using assms(4) by simp
  then have *: "batch_ok (task_ID ` set_mset (g_accepted p)) (p_cancelled p) (p_callers p ! k)"
    using assms(1) by (simp add: batches_ok_def)
  show "batch_ok (task_ID ` set_mset (g_accepted q)) (p_cancelled q) (p_callers q ! k)"
  proof (cases "p_callers q ! k = p_callers p ! k")
    case True
    have "task_ID ` set_mset (g_accepted p) \<subseteq> task_ID ` set_mset (g_accepted q)"
      using assms(2) by (intro image_mono set_mset_mono)
    with True batch_ok_mono [OF * this] assms(3) show ?thesis by simp
  qed (use assms(5) k * in blast)
qed

lemma batches_ok_update:
  assumes "batches_ok p" and "j < length (p_callers p)" and "p_callers q = (p_callers p)[j := c]"
    and "g_accepted p \<subseteq># g_accepted q" and "p_cancelled q = p_cancelled p"
    and "batch_ok (task_ID ` set_mset (g_accepted p)) (p_cancelled p) (p_callers p ! j) \<Longrightarrow>
      batch_ok (task_ID ` set_mset (g_accepted q)) (p_cancelled p) c"
  shows "batches_ok q"
  by (rule batches_ok_callers [OF assms(1,4)]) (use assms in \<open>auto simp: nth_list_update split: if_splits\<close>)

lemma batch_ok_phases:
  "batch_ok A b (CSubmitting t k :: ('f, 'v) caller) = batch_ok A b (CEntered t k :: ('f, 'v) caller)"
  "batch_ok A b (CRefused t k :: ('f, 'v) caller) = batch_ok A b (CEntered t k :: ('f, 'v) caller)"
  by (cases k; simp)+

lemma batch_ok_sent:
  "batch_ok A b (CSubmitting t k :: ('f, 'v) caller) \<Longrightarrow>
     batch_ok (insert (task_ID t) A) b (submitted t True k :: ('f, 'v) caller)"
  by (rule batch_ok_submitted) (erule batch_ok_mono, blast, simp_all)

lemma batch_ok_refused:
  "batch_ok A b (CRefused t k :: ('f, 'v) caller) \<Longrightarrow> batch_ok A b (submitted t False k :: ('f, 'v) caller)"
  by (rule batch_ok_submitted) (simp_all add: batch_ok_phases)

lemma batches_ok_worker: "worker_step i p q \<Longrightarrow> batches_ok p \<Longrightarrow> batches_ok q"
proof (induction rule: worker_step.induct)
  case (w_report_to i p r j rcv)
  show ?case
    by (rule batches_ok_update [OF w_report_to(7,5), where c = "on_result rcv r"])
      (simp_all add: set_caller_def set_worker_def w_report_to(6) batch_ok_on_result)
qed (simp_all add: batches_ok_def pool_ops)

lemma batches_ok_enter:
  fixes p :: "('f, 'v) pool"
  assumes "batches_ok p" and "j < length (p_callers p)"
    and "\<And>A b. batch_ok A b (p_callers p ! j) \<Longrightarrow> batch_ok A b (CEntered t k :: ('f, 'v) caller)"
    and "\<And>A b. batch_ok A b (p_callers p ! j) \<Longrightarrow> batch_ok A b (submitted t False k :: ('f, 'v) caller)"
  shows "batches_ok (enter_submit j t k p)"
proof -
  have "p_callers (enter_submit j t k p) = (p_callers p)[j := if p_closed p then submitted t False k else CEntered t k]"
      "g_accepted (enter_submit j t k p) = g_accepted p" "p_cancelled (enter_submit j t k p) = p_cancelled p"
    by (simp_all add: enter_submit_def submit_enter_def set_caller_def)
  moreover have "batch_ok A b (p_callers p ! j) \<Longrightarrow>
      batch_ok A b (if p_closed p then submitted t False k else CEntered t k :: ('f, 'v) caller)" for A b
    using assms(3,4) by simp
  ultimately show ?thesis
    by (intro batches_ok_update [OF assms(1,2), where c = "if p_closed p then submitted t False k else CEntered t k"])
      simp_all
qed

lemma batches_ok_submit: "submit_step j p q \<Longrightarrow> batches_ok p \<Longrightarrow> batches_ok q"
proof (induction rule: submit_step.induct)
  case (s_submit j p k t)
  then show ?case by - (rule batches_ok_enter; auto)
next
  case (s_batch j p ts)
  show ?case
    by (rule batches_ok_update [OF s_batch(3,1), where c = "CBatch ts {} 0"]) (simp_all add: set_caller_def)
next
  case (s_batch_next j p t ts ids n)
  then show ?case by - (rule batches_ok_enter; auto)
next
  case (s_batch_all j p ids n)
  show ?case
    by (rule batches_ok_update [OF s_batch_all(3,1),
          where c = "if n = 0 then CBatchClosed ids [] else CReceiving (Collect ids n [])"])
      (simp_all add: set_caller_def s_batch_all(2))
next
  case (s_count j p t k)
  show ?case
    by (rule batches_ok_update [OF s_count(3,1), where c = "CSubmitting t k"])
      (simp_all add: set_caller_def add_queued_def s_count(2) batch_ok_phases)
next
  case (s_send j p t k)
  show ?case
    by (rule batches_ok_update [OF s_send(5,1), where c = "submitted t True k"])
      (simp_all add: set_caller_def s_send(2) batch_ok_sent)
next
  case (s_send_to j p t k i)
  show ?case
    by (rule batches_ok_update [OF s_send_to(7,1), where c = "submitted t True k"])
      (simp_all add: set_caller_def set_worker_def s_send_to(2) batch_ok_sent)
next
  case (s_send_closed j p t k)
  then show ?case by (simp add: batches_ok_def crash_pool_def)
next
  case (s_cancelled j p t k)
  show ?case
    by (rule batches_ok_update [OF s_cancelled(4,1), where c = "CRefused t k"])
      (simp_all add: set_caller_def s_cancelled(2) batch_ok_phases)
next
  case (s_full j p t k)
  show ?case
    by (rule batches_ok_update [OF s_full(6,1), where c = "CRefused t k"])
      (simp_all add: set_caller_def s_full(2) batch_ok_phases)
next
  case (s_uncount j p t k)
  show ?case
    by (rule batches_ok_update [OF s_uncount(3,1), where c = "submitted t False k"])
      (simp_all add: set_caller_def add_queued_def s_uncount(2) batch_ok_refused)
qed

lemma batches_ok_receive: "receive_step j p q \<Longrightarrow> batches_ok p \<Longrightarrow> batches_ok q"
proof (induction rule: receive_step.induct)
  case (r_receive j p rcv r rs)
  show ?case
    by (rule batches_ok_update [OF r_receive(4,1), where c = "on_result rcv r"])
      (simp_all add: set_caller_def r_receive(2) batch_ok_on_result)
next
  case (r_closed j p rcv)
  show ?case
    by (rule batches_ok_update [OF r_closed(5,1), where c = "on_result rcv zero_result"])
      (simp_all add: set_caller_def r_closed(2) batch_ok_on_result)
next
  case (r_give_up j p t)
  show ?case
    by (rule batches_ok_update [OF r_give_up(3,1), where c = CIdle]) (simp_all add: set_caller_def)
next
  case (r_cancelled j p ids n got)
  show ?case
    by (rule batches_ok_update [OF r_cancelled(4,1), where c = "CBatchClosed ids got"])
      (simp_all add: set_caller_def r_cancelled(2,3))
next
  case (r_put_back j p rcv r)
  show ?case
    by (rule batches_ok_update [OF r_put_back(3,1), where c = "CReceiving rcv"]; cases rcv)
      (simp_all add: set_caller_def try_put_result_def crash_pool_def r_put_back(2))
next
  case (r_hand_over j p rcv r k rcv')
  let ?p = "set_caller j (CReceiving rcv) p"
  have p: "batches_ok ?p"
    by (rule batches_ok_update [OF r_hand_over(7,1), where c = "CReceiving rcv"]; cases rcv)
      (simp_all add: set_caller_def r_hand_over(2))
  have "k \<noteq> j" using r_hand_over by auto
  then show ?case
    by - (rule batches_ok_update [OF p, where j = k and c = "on_result rcv' r"],
      use r_hand_over in \<open>simp_all add: set_caller_def batch_ok_on_result\<close>)
next
  case (r_client p r rs j)
  then show ?case by (simp add: batches_ok_def)
qed

text \<open>The steps of a caller that controls the pool leave batches and what they rely on alone.\<close>

lemma batches_ok_control: "control_step j p q \<Longrightarrow> batches_ok p \<Longrightarrow> batches_ok q"
proof (induction rule: control_step.induct)
  case (c_stop j p)
  then show ?case
    by (auto simp: batches_ok_def set_caller_def nth_list_update intro: batch_ok_mono)
next
  case (c_timeout j p)
  then show ?case
    by (auto simp: batches_ok_def set_caller_def nth_list_update intro: batch_ok_mono)
qed (auto simp: batches_ok_def pool_ops spawn_eq nth_list_update resize_loop_def)

lemma batches_ok_step: "pool_step p q \<Longrightarrow> batches_ok p \<Longrightarrow> batches_ok q"
  by (induction rule: pool_step.induct)
    (blast intro: batches_ok_worker batches_ok_submit batches_ok_receive batches_ok_control)+

interpretation pb: inductive_invariant "pool_start cfg" pool_step batches_ok for cfg
  by unfold_locales (rule batches_ok_init, assumption, rule batches_ok_step, assumption+)

subsection \<open>\<open>ParallelExecute\<close> and \<open>Map\<close>\<close>

text \<open>
  Both make a pool for one batch of numbered tasks. Values and errors come out of the batch in
  the order in which the results arrived; a value of a wrong dynamic type, or nil, fails the
  type assertion of \<open>Map\<close>.
\<close>

definition numbered :: "string \<Rightarrow> 'f list \<Rightarrow> 'f task list" where
  "numbered prefix fns = map (\<lambda>(i, fn). TaskFunc (prefix @ fmt_d (int i)) fn) (enumerate 0 fns)"

definition ParallelExecute_pool :: "'f list \<Rightarrow> pool_config \<times> 'f task list" where
  "ParallelExecute_pool fns =
     (\<lparr>Workers = int (length fns), QueueSize = int (length fns), TaskTimeout = 0, ShutdownGrace = 0\<rparr>,
      numbered ''task-'' fns)"

definition Map_pool :: "'a list \<Rightarrow> i64 \<Rightarrow> ('a \<Rightarrow> 'f) \<Rightarrow> pool_config \<times> 'f task list" where
  "Map_pool items workers fn =
     (\<lparr>Workers = workers, QueueSize = int (length items), TaskTimeout = 0, ShutdownGrace = 0\<rparr>,
      numbered ''map-'' (map fn items))"

datatype 'v map_outcome = MapOk "'v list" | MapErr string | MapPanic

fun Map_collect :: "'v result list \<Rightarrow> 'v map_outcome" where
  "Map_collect [] = MapOk []"
| "Map_collect (r # rs) =
     (case r_Error r of
        Some e \<Rightarrow> MapErr e
      | None \<Rightarrow>
          (case r_Value r of
             None \<Rightarrow> MapPanic
           | Some v \<Rightarrow> (case Map_collect rs of MapOk vs \<Rightarrow> MapOk (v # vs) | x \<Rightarrow> x)))"

lemma numbered_ids: "map task_ID (numbered prefix fns) = map (\<lambda>i. prefix @ fmt_d (int i)) [0..<length fns]"
  by (rule nth_equalityI) (simp_all add: numbered_def nth_enumerate_eq case_prod_beta)

lemma numbered_length: "length (numbered prefix fns) = length fns"
  by (simp add: numbered_def)

lemma numbered_fns: "map task_fn (numbered prefix fns) = fns"
  by (rule nth_equalityI) (simp_all add: numbered_def nth_enumerate_eq case_prod_beta)

lemma numbered_distinct: "distinct (map task_ID (numbered prefix fns))"
  unfolding numbered_ids by (simp add: distinct_map inj_on_def fmt_d_nat_inj)

lemma Map_collect_values:
  "list_all (\<lambda>r. r_Error r = None \<and> r_Value r \<noteq> None) rs \<Longrightarrow> Map_collect rs = MapOk (map (the \<circ> r_Value) rs)"
  by (induction rs) auto

lemma Map_collect_error:
  "list_all (\<lambda>r. r_Error r = None \<and> r_Value r \<noteq> None) rs \<Longrightarrow> r_Error r = Some e \<Longrightarrow> Map_collect (rs @ r # rs') = MapErr e"
  by (induction rs) auto


subsection \<open>The order of the results of \<open>Map\<close>\<close>

text \<open>A run of \<open>Map\<close> on two items with two workers in which the second task reports first.\<close>

abbreviation "map_t0 \<equiv> TaskFunc ''map-0'' (1 :: nat)"
abbreviation "map_t1 \<equiv> TaskFunc ''map-1'' (2 :: nat)"
abbreviation "map_ids \<equiv> {''map-1'', ''map-0''}"
abbreviation "map_r0 \<equiv> \<lparr>r_TaskID = ''map-0'', r_Value = Some (10 :: nat), r_Error = None, r_StartTime = 0, r_Duration = 0\<rparr>"
abbreviation "map_r1 \<equiv> \<lparr>r_TaskID = ''map-1'', r_Value = Some (20 :: nat), r_Error = None, r_StartTime = 0, r_Duration = 0\<rparr>"

abbreviation map_x0 :: "nat task \<times> nat task_outcome \<times> time \<times> duration" where
  "map_x0 \<equiv> (map_t0, Return (Some 10) None, 0, 0)"

abbreviation map_log :: "(nat task \<times> nat task_outcome \<times> time \<times> duration) multiset" where
  "map_log \<equiv> {#(map_t1, Return (Some 20) None, 0, 0), map_x0#}"

definition map_config :: pool_config where
  "map_config = \<lparr>Workers = 2, QueueSize = 2, TaskTimeout = 0, ShutdownGrace = 0\<rparr>"

definition map_demo :: "(nat, nat) worker list \<Rightarrow> (nat, nat) caller list \<Rightarrow> (nat, nat) pool" where
  "map_demo ws cs = \<lparr>p_config = map_config, p_tasks = [], p_tasks_closed = False, p_results = [],
     p_results_closed = False, p_sem = 0, p_sem_cap = 2, p_metrics = zero_metrics, p_cancelled = False,
     p_started = True, p_closed = False, p_wg = 2, p_workerCount = 2, p_resizeMu = False,
     p_workers = ws, p_callers = cs, p_crash = None,
     g_accepted = {#}, g_executed = {#}, g_log = {#}, g_dropped = {#}, g_resized = False\<rparr>"

lemmas map_demo_defs = map_demo_def map_config_def executeTask_def go_div_def demo_metrics_def zero_metrics_def p_cap_def
  set_worker_def set_caller_def add_active_def add_queued_def enter_submit_def submit_enter_def startLocked_def numeral_2_eq_2

lemma map_reach_new: "pool_reach map_config ((map_demo [] [CIdle])\<lparr>p_started := False, p_wg := 0, p_workerCount := 0\<rparr>)"
  by (rule reach_init, unfold pool_start_def, rule exI [of _ 1])
    (simp add: NewWorkerPool_def map_demo_defs)

lemma map_reach_queued: "pool_reach map_config ((map_demo [WSelect, WSelect] [CReceiving (Collect map_ids 2 [])])\<lparr>p_tasks := [map_t0, map_t1], p_metrics := demo_metrics 0 2 0, g_accepted := {#map_t1, map_t0#}\<rparr>)"
proof -
  let ?pa = "(map_demo [] [CIdle])\<lparr>p_started := False, p_wg := 0, p_workerCount := 0\<rparr>"
  let ?pb = "(map_demo [] [CBatch [map_t0, map_t1] {} 0])\<lparr>p_started := False, p_wg := 0, p_workerCount := 0\<rparr>"
  let ?pc = "map_demo [WSelect, WSelect] [CEntered map_t0 (ThenBatch [map_t1] {} 0)]"
  let ?pd = "(map_demo [WSelect, WSelect] [CSubmitting map_t0 (ThenBatch [map_t1] {} 0)])\<lparr>p_metrics := demo_metrics 0 1 0\<rparr>"
  let ?pe = "(map_demo [WSelect, WSelect] [CBatch [map_t1] {''map-0''} 1])\<lparr>p_tasks := [map_t0], p_metrics := demo_metrics 0 1 0, g_accepted := {#map_t0#}\<rparr>"
  let ?pf = "(map_demo [WSelect, WSelect] [CEntered map_t1 (ThenBatch [] {''map-0''} 1)])\<lparr>p_tasks := [map_t0], p_metrics := demo_metrics 0 1 0, g_accepted := {#map_t0#}\<rparr>"
  let ?pg = "(map_demo [WSelect, WSelect] [CSubmitting map_t1 (ThenBatch [] {''map-0''} 1)])\<lparr>p_tasks := [map_t0], p_metrics := demo_metrics 0 2 0, g_accepted := {#map_t0#}\<rparr>"
  let ?ph = "(map_demo [WSelect, WSelect] [CBatch [] map_ids 2])\<lparr>p_tasks := [map_t0, map_t1], p_metrics := demo_metrics 0 2 0, g_accepted := {#map_t1, map_t0#}\<rparr>"
  let ?pi = "(map_demo [WSelect, WSelect] [CReceiving (Collect map_ids 2 [])])\<lparr>p_tasks := [map_t0, map_t1], p_metrics := demo_metrics 0 2 0, g_accepted := {#map_t1, map_t0#}\<rparr>"
  have s1: "pool_step ?pa ?pb"
    using by_submit [OF _ s_batch [of 0 ?pa "[map_t0, map_t1]"]]
    by (simp add: map_demo_defs)
  have s2: "pool_step ?pb ?pc"
    using by_submit [OF _ s_batch_next [of 0 ?pb map_t0 "[map_t1]" "{}" 0]]
    by (simp add: map_demo_defs)
  have s3: "pool_step ?pc ?pd"
    using by_submit [OF _ s_count [of 0 ?pc map_t0 "ThenBatch [map_t1] {} 0"]]
    by (simp add: map_demo_defs)
  have s4: "pool_step ?pd ?pe"
    using by_submit [OF _ s_send [of 0 ?pd map_t0 "ThenBatch [map_t1] {} 0"]]
    by (simp add: map_demo_defs)
  have s5: "pool_step ?pe ?pf"
    using by_submit [OF _ s_batch_next [of 0 ?pe map_t1 "[]" "{''map-0''}" 1]]
    by (simp add: map_demo_defs)
  have s6: "pool_step ?pf ?pg"
    using by_submit [OF _ s_count [of 0 ?pf map_t1 "ThenBatch [] {''map-0''} 1"]]
    by (simp add: map_demo_defs)
  have s7: "pool_step ?pg ?ph"
    using by_submit [OF _ s_send [of 0 ?pg map_t1 "ThenBatch [] {''map-0''} 1"]]
    by (simp add: map_demo_defs)
  have s8: "pool_step ?ph ?pi"
    using by_submit [OF _ s_batch_all [of 0 ?ph map_ids 2]]
    by (simp add: map_demo_defs)
  show ?thesis by (rule pool_next [OF pool_next [OF pool_next [OF pool_next [OF pool_next [OF pool_next [OF pool_next [OF pool_next [OF map_reach_new s1] s2] s3] s4] s5] s6] s7] s8])
qed

lemma map_reach_executed: "pool_reach map_config ((map_demo [WRan map_r0 [], WRan map_r1 []] [CReceiving (Collect map_ids 2 [])])\<lparr>p_sem := 2, p_metrics := demo_metrics 2 2 2, g_accepted := {#map_t1, map_t0#}, g_executed := {#map_t1, map_t0#}, g_log := map_log\<rparr>)"
proof -
  let ?pa = "(map_demo [WSelect, WSelect] [CReceiving (Collect map_ids 2 [])])\<lparr>p_tasks := [map_t0, map_t1], p_metrics := demo_metrics 0 2 0, g_accepted := {#map_t1, map_t0#}\<rparr>"
  let ?pb = "(map_demo [WTaken map_t0, WSelect] [CReceiving (Collect map_ids 2 [])])\<lparr>p_tasks := [map_t1], p_metrics := demo_metrics 0 2 0, g_accepted := {#map_t1, map_t0#}\<rparr>"
  let ?pc = "(map_demo [WTaken map_t0, WTaken map_t1] [CReceiving (Collect map_ids 2 [])])\<lparr>p_metrics := demo_metrics 0 2 0, g_accepted := {#map_t1, map_t0#}\<rparr>"
  let ?pd = "(map_demo [WAcquired map_t0, WTaken map_t1] [CReceiving (Collect map_ids 2 [])])\<lparr>p_sem := 1, p_metrics := demo_metrics 0 2 0, g_accepted := {#map_t1, map_t0#}\<rparr>"
  let ?pe = "(map_demo [WAcquired map_t0, WAcquired map_t1] [CReceiving (Collect map_ids 2 [])])\<lparr>p_sem := 2, p_metrics := demo_metrics 0 2 0, g_accepted := {#map_t1, map_t0#}\<rparr>"
  let ?pf = "(map_demo [WRunning map_t0, WAcquired map_t1] [CReceiving (Collect map_ids 2 [])])\<lparr>p_sem := 2, p_metrics := demo_metrics 1 2 0, g_accepted := {#map_t1, map_t0#}\<rparr>"
  let ?pg = "(map_demo [WRunning map_t0, WRunning map_t1] [CReceiving (Collect map_ids 2 [])])\<lparr>p_sem := 2, p_metrics := demo_metrics 2 2 0, g_accepted := {#map_t1, map_t0#}\<rparr>"
  let ?ph = "(map_demo [WRan map_r0 [], WRunning map_t1] [CReceiving (Collect map_ids 2 [])])\<lparr>p_sem := 2, p_metrics := demo_metrics 2 2 1, g_accepted := {#map_t1, map_t0#}, g_executed := {#map_t0#}, g_log := {#map_x0#}\<rparr>"
  let ?pi = "(map_demo [WRan map_r0 [], WRan map_r1 []] [CReceiving (Collect map_ids 2 [])])\<lparr>p_sem := 2, p_metrics := demo_metrics 2 2 2, g_accepted := {#map_t1, map_t0#}, g_executed := {#map_t1, map_t0#}, g_log := map_log\<rparr>"
  have s9: "pool_step ?pa ?pb"
    using by_worker [OF _ w_take [of 0 ?pa map_t0 "[map_t1]"]]
    by (simp add: map_demo_defs)
  have s10: "pool_step ?pb ?pc"
    using by_worker [OF _ w_take [of 1 ?pb map_t1 "[]"]]
    by (simp add: map_demo_defs)
  have s11: "pool_step ?pc ?pd"
    using by_worker [OF _ w_acquire [of 0 ?pc map_t0]]
    by (simp add: map_demo_defs)
  have s12: "pool_step ?pd ?pe"
    using by_worker [OF _ w_acquire [of 1 ?pd map_t1]]
    by (simp add: map_demo_defs)
  have s13: "pool_step ?pe ?pf"
    using by_worker [OF _ w_active [of 0 ?pe map_t0]]
    by (simp add: map_demo_defs)
  have s14: "pool_step ?pf ?pg"
    using by_worker [OF _ w_active [of 1 ?pf map_t1]]
    by (simp add: map_demo_defs)
  let ?adds = "[(LatencyCounter, 0), (TaskCounter, 1), (CompletedCounter, 1)]"
  let ?ph' = "?pg\<lparr>p_workers := [WRan map_r0 ?adds, WRunning map_t1], g_executed := {#map_t0#}, g_log := {#map_x0#}\<rparr>"
  let ?pi' = "?ph\<lparr>p_workers := [WRan map_r0 [], WRan map_r1 ?adds], g_executed := {#map_t1, map_t0#}, g_log := map_log\<rparr>"
  have s15: "pool_step ?pg ?ph'"
    using by_worker [OF _ w_execute [of 0 ?pg map_t0 "Return (Some 10) None" 0 0 map_r0 ?adds]]
    by (simp add: map_demo_defs)
  have "pool_reach map_config ?pg"
    by (rule pool_next [OF pool_next [OF pool_next [OF pool_next [OF pool_next [OF pool_next [OF map_reach_queued s9] s10] s11] s12] s13] s14])
  then have h: "pool_reach map_config ?ph"
    using pool_counts [OF pool_next [OF _ s15], of map_config 0 map_r0 ?adds] by (simp add: map_demo_defs)
  have s16: "pool_step ?ph ?pi'"
    using by_worker [OF _ w_execute [of 1 ?ph map_t1 "Return (Some 20) None" 0 0 map_r1 ?adds]]
    by (simp add: map_demo_defs)
  show ?thesis
    using pool_counts [OF pool_next [OF h s16], of 1 map_r1 ?adds] by (simp add: map_demo_defs)
qed

lemma map_reach_reversed: "pool_reach map_config ((map_demo [WSelect, WSelect] [CBatchClosed map_ids [map_r1, map_r0]])\<lparr>p_metrics := demo_metrics 0 2 2, g_accepted := {#map_t1, map_t0#}, g_executed := {#map_t1, map_t0#}, g_log := map_log\<rparr>)"
proof -
  let ?pa = "(map_demo [WRan map_r0 [], WRan map_r1 []] [CReceiving (Collect map_ids 2 [])])\<lparr>p_sem := 2, p_metrics := demo_metrics 2 2 2, g_accepted := {#map_t1, map_t0#}, g_executed := {#map_t1, map_t0#}, g_log := map_log\<rparr>"
  let ?pb = "(map_demo [WReleased map_r0, WRan map_r1 []] [CReceiving (Collect map_ids 2 [])])\<lparr>p_sem := 1, p_metrics := demo_metrics 2 2 2, g_accepted := {#map_t1, map_t0#}, g_executed := {#map_t1, map_t0#}, g_log := map_log\<rparr>"
  let ?pc = "(map_demo [WReleased map_r0, WReleased map_r1] [CReceiving (Collect map_ids 2 [])])\<lparr>p_metrics := demo_metrics 2 2 2, g_accepted := {#map_t1, map_t0#}, g_executed := {#map_t1, map_t0#}, g_log := map_log\<rparr>"
  let ?pd = "(map_demo [WReport map_r0, WReleased map_r1] [CReceiving (Collect map_ids 2 [])])\<lparr>p_metrics := demo_metrics 1 2 2, g_accepted := {#map_t1, map_t0#}, g_executed := {#map_t1, map_t0#}, g_log := map_log\<rparr>"
  let ?pe = "(map_demo [WReport map_r0, WReport map_r1] [CReceiving (Collect map_ids 2 [])])\<lparr>p_metrics := demo_metrics 0 2 2, g_accepted := {#map_t1, map_t0#}, g_executed := {#map_t1, map_t0#}, g_log := map_log\<rparr>"
  let ?pf = "(map_demo [WReport map_r0, WSelect] [CReceiving (Collect map_ids 2 [map_r1])])\<lparr>p_metrics := demo_metrics 0 2 2, g_accepted := {#map_t1, map_t0#}, g_executed := {#map_t1, map_t0#}, g_log := map_log\<rparr>"
  let ?pg = "(map_demo [WSelect, WSelect] [CBatchClosed map_ids [map_r1, map_r0]])\<lparr>p_metrics := demo_metrics 0 2 2, g_accepted := {#map_t1, map_t0#}, g_executed := {#map_t1, map_t0#}, g_log := map_log\<rparr>"
  have s17: "pool_step ?pa ?pb"
    using by_worker [OF _ w_release [of 0 ?pa map_r0]]
    by (simp add: map_demo_defs)
  have s18: "pool_step ?pb ?pc"
    using by_worker [OF _ w_release [of 1 ?pb map_r1]]
    by (simp add: map_demo_defs)
  have s19: "pool_step ?pc ?pd"
    using by_worker [OF _ w_inactive [of 0 ?pc map_r0]]
    by (simp add: map_demo_defs)
  have s20: "pool_step ?pd ?pe"
    using by_worker [OF _ w_inactive [of 1 ?pd map_r1]]
    by (simp add: map_demo_defs)
  have s21: "pool_step ?pe ?pf"
    using by_worker [OF _ w_report_to [of 1 ?pe map_r1 0 "Collect map_ids 2 []"]]
    by (simp add: map_demo_defs)
  have s22: "pool_step ?pf ?pg"
    using by_worker [OF _ w_report_to [of 0 ?pf map_r0 0 "Collect map_ids 2 [map_r1]"]]
    by (simp add: map_demo_defs)
  show ?thesis by (rule pool_next [OF pool_next [OF pool_next [OF pool_next [OF pool_next [OF pool_next [OF map_reach_executed s17] s18] s19] s20] s21] s22])
qed

abbreviation map_reversed :: "(nat, nat) pool" where
  "map_reversed \<equiv> (map_demo [WSelect, WSelect] [CBatchClosed map_ids [map_r1, map_r0]])
     \<lparr>p_metrics := demo_metrics 0 2 2, g_accepted := {#map_t1, map_t0#}, g_executed := {#map_t1, map_t0#}, g_log := map_log\<rparr>"

subsection \<open>Properties\<close>



text \<open>
  The identifiers \<open>ParallelExecute\<close> and \<open>Map\<close> give to their tasks are different, one for
  each function or item, however many there are, and their queue has room for all of them.
\<close>

theorem pool_helpers_unique_ids:
  "distinct (map task_ID (snd (ParallelExecute_pool fns))) \<and> length (snd (ParallelExecute_pool fns)) = length fns \<and>
   distinct (map task_ID (snd (Map_pool items workers fn))) \<and> length (snd (Map_pool items workers fn)) = length items \<and>
   map task_fn (snd (Map_pool items workers fn)) = map fn items \<and>
   QueueSize (fst (Map_pool items workers fn)) = int (length items)"
  by (simp only: ParallelExecute_pool_def Map_pool_def fst_conv snd_conv numbered_distinct numbered_length
      numbered_fns length_map pool_config.simps simp_thms)

text \<open>
  \<open>Map\<close> returns its values in the order in which the results arrived, and stops at the
  first error in that order: if every task returned a value, it returns the values of the
  results one by one; otherwise the error of the first result that has one.
\<close>

theorem pool_Map_collects_in_arrival_order:
  assumes "list_all (\<lambda>r. r_Error r = None \<and> r_Value r \<noteq> None) rs"
  shows "Map_collect rs = MapOk (map (the \<circ> r_Value) rs) \<and>
    (r_Error r = Some e \<longrightarrow> Map_collect (rs @ r # rs') = MapErr e)"
  using Map_collect_values [OF assms] Map_collect_error [OF assms] by blast

theorem pool_Map_collects_in_arrival_order_witness:
  "Map_collect [map_r1, map_r0] = MapOk [20, 10] \<and>
   Map_collect ([map_r1] @ (map_r0\<lparr>r_Error := Some ''x''\<rparr>) # [map_r1]) = MapErr ''x''"
  using pool_Map_collects_in_arrival_order [of "[map_r1, map_r0]" map_r0 "''x''" "[]"]
    pool_Map_collects_in_arrival_order [of "[map_r1]" "map_r0\<lparr>r_Error := Some ''x''\<rparr>" "''x''" "[map_r1]"]
  by simp

text \<open>
  C37. \<open>Map\<close> does not keep the order of its items: on the items 1 and 2 with two workers, a run
  is reachable in which the batch ends with every result, the value 10 of the first item and
  20 of the second, and \<open>Map\<close> returns them as 20, 10.
\<close>

theorem pool_Map_reorders:
  "\<exists>p ids rs. pool_reach (fst (Map_pool [1, 2 :: nat] 2 id)) p \<and> p_callers p = [CBatchClosed ids rs] \<and>
     ids = task_ID ` set (snd (Map_pool [1, 2 :: nat] 2 id)) \<and> g_executed p = mset (snd (Map_pool [1, 2 :: nat] 2 id)) \<and>
     map (\<lambda>r. (r_TaskID r, r_Value r)) rs = [(''map-1'', Some (20 :: nat)), (''map-0'', Some 10)] \<and>
     Map_collect rs = MapOk [20, 10]"
proof -
  have digits: "fmt_d 0 = ''0''" "fmt_d 1 = ''1''"
    by code_simp+
  have cfg: "fst (Map_pool [1, 2 :: nat] 2 id) = map_config"
    and tasks: "snd (Map_pool [1, 2 :: nat] 2 id) = [map_t0, map_t1]"
    by (simp_all add: Map_pool_def map_config_def numbered_def digits)
  have "map_ids = task_ID ` set [map_t0, map_t1]" "g_executed map_reversed = mset [map_t0, map_t1]"
    "p_callers map_reversed = [CBatchClosed map_ids [map_r1, map_r0]]"
    by (auto simp: map_demo_def)
  with map_reach_reversed show ?thesis
    unfolding cfg tasks
    by (intro exI [of _ map_reversed] exI [of _ map_ids] exI [of _ "[map_r1, map_r0]"]) simp
qed

end
