(* ===== verification/Float64.thy ===== *)
theory Float64
  imports Go_Prelude Complex_Main "HOL-Library.Log_Nat"
begin

section \<open>Double precision numbers\<close>

text \<open>
  A finite \<open>float64\<close> is a rational number; an arithmetic operation rounds its exact result
  by \<open>f64\<close>, to the nearest number of 53 significant bits and to an even one in the
  middle, as Go's specification asks for (IEEE 754). The exponent is unbounded here:
  overflow to infinity, subnormal numbers and NaN are outside this model.

  Clients use a rounding function only through the locale \<open>float_rounding\<close>.
\<close>

locale float_rounding =
  fixes rnd :: "rat \<Rightarrow> rat"
  assumes rnd_upper: "0 \<le> x \<Longrightarrow> rnd x \<le> x * (1 + 1 / 2 ^ 53)"
    and rnd_lower: "0 \<le> x \<Longrightarrow> x * (1 - 1 / 2 ^ 53) \<le> rnd x"
    and rnd_exact: "\<bar>n\<bar> \<le> 2 ^ 53 \<Longrightarrow> rnd (of_int n) = of_int n"
begin

lemma rnd_nonneg: "0 \<le> x \<Longrightarrow> 0 \<le> rnd x"
proof -
  assume "0 \<le> x"
  then have "0 \<le> x * (1 - 1 / 2 ^ 53)" by (rule mult_nonneg_nonneg) simp
  then show ?thesis using rnd_lower [OF \<open>0 \<le> x\<close>] by linarith
qed

lemma rnd_0 [simp]: "rnd 0 = 0"
  using rnd_exact [of 0] by simp

lemma rnd_1 [simp]: "rnd 1 = 1"
  using rnd_exact [of 1] by simp

end

subsection \<open>Rounding\<close>

definition round_half_even :: "rat \<Rightarrow> int" where
  "round_half_even x =
     (let f = \<lfloor>x\<rfloor>; r = x - of_int f in if r < 1 / 2 \<or> r = 1 / 2 \<and> even f then f else f + 1)"

lemma round_half_even_error: "\<bar>of_int (round_half_even x) - x\<bar> \<le> 1 / 2"
proof -
  have "of_int \<lfloor>x\<rfloor> \<le> x" "x < of_int \<lfloor>x\<rfloor> + 1" by linarith+
  then show ?thesis by (auto simp: round_half_even_def Let_def abs_le_iff)
qed

lemma round_half_even_int [simp]: "round_half_even (of_int n) = n"
  by (simp add: round_half_even_def)

text \<open>The exponent of a positive number: \<open>2 ^ e \<le> x < 2 ^ (e + 1)\<close>.\<close>

definition binexp :: "rat \<Rightarrow> int" where
  "binexp x = (let (n, d) = quotient_of x; e = bitlen n - bitlen d in if 2 powi e \<le> x then e else e - 1)"

lemma bitlen_powi:
  assumes "0 < n"
  shows "2 powi (bitlen n - 1) \<le> (of_int n :: rat)" and "of_int n < (2 powi bitlen n :: rat)"
proof -
  have b: "2 ^ nat (bitlen n - 1) \<le> n" "n < 2 ^ nat (bitlen n)" "1 \<le> bitlen n"
    using bitlen_bounds [OF assms] assms by (auto simp: bitlen_ge_iff_power)
  have "(of_int (2 ^ nat (bitlen n - 1)) :: rat) \<le> of_int n" using b(1) by (simp only: of_int_le_iff)
  then show "2 powi (bitlen n - 1) \<le> (of_int n :: rat)" using b(3) by (simp add: power_int_def)
  have "(of_int n :: rat) < of_int (2 ^ nat (bitlen n))" using b(2) by (simp only: of_int_less_iff)
  then show "of_int n < (2 powi bitlen n :: rat)" using b(3) by (simp add: power_int_def)
qed

lemma binexp_bounds:
  assumes "0 < x"
  shows "2 powi binexp x \<le> x" and "x < 2 powi (binexp x + 1)"
proof -
  obtain n d where q: "quotient_of x = (n, d)" by fastforce
  then have d: "0 < d" and x: "x = of_int n / of_int d"
    using quotient_of_denom_pos quotient_of_div by blast+
  then have n: "0 < n" using assms by (simp add: zero_less_divide_iff)
  let ?e = "bitlen n - bitlen d"
  have "x < 2 powi bitlen n / 2 powi (bitlen d - 1)"
    unfolding x using bitlen_powi [OF n] bitlen_powi [OF d] d n
    by (intro frac_less) (auto intro: zero_less_power_int)
  also have "\<dots> = 2 powi (?e + 1)"
    by (simp add: power_int_diff [symmetric] algebra_simps)
  finally have up: "x < 2 powi (?e + 1)" .
  have "2 powi (?e - 1) = (2 powi (bitlen n - 1) / 2 powi bitlen d :: rat)"
    by (simp add: power_int_diff [symmetric] algebra_simps)
  also have "\<dots> \<le> x"
    unfolding x using bitlen_powi [OF n] bitlen_powi [OF d] d n
    by (intro frac_le) (auto intro: order.strict_implies_order zero_less_power_int)
  finally have lo: "2 powi (?e - 1) \<le> x" .
  show "2 powi binexp x \<le> x" "x < 2 powi (binexp x + 1)"
    using up lo q by (auto simp: binexp_def Let_def)
qed

text \<open>Rounding to 53 significant bits.\<close>

definition f64 :: "rat \<Rightarrow> rat" where
  "f64 x =
     (if x = 0 then 0
      else let u = 2 powi (binexp \<bar>x\<bar> - 52) in sgn x * of_int (round_half_even (\<bar>x\<bar> / u)) * u)"

lemma f64_0 [simp]: "f64 0 = 0"
  by (simp add: f64_def)

lemma f64_error:
  assumes "0 < x"
  shows "\<bar>f64 x - x\<bar> \<le> x / 2 ^ 53"
proof -
  let ?u = "2 powi (binexp x - 52) :: rat"
  have u: "0 < ?u" by (simp add: zero_less_power_int)
  have "f64 x - x = (of_int (round_half_even (x / ?u)) - x / ?u) * ?u"
    using assms u by (simp add: f64_def Let_def left_diff_distrib)
  then have "\<bar>f64 x - x\<bar> \<le> 1 / 2 * ?u"
    using round_half_even_error [of "x / ?u"] u by (simp add: abs_mult mult_right_mono)
  also have "?u = 2 powi binexp x / 2 ^ 52" by (simp add: power_int_diff)
  also have "1 / 2 * (2 powi binexp x / 2 ^ 52) \<le> x / 2 ^ 53"
    using binexp_bounds(1) [OF assms] by simp
  finally show ?thesis .
qed

lemma f64_exact:
  assumes "\<bar>n\<bar> \<le> 2 ^ 53"
  shows "f64 (of_int n) = of_int n"
proof (cases "n = 0")
  case False
  let ?x = "of_int \<bar>n\<bar> :: rat" and ?e = "binexp (of_int \<bar>n\<bar>)"
  have x: "0 < ?x" using False by simp
  have u: "(0 :: rat) < 2 powi (?e - 52)" by (simp add: zero_less_power_int)
  have "\<exists>k. ?x / 2 powi (?e - 52) = of_int k"
  proof (cases "?e \<le> 52")
    case True
    then have "2 powi (52 - ?e) = (of_int (2 ^ nat (52 - ?e)) :: rat)" by (simp add: power_int_def)
    moreover have "?x / 2 powi (?e - 52) = ?x * 2 powi (52 - ?e)"
      by (simp add: power_int_diff field_simps)
    ultimately have "?x / 2 powi (?e - 52) = of_int (\<bar>n\<bar> * 2 ^ nat (52 - ?e))" by simp
    then show ?thesis by blast
  next
    case False
    then have "(2 powi 53 :: rat) \<le> 2 powi ?e" by (intro power_int_increasing) simp_all
    also have "\<dots> \<le> ?x" by (rule binexp_bounds(1) [OF x])
    finally have "\<bar>n\<bar> = 2 ^ 53" using assms
      by (metis (mono_tags, lifting) antisym of_int_le_iff of_int_numeral of_int_power power_int_numeral)
    moreover from this have "?e = 53"
    proof -
      have "(2 powi ?e :: rat) \<le> 2 powi 53" "(2 powi 53 :: rat) < 2 powi (?e + 1)"
        using binexp_bounds [OF x] \<open>\<bar>n\<bar> = 2 ^ 53\<close> by simp_all
      then have "?e \<le> 53" "53 < ?e + 1"
        by (meson not_le power_int_strict_increasing one_less_numeral_iff semiring_norm(76)
            power_int_increasing less_le_not_le one_le_numeral)+
      then show ?thesis by simp
    qed
    ultimately have "?x / 2 powi (?e - 52) = of_int (2 ^ 52)" by simp
    then show ?thesis by blast
  qed
  then obtain k where k: "?x / 2 powi (?e - 52) = of_int k" by blast
  then have "of_int k * 2 powi (?e - 52) = ?x" using u by (simp add: field_simps)
  then have "f64 (of_int n) = sgn (of_int n) * ?x"
    using False k by (simp add: f64_def Let_def mult.assoc)
  then show ?thesis by (simp add: sgn_mult_abs)
qed (simp add: f64_def)

interpretation f64: float_rounding f64
proof
  show "f64 x \<le> x * (1 + 1 / 2 ^ 53)" if "0 \<le> x" for x
    using f64_error [of x, unfolded abs_le_iff] that by (cases "x = 0") (simp_all add: field_simps)
  show "x * (1 - 1 / 2 ^ 53) \<le> f64 x" if "0 \<le> x" for x
    using f64_error [of x, unfolded abs_le_iff] that by (cases "x = 0") (simp_all add: field_simps)
qed (rule f64_exact)

subsection \<open>Conversions\<close>

text \<open>
  The conversion of an integer rounds; the conversion to an integer truncates, and out of
  range its result is the least integer here, as on amd64.
\<close>

definition float64 :: "i64 \<Rightarrow> rat" where
  "float64 n = f64 (of_int n)"

definition float_to_int64 :: "rat \<Rightarrow> i64" where
  "float_to_int64 x =
     (let n = (if x < 0 then \<lceil>x\<rceil> else \<lfloor>x\<rfloor>) in if in_i64 n then n else min_i64)"

lemma float64_exact: "\<bar>n\<bar> \<le> 2 ^ 53 \<Longrightarrow> float64 n = of_int n"
  unfolding float64_def by (rule f64_exact)

end
