(* ===== verification/Rate_Limiter.thy ===== *)
theory Rate_Limiter
  imports Float64
begin

section \<open>Rate limiters (\<open>pkg/limiter/limiter.go\<close>)\<close>

text \<open>
  The token bucket computes with \<open>float64\<close>, every operation rounded by \<^const>\<open>f64\<close> (no fused
  operations); the sliding window keeps the times of the requests it allowed. Clock readings
  are arguments. Both offer the interface \<open>RateLimiter\<close>: \<open>Allow\<close>, and a \<open>Wait\<close> that is the
  same loop around it; the loop runs over a list of what happens at each round. The hook for
  tests (\<open>testHook\<close>) is nil.
\<close>

subsection \<open>The interface and its waiting loop\<close>

text \<open>
  One round of \<open>Wait\<close> calls \<open>Allow\<close> in some environment and then, unless it was allowed, waits
  for the context or for the time to retry. A loop whose rounds are used up is still waiting.
\<close>

datatype waited = Allowed | Cancelled | Waiting

fun wait_loop :: "('e \<Rightarrow> 's \<Rightarrow> bool \<times> 's) \<Rightarrow> ('e \<times> bool) list \<Rightarrow> 's \<Rightarrow> waited \<times> 's" where
  "wait_loop allow [] s = (Waiting, s)"
| "wait_loop allow ((e, ctx_done) # rounds) s =
     (let (ok, s') = allow e s in
      if ok then (Allowed, s') else if ctx_done then (Cancelled, s') else wait_loop allow rounds s')"

text \<open>A run of calls of \<open>Allow\<close>.\<close>

fun allow_run :: "('e \<Rightarrow> 's \<Rightarrow> bool \<times> 's) \<Rightarrow> 'e list \<Rightarrow> 's \<Rightarrow> bool list \<times> 's" where
  "allow_run allow [] s = ([], s)"
| "allow_run allow (e # es) s =
     (let (ok, s1) = allow e s; (oks, s2) = allow_run allow es s1 in (ok # oks, s2))"

text \<open>What a limiter owes its clients: an invariant that every call of \<open>Allow\<close> keeps.\<close>

locale rate_limiter =
  fixes allow :: "'e \<Rightarrow> 's \<Rightarrow> bool \<times> 's" and inv :: "'s \<Rightarrow> bool"
  assumes allow_inv: "inv s \<Longrightarrow> inv (snd (allow e s))"
begin

lemma run_inv: "inv s \<Longrightarrow> inv (snd (allow_run allow es s))"
proof (induction es arbitrary: s)
  case (Cons e es)
  have "inv (snd (allow e s))" using Cons.prems by (rule allow_inv)
  then show ?case using Cons.IH by (simp add: case_prod_beta Let_def)
qed simp

text \<open>
  \<open>Wait\<close> makes calls of \<open>Allow\<close> and grants one event at most: it returns without an error
  exactly after the first call that was allowed, with all calls before it refused.
\<close>

lemma wait_is_run:
  "inv s \<Longrightarrow> wait_loop allow rounds s = (w, s') \<Longrightarrow>
     inv s' \<and> (\<exists>k \<le> length rounds.
       s' = snd (allow_run allow (take k (map fst rounds)) s) \<and>
       fst (allow_run allow (take k (map fst rounds)) s) =
         (if w = Allowed then replicate (k - 1) False @ [True] else replicate k False) \<and>
       (w = Waiting \<longrightarrow> k = length rounds) \<and> (w = Allowed \<longrightarrow> 0 < k) \<and>
       (w = Cancelled \<longrightarrow> 0 < k \<and> snd (rounds ! (k - 1))))"
proof (induction rounds arbitrary: s)
  case (Cons r rounds)
  obtain e d where r: "r = (e, d)" by fastforce
  obtain ok s1 where a: "allow e s = (ok, s1)" by fastforce
  have s1: "inv s1" using allow_inv [OF Cons.prems(1), of e] a by simp
  show ?case
  proof (cases "ok \<or> d")
    case True
    then show ?thesis using Cons.prems(2) r a s1
      by (intro conjI exI [of _ 1]) (auto split: if_splits)
  next
    case False
    then have "wait_loop allow rounds s1 = (w, s')" using Cons.prems(2) r a by simp
    from Cons.IH [OF s1 this] obtain k where k: "inv s'" "k \<le> length rounds"
        "s' = snd (allow_run allow (take k (map fst rounds)) s1)"
        "fst (allow_run allow (take k (map fst rounds)) s1) =
           (if w = Allowed then replicate (k - 1) False @ [True] else replicate k False)"
        "w = Waiting \<longrightarrow> k = length rounds" "w = Allowed \<longrightarrow> 0 < k"
        "w = Cancelled \<longrightarrow> 0 < k \<and> snd (rounds ! (k - 1))" by blast
    have "replicate k False = False # replicate (k - 1) False" if "0 < k"
      using that by (cases k) simp_all
    then show ?thesis using k r a False
      by (intro conjI exI [of _ "Suc k"]) (auto simp: Let_def split: prod.splits)
  qed
qed simp

end

subsection \<open>Token bucket\<close>

record tb_config =
  Rate :: rat
  Capacity :: i64

record token_bucket =
  tb_rate :: rat
  tb_capacity :: i64
  tb_tokens :: rat
  tb_lastTime :: time

definition NewTokenBucket :: "tb_config option \<Rightarrow> time \<Rightarrow> token_bucket" where
  "NewTokenBucket cfg now =
     (let c = (case cfg of None \<Rightarrow> \<lparr>Rate = 10, Capacity = 10\<rparr> | Some c \<Rightarrow> c)
      in \<lparr>tb_rate = Rate c, tb_capacity = Capacity c, tb_tokens = float64 (Capacity c), tb_lastTime = now\<rparr>)"

text \<open>\<open>Duration.Seconds\<close>: the whole seconds plus the rest divided by \<open>1e9\<close>.\<close>

definition Seconds :: "duration \<Rightarrow> rat" where
  "Seconds d = f64 (float64 (go_div d second) + f64 (float64 (d - go_div d second * second) / 10 ^ 9))"

definition tb_refill :: "time \<Rightarrow> token_bucket \<Rightarrow> token_bucket" where
  "tb_refill now tb =
     (let elapsed = Seconds (time_sub now (tb_lastTime tb));
          tokens = f64 (tb_tokens tb + f64 (elapsed * tb_rate tb));
          tokens = (if tokens > float64 (tb_capacity tb) then float64 (tb_capacity tb) else tokens)
      in tb\<lparr>tb_tokens := tokens, tb_lastTime := now\<rparr>)"

definition tb_Allow :: "time \<Rightarrow> token_bucket \<Rightarrow> bool \<times> token_bucket" where
  "tb_Allow now tb =
     (let tb = tb_refill now tb in
      if tb_tokens tb \<ge> 1 then (True, tb\<lparr>tb_tokens := f64 (tb_tokens tb - 1)\<rparr>) else (False, tb))"

text \<open>The time \<open>Wait\<close> sleeps.\<close>

definition tb_waitDur :: "token_bucket \<Rightarrow> duration" where
  "tb_waitDur tb =
     (if tb_rate tb > 0
      then (let deficit = f64 (1 - tb_tokens tb);
                deficit = (if deficit < 0 then 0 else deficit);
                waitDur = float_to_int64 (f64 (f64 (deficit / tb_rate tb) * float64 second))
            in if waitDur < millisecond then millisecond else waitDur)
      else 100 * millisecond)"

definition tb_Wait :: "(time \<times> bool) list \<Rightarrow> token_bucket \<Rightarrow> waited \<times> token_bucket" where
  "tb_Wait = wait_loop tb_Allow"

subsection \<open>Sliding window\<close>

record sw_config =
  WindowSize :: duration
  MaxRequests :: i64

record sliding_window =
  sw_windowSize :: duration
  sw_maxRequests :: i64
  sw_timestamps :: "time list"

text \<open>Making a slice with a negative capacity panics.\<close>

definition NewSlidingWindow :: "sw_config option \<Rightarrow> sliding_window option" where
  "NewSlidingWindow cfg =
     (let c = (case cfg of None \<Rightarrow> \<lparr>WindowSize = second, MaxRequests = 100\<rparr> | Some c \<Rightarrow> c)
      in if MaxRequests c < 0 then None
         else Some \<lparr>sw_windowSize = WindowSize c, sw_maxRequests = MaxRequests c, sw_timestamps = []\<rparr>)"

fun drop_before :: "time \<Rightarrow> time list \<Rightarrow> time list" where
  "drop_before cutoff [] = []"
| "drop_before cutoff (t # ts) = (if t < cutoff then drop_before cutoff ts else t # ts)"

definition sw_cleanup :: "time \<Rightarrow> sliding_window \<Rightarrow> sliding_window" where
  "sw_cleanup now sw = sw\<lparr>sw_timestamps := drop_before (now + wrap64 (- sw_windowSize sw)) (sw_timestamps sw)\<rparr>"

text \<open>\<open>Allow\<close> reads the clock twice: for the cutoff, and for the time it records.\<close>

definition sw_Allow :: "time \<times> time \<Rightarrow> sliding_window \<Rightarrow> bool \<times> sliding_window" where
  "sw_Allow now sw =
     (let sw = sw_cleanup (fst now) sw in
      if int (length (sw_timestamps sw)) < sw_maxRequests sw
      then (True, sw\<lparr>sw_timestamps := sw_timestamps sw @ [snd now]\<rparr>)
      else (False, sw))"

definition sw_waitDur :: "sliding_window \<Rightarrow> duration" where
  "sw_waitDur sw =
     (let waitDur = go_div (sw_windowSize sw) 10 in if waitDur < millisecond then millisecond else waitDur)"

definition sw_Wait :: "((time \<times> time) \<times> bool) list \<Rightarrow> sliding_window \<Rightarrow> waited \<times> sliding_window" where
  "sw_Wait = wait_loop sw_Allow"

subsection \<open>The token bucket keeps its capacity\<close>

text \<open>
  A bucket that was made with a rate and a capacity that are not negative, and a capacity
  that a \<open>float64\<close> represents exactly.
\<close>

definition tb_ok :: "token_bucket \<Rightarrow> bool" where
  "tb_ok tb \<longleftrightarrow> 0 \<le> tb_rate tb \<and> 0 \<le> tb_capacity tb \<and> tb_capacity tb \<le> 2 ^ 53 \<and>
     0 \<le> tb_tokens tb \<and> tb_tokens tb \<le> of_int (tb_capacity tb)"

lemma NewTokenBucket_ok:
  "0 \<le> Rate cfg \<Longrightarrow> 0 \<le> Capacity cfg \<Longrightarrow> Capacity cfg \<le> 2 ^ 53 \<Longrightarrow> tb_ok (NewTokenBucket (Some cfg) now)"
  by (simp add: NewTokenBucket_def tb_ok_def float64_exact)

lemma go_div_mod:
  assumes "0 \<le> d" "d \<le> max_i64"
  shows "go_div d second = d div second" "d - go_div d second * second = d mod second"
  using assms by (simp_all add: second_def minus_div_mult_eq_mod)

lemma Seconds_bounds:
  assumes "0 \<le> d" "d \<le> max_i64"
  defines "u \<equiv> 1 / 2 ^ 53 :: rat"
  shows "0 \<le> Seconds d" and "Seconds d \<le> of_int d / 10 ^ 9 * (1 + u) ^ 2"
    and "of_int d / 10 ^ 9 * (1 - u) ^ 2 \<le> Seconds d"
proof -
  define w r where "w = d div second" and "r = d mod second"
  have d: "of_int d = of_int w * 10 ^ 9 + (of_int r :: rat)"
  proof -
    have "d = w * 10 ^ 9 + r" by (simp add: w_def r_def second_def)
    then show ?thesis by (metis of_int_add of_int_mult of_int_numeral of_int_power)
  qed
  have w: "0 \<le> w" and r: "0 \<le> r" "r < 2 ^ 53"
    using assms(1) by (simp_all add: w_def r_def second_def pos_imp_zdiv_nonneg_iff less_trans [OF pos_mod_bound])
  have fr: "float64 r = of_int r" unfolding float64_def by (rule f64_exact) (use r in simp)
  have S: "Seconds d = f64 (float64 w + f64 (of_int r / 10 ^ 9))"
    using go_div_mod [OF assms(1,2)] fr by (simp add: Seconds_def w_def r_def)
  let ?a = "float64 w" and ?b = "f64 (of_int r / 10 ^ 9)"
  have a: "of_int w * (1 - u) \<le> ?a" "?a \<le> of_int w * (1 + u)" "0 \<le> ?a"
    using f64.rnd_upper [of "of_int w"] f64.rnd_lower [of "of_int w"] f64.rnd_nonneg [of "of_int w"] w
    by (simp_all add: float64_def u_def)
  have b: "of_int r / 10 ^ 9 * (1 - u) \<le> ?b" "?b \<le> of_int r / 10 ^ 9 * (1 + u)" "0 \<le> ?b"
    using f64.rnd_upper [of "of_int r / 10 ^ 9"] f64.rnd_lower [of "of_int r / 10 ^ 9"]
      f64.rnd_nonneg [of "of_int r / 10 ^ 9"] r
    by (simp_all add: u_def)
  show "0 \<le> Seconds d" unfolding S using a b by (intro f64.rnd_nonneg) simp
  have x: "of_int d / 10 ^ 9 = of_int w + of_int r / (10 ^ 9 :: rat)" by (simp add: d add_divide_distrib)
  have u: "0 \<le> u" "u \<le> 1" by (simp_all add: u_def)
  have dn: "(0 :: rat) \<le> of_int d / 10 ^ 9" using assms(1) by simp
  have "Seconds d \<le> (?a + ?b) * (1 + u)" unfolding S u_def by (rule f64.rnd_upper) (use a b in simp)
  also have "\<dots> \<le> (of_int d / 10 ^ 9 * (1 + u)) * (1 + u)"
    using a b u unfolding x by (intro mult_right_mono) (simp_all add: distrib_right)
  also have "\<dots> = of_int d / 10 ^ 9 * (1 + u) ^ 2" by (simp add: power2_eq_square)
  finally show "Seconds d \<le> of_int d / 10 ^ 9 * (1 + u) ^ 2" .
  have "of_int d / 10 ^ 9 * (1 - u) ^ 2 = (of_int d / 10 ^ 9 * (1 - u)) * (1 - u)" by (simp add: power2_eq_square)
  also have "\<dots> \<le> (?a + ?b) * (1 - u)"
    using a b u unfolding x by (intro mult_right_mono) (simp_all add: distrib_right)
  also have "\<dots> \<le> Seconds d" unfolding S u_def by (rule f64.rnd_lower) (use a b in simp)
  finally show "of_int d / 10 ^ 9 * (1 - u) ^ 2 \<le> Seconds d" .
qed

text \<open>The relative error of one operation, and what one refill adds.\<close>

abbreviation eps :: rat where "eps \<equiv> 1 / 2 ^ 53"

definition added :: "token_bucket \<Rightarrow> time \<Rightarrow> rat" where
  "added tb now = f64 (Seconds (time_sub now (tb_lastTime tb)) * tb_rate tb)"

lemma added_bounds:
  assumes "0 \<le> tb_rate tb" and "tb_lastTime tb \<le> now"
  shows "0 \<le> added tb now"
    and "added tb now \<le> of_int (now - tb_lastTime tb) / 10 ^ 9 * tb_rate tb * (1 + eps) ^ 3"
    and "now - tb_lastTime tb \<le> max_i64 \<Longrightarrow>
      of_int (now - tb_lastTime tb) / 10 ^ 9 * tb_rate tb * (1 - eps) ^ 3 \<le> added tb now"
proof -
  let ?d = "time_sub now (tb_lastTime tb)" and ?t = "now - tb_lastTime tb"
  have d: "0 \<le> ?d" "?d \<le> max_i64" "?d \<le> ?t" using assms(2) by (auto simp: go_defs)
  note S = Seconds_bounds [OF d(1,2)]
  have n: "0 \<le> Seconds ?d * tb_rate tb" using S(1) assms(1) by simp
  show "0 \<le> added tb now" unfolding added_def by (rule f64.rnd_nonneg [OF n])
  have "added tb now \<le> Seconds ?d * tb_rate tb * (1 + eps)" unfolding added_def by (rule f64.rnd_upper [OF n])
  also have "\<dots> \<le> (of_int ?d / 10 ^ 9 * (1 + eps) ^ 2) * tb_rate tb * (1 + eps)"
    using S(2) assms(1) by (intro mult_right_mono) simp_all
  also have "\<dots> \<le> (of_int ?t / 10 ^ 9 * (1 + eps) ^ 2) * tb_rate tb * (1 + eps)"
    using d(3) assms(1) by (intro mult_right_mono divide_right_mono) simp_all
  also have "\<dots> = of_int ?t / 10 ^ 9 * tb_rate tb * (1 + eps) ^ 3" by (simp add: power2_eq_square power3_eq_cube)
  finally show "added tb now \<le> of_int ?t / 10 ^ 9 * tb_rate tb * (1 + eps) ^ 3" .
  assume "?t \<le> max_i64"
  then have t: "?d = ?t" using assms(2) by (auto simp: go_defs)
  have "of_int ?t / 10 ^ 9 * tb_rate tb * (1 - eps) ^ 3 = (of_int ?t / 10 ^ 9 * (1 - eps) ^ 2) * tb_rate tb * (1 - eps)"
    by (simp add: power2_eq_square power3_eq_cube)
  also have "\<dots> \<le> Seconds ?d * tb_rate tb * (1 - eps)"
    using S(3) assms(1) unfolding t by (intro mult_right_mono) simp_all
  also have "\<dots> \<le> added tb now" unfolding added_def by (rule f64.rnd_lower [OF n])
  finally show "of_int ?t / 10 ^ 9 * tb_rate tb * (1 - eps) ^ 3 \<le> added tb now" .
qed

lemma tb_refill_tokens:
  assumes "tb_ok tb" and "0 \<le> added tb now"
  shows "0 \<le> tb_tokens (tb_refill now tb)" and "tb_tokens (tb_refill now tb) \<le> of_int (tb_capacity tb)"
    and "tb_tokens (tb_refill now tb) \<le> tb_tokens tb + added tb now * (1 + eps) + of_int (tb_capacity tb) * eps"
    and "min (of_int (tb_capacity tb)) (added tb now * (1 - eps)) \<le> tb_tokens (tb_refill now tb)"
proof -
  let ?c = "of_int (tb_capacity tb) :: rat" and ?x = "tb_tokens tb + added tb now"
  have ok: "0 \<le> tb_tokens tb" "tb_tokens tb \<le> ?c" "0 \<le> ?c" "float64 (tb_capacity tb) = ?c"
    using assms(1) by (simp_all add: tb_ok_def float64_exact)
  have t: "tb_tokens (tb_refill now tb) = min ?c (f64 ?x)"
    by (simp add: tb_refill_def added_def ok(4) Let_def min_def)
  have x: "0 \<le> ?x" using ok assms(2) by simp
  then have "0 \<le> f64 ?x" by (rule f64.rnd_nonneg)
  then show "0 \<le> tb_tokens (tb_refill now tb)" "tb_tokens (tb_refill now tb) \<le> ?c"
    using ok(3) by (simp_all add: t)
  have "f64 ?x \<le> ?x * (1 + eps)" by (rule f64.rnd_upper [OF x])
  also have "\<dots> = tb_tokens tb + added tb now * (1 + eps) + tb_tokens tb * eps" by (simp add: algebra_simps)
  also have "\<dots> \<le> tb_tokens tb + added tb now * (1 + eps) + ?c * eps"
    using ok(2) by (intro add_left_mono mult_right_mono) simp_all
  finally show "tb_tokens (tb_refill now tb) \<le> tb_tokens tb + added tb now * (1 + eps) + ?c * eps" by (simp add: t)
  have "added tb now * (1 - eps) \<le> ?x * (1 - eps)" using ok(1) by (intro mult_right_mono) simp_all
  also have "\<dots> \<le> f64 ?x" by (rule f64.rnd_lower [OF x])
  finally show "min ?c (added tb now * (1 - eps)) \<le> tb_tokens (tb_refill now tb)" by (auto simp: t)
qed

lemma tb_refill_same [simp]:
  "tb_rate (tb_refill now tb) = tb_rate tb" "tb_capacity (tb_refill now tb) = tb_capacity tb"
  "tb_lastTime (tb_refill now tb) = now"
  by (simp_all add: tb_refill_def Let_def)

lemma tb_Allow_step:
  assumes ok: "tb_ok tb" and "tb_lastTime tb \<le> now" and a: "tb_Allow now tb = (b, tb')"
  shows "tb_ok tb'" and "tb_lastTime tb' = now" and "tb_rate tb' = tb_rate tb" and "tb_capacity tb' = tb_capacity tb"
    and "tb_tokens tb' + of_bool b \<le> tb_tokens tb +
      of_int (now - tb_lastTime tb) / 10 ^ 9 * tb_rate tb * (1 + eps) ^ 4 + 2 * eps * of_int (tb_capacity tb)"
proof -
  let ?c = "of_int (tb_capacity tb) :: rat" and ?t = "tb_tokens (tb_refill now tb)"
  let ?g = "of_int (now - tb_lastTime tb) / 10 ^ 9 * tb_rate tb"
  have rate: "0 \<le> tb_rate tb" and cap: "0 \<le> tb_capacity tb" "tb_capacity tb \<le> 2 ^ 53" using ok by (simp_all add: tb_ok_def)
  note inc = added_bounds [OF rate assms(2)]
  note t = tb_refill_tokens [OF ok inc(1)]
  have "added tb now * (1 + eps) \<le> (?g * (1 + eps) ^ 3) * (1 + eps)" using inc(2) by (rule mult_right_mono) simp
  also have "\<dots> = ?g * (1 + eps) ^ 4" by (simp add: eval_nat_numeral)
  finally have up: "?t \<le> tb_tokens tb + ?g * (1 + eps) ^ 4 + ?c * eps" using t(3) by linarith
  show "tb_lastTime tb' = now" "tb_rate tb' = tb_rate tb" "tb_capacity tb' = tb_capacity tb"
    using a by (auto simp: tb_Allow_def Let_def split: if_splits)
  have "tb_ok tb' \<and> tb_tokens tb' + of_bool b \<le> ?t + ?c * eps"
  proof (cases "1 \<le> ?t")
    case True
    then have b: b and tb': "tb' = (tb_refill now tb)\<lparr>tb_tokens := f64 (?t - 1)\<rparr>"
      using a by (simp_all add: tb_Allow_def Let_def)
    have n: "0 \<le> ?t - 1" using True by simp
    have m: "f64 (?t - 1) \<le> (?t - 1) * (1 + eps)" by (rule f64.rnd_upper [OF n])
    have c: "?c \<le> 2 ^ 53" using cap(2) by (metis of_int_le_iff of_int_numeral of_int_power)
    have "(?t - 1) * eps \<le> 2 ^ 53 * eps" using t(2) c by (intro mult_right_mono) simp_all
    then have "f64 (?t - 1) \<le> ?t" using m by (simp add: distrib_left)
    moreover have "(?t - 1) * eps \<le> ?c * eps" using t(2) by (intro mult_right_mono) simp_all
    then have "f64 (?t - 1) + 1 \<le> ?t + ?c * eps" using m by (simp add: distrib_left)
    ultimately show ?thesis
      using t(2) f64.rnd_nonneg [OF n] rate cap b by (simp add: tb_ok_def tb')
  next
    case False
    then have "\<not> b" "tb' = tb_refill now tb" using a by (simp_all add: tb_Allow_def Let_def)
    then show ?thesis using t(1,2) rate cap by (simp add: tb_ok_def)
  qed
  then show "tb_ok tb'" and "tb_tokens tb' + of_bool b \<le> tb_tokens tb + ?g * (1 + eps) ^ 4 + 2 * eps * ?c"
    using up by (simp_all add: field_simps)
qed

lemma tb_run_bound:
  assumes "tb_ok tb" and "sorted (tb_lastTime tb # ts)"
    and "allow_run tb_Allow ts tb = (oks, tb')"
  shows "tb_ok tb'" and "tb_tokens tb' + of_nat (length (filter id oks)) \<le> tb_tokens tb +
      of_int (last (tb_lastTime tb # ts) - tb_lastTime tb) / 10 ^ 9 * tb_rate tb * (1 + eps) ^ 4 +
      of_nat (length ts) * (2 * eps * of_int (tb_capacity tb))"
proof -
  have "tb_ok tb' \<and> tb_tokens tb' + of_nat (length (filter id oks)) \<le> tb_tokens tb +
      of_int (last (tb_lastTime tb # ts) - tb_lastTime tb) / 10 ^ 9 * tb_rate tb * (1 + eps) ^ 4 +
      of_nat (length ts) * (2 * eps * of_int (tb_capacity tb))"
    using assms
  proof (induction ts arbitrary: tb oks)
    case (Cons t ts)
    obtain b tb1 where a: "tb_Allow t tb = (b, tb1)" by fastforce
    obtain oks1 where r: "allow_run tb_Allow ts tb1 = (oks1, tb')" and oks: "oks = b # oks1"
      using Cons.prems(3) a by (auto simp: Let_def split: prod.splits)
    have le: "tb_lastTime tb \<le> t" and srt: "sorted (t # ts)" using Cons.prems(2) by simp_all
    note st = tb_Allow_step [OF Cons.prems(1) le a]
    let ?k = "tb_rate tb * (1 + eps) ^ 4" and ?l = "last (t # ts)" and ?c = "2 * eps * of_int (tb_capacity tb)"
    have IH: "tb_ok tb'" "tb_tokens tb' + of_nat (length (filter id oks1)) \<le> tb_tokens tb1 +
        of_int (?l - t) / 10 ^ 9 * ?k + of_nat (length ts) * ?c"
      using Cons.IH [OF st(1) srt [folded st(2)] r] unfolding st(2-4) by (simp_all only: mult.assoc)
    have "tb_tokens tb1 + of_bool b \<le> tb_tokens tb + of_int (t - tb_lastTime tb) / 10 ^ 9 * ?k + ?c"
      using st(5) by (simp add: mult.assoc)
    moreover have "of_int (?l - t) / 10 ^ 9 * ?k + of_int (t - tb_lastTime tb) / 10 ^ 9 * ?k =
        of_int (?l - tb_lastTime tb) / 10 ^ 9 * ?k"
      by (simp add: distrib_right [symmetric] add_divide_distrib [symmetric] del: distrib_right)
    moreover have "(of_nat (length (filter id oks)) :: rat) = of_bool b + of_nat (length (filter id oks1))"
      by (simp add: oks)
    moreover have "of_nat (length (t # ts)) * ?c = ?c + of_nat (length ts) * ?c" by (simp add: distrib_right)
    ultimately have "tb_tokens tb' + of_nat (length (filter id oks)) \<le> tb_tokens tb +
        of_int (?l - tb_lastTime tb) / 10 ^ 9 * ?k + of_nat (length (t # ts)) * ?c"
      using IH(2) by linarith
    moreover have "last (tb_lastTime tb # t # ts) = ?l" by simp
    ultimately show ?case using IH(1) by (simp only: mult.assoc simp_thms)
  qed simp
  then show "tb_ok tb'" and "tb_tokens tb' + of_nat (length (filter id oks)) \<le> tb_tokens tb +
      of_int (last (tb_lastTime tb # ts) - tb_lastTime tb) / 10 ^ 9 * tb_rate tb * (1 + eps) ^ 4 +
      of_nat (length ts) * (2 * eps * of_int (tb_capacity tb))" by simp_all
qed

text \<open>Without a refill the bucket counts down.\<close>

lemma tb_Allow_no_refill:
  assumes "tb_rate tb = 0" and "tb_tokens tb = of_nat k" and "int k \<le> tb_capacity tb" and "tb_capacity tb \<le> 2 ^ 53"
  shows "tb_Allow now tb = (0 < k, tb\<lparr>tb_tokens := of_nat (k - 1), tb_lastTime := now\<rparr>)"
proof -
  have k: "f64 (of_nat k) = of_nat k" using f64_exact [of "int k"] assms(3,4) by simp
  have c: "float64 (tb_capacity tb) = of_int (tb_capacity tb)" by (rule float64_exact) (use assms(3,4) in simp)
  have "\<not> of_int (tb_capacity tb) < (of_nat k :: rat)"
    using assms(3) by (metis not_less of_int_le_iff of_int_of_nat_eq)
  then have r: "tb_refill now tb = tb\<lparr>tb_tokens := of_nat k, tb_lastTime := now\<rparr>"
    using assms(1,2) k c by (simp add: tb_refill_def Let_def)
  have "f64 (of_nat k - 1) = of_nat (k - 1)" if "0 < k"
    using f64_exact [of "int k - 1"] that assms(3,4) by (simp add: of_nat_diff)
  then show ?thesis by (auto simp: tb_Allow_def r Let_def)
qed

lemma tb_run_no_refill:
  assumes "tb_rate tb = 0" and "tb_tokens tb = of_nat k" and "int k \<le> tb_capacity tb" and "tb_capacity tb \<le> 2 ^ 53"
  shows "fst (allow_run tb_Allow ts tb) = replicate (min k (length ts)) True @ replicate (length ts - k) False"
  using assms
proof (induction ts arbitrary: tb k)
  case (Cons t ts)
  let ?tb = "tb\<lparr>tb_tokens := of_nat (k - 1), tb_lastTime := t\<rparr>"
  have "fst (allow_run tb_Allow ts ?tb) = replicate (min (k - 1) (length ts)) True @ replicate (length ts - (k - 1)) False"
    by (rule Cons.IH) (use Cons.prems in simp_all)
  then show ?case
    using tb_Allow_no_refill [OF Cons.prems, of t] by (cases k) (simp_all add: Let_def case_prod_beta)
qed simp

subsection \<open>The sliding window remembers what it must\<close>

lemma drop_before_dropWhile: "drop_before c ts = dropWhile (\<lambda>t. t < c) ts"
  by (induction ts) simp_all

lemma drop_before_filter: "sorted ts \<Longrightarrow> drop_before c ts = filter (\<lambda>t. c \<le> t) ts"
proof (induction ts)
  case (Cons a ts)
  then show ?case
    by (auto simp: filter_id_conv [THEN iffD2] intro!: filter_id_conv [THEN iffD2, symmetric] dest: order_trans)
qed simp

text \<open>
  The specification: with all requests ever allowed as its state, a request is allowed when
  fewer than the maximum of them are in the window that ends now.
\<close>

definition spec_allow :: "duration \<Rightarrow> i64 \<Rightarrow> time \<times> time \<Rightarrow> time list \<Rightarrow> bool \<times> time list" where
  "spec_allow w m now hist =
     (if int (length (filter (\<lambda>t. fst now - w \<le> t) hist)) < m then (True, hist @ [snd now]) else (False, hist))"

text \<open>The readings of a run do not go backwards.\<close>

fun readings :: "(time \<times> time) list \<Rightarrow> time list" where
  "readings [] = []" | "readings ((a, b) # es) = a # b # readings es"

definition sw_ok :: "duration \<Rightarrow> i64 \<Rightarrow> time \<Rightarrow> time list \<Rightarrow> sliding_window \<Rightarrow> bool" where
  "sw_ok w m now hist sw \<longleftrightarrow> sw_windowSize sw = w \<and> sw_maxRequests sw = m \<and> sorted (hist @ [now]) \<and>
     (\<exists>c \<le> now - w. sw_timestamps sw = filter (\<lambda>t. c \<le> t) hist)"

lemma sw_Allow_refines:
  assumes ok: "sw_ok w m now hist sw" and w: "0 \<le> w" "w \<le> max_i64" and le: "now \<le> a" "a \<le> b"
    and step: "sw_Allow (a, b) sw = (r, sw')"
  shows "\<exists>hist'. spec_allow w m (a, b) hist = (r, hist') \<and> sw_ok w m b hist' sw'"
proof -
  obtain c where c: "c \<le> now - w" "sw_timestamps sw = filter (\<lambda>t. c \<le> t) hist"
    and f: "sw_windowSize sw = w" "sw_maxRequests sw = m" and srt: "sorted hist" "\<forall>t \<in> set hist. t \<le> now"
    using ok by (auto simp: sw_ok_def sorted_append)
  have "wrap64 (- w) = - w" using w by (intro wrap64_id) (simp add: go_defs)
  then have cl: "sw_timestamps (sw_cleanup a sw) = filter (\<lambda>t. a - w \<le> t) hist"
    using c le srt(1) by (simp add: sw_cleanup_def f drop_before_filter sorted_filter [of id, simplified] filter_filter)
      (rule filter_cong; auto)
  have same: "sw_windowSize (sw_cleanup a sw) = w" "sw_maxRequests (sw_cleanup a sw) = m"
    by (simp_all add: sw_cleanup_def f)
  have hist: "sorted (hist @ [b])" using srt le by (auto simp: sorted_append)
  show ?thesis
  proof (cases "int (length (filter (\<lambda>t. a - w \<le> t) hist)) < m")
    case True
    then have "r" and sw': "sw' = (sw_cleanup a sw)\<lparr>sw_timestamps := filter (\<lambda>t. a - w \<le> t) hist @ [b]\<rparr>"
      using step by (simp_all add: sw_Allow_def Let_def cl same)
    moreover have "sw_ok w m b (hist @ [b]) sw'"
      using hist le w(1) unfolding sw_ok_def
      by (intro conjI exI [of _ "a - w"]) (simp_all add: sw' same sorted_append)
    ultimately show ?thesis using True by (simp add: spec_allow_def)
  next
    case False
    then have "\<not> r" and sw': "sw' = sw_cleanup a sw"
      using step by (simp_all add: sw_Allow_def Let_def cl same)
    moreover have "sw_ok w m b hist sw'"
      using hist le unfolding sw_ok_def by (intro conjI exI [of _ "a - w"]) (simp_all add: sw' cl same)
    ultimately show ?thesis using False by (simp add: spec_allow_def)
  qed
qed

lemma sw_run_refines:
  assumes "sw_ok w m now hist sw" and "0 \<le> w" "w \<le> max_i64" and "sorted (now # readings es)"
  shows "fst (allow_run sw_Allow es sw) = fst (allow_run (spec_allow w m) es hist)"
  using assms
proof (induction es arbitrary: sw hist now)
  case (Cons e es)
  obtain a b where e: "e = (a, b)" by fastforce
  obtain r sw1 where st: "sw_Allow (a, b) sw = (r, sw1)" by fastforce
  have "now \<le> a" "a \<le> b" and srt: "sorted (b # readings es)" using Cons.prems(4) by (simp_all add: e)
  from sw_Allow_refines [OF Cons.prems(1-3) this(1,2) st] obtain hist1
    where "spec_allow w m (a, b) hist = (r, hist1)" "sw_ok w m b hist1 sw1" by blast
  with Cons.IH [OF _ Cons.prems(2,3) srt] show ?case by (simp add: e st Let_def case_prod_beta)
qed simp

text \<open>
  Any window of the given length contains at most the maximum of the requests the
  specification allowed: from one of them to the one that many places later, more time than
  the window passes.
\<close>

definition spaced :: "duration \<Rightarrow> i64 \<Rightarrow> time list \<Rightarrow> bool" where
  "spaced w m hist \<longleftrightarrow> (\<forall>i j. i + nat m \<le> j \<and> j < length hist \<longrightarrow> w < hist ! j - hist ! i)"

lemma spec_allow_spaced:
  assumes "spec_allow w m (a, b) hist = (r, hist')" and "spaced w m hist" and "sorted (hist @ [a])" and "a \<le> b"
  shows "spaced w m hist' \<and> sorted (hist' @ [b])"
proof (cases r)
  case True
  then have less: "int (length (filter (\<lambda>t. a - w \<le> t) hist)) < m" and hist': "hist' = hist @ [b]"
    using assms(1) by (auto simp: spec_allow_def split: if_splits)
  have "w < hist' ! j - hist' ! i" if ij: "i + nat m \<le> j" "j < length hist'" for i j
  proof (cases "j < length hist")
    case True
    then show ?thesis using assms(2) ij by (simp add: spaced_def hist' nth_append)
  next
    case False
    then have j: "j = length hist" using ij(2) by (simp add: hist')
    have i: "i < length hist" using ij(1) j less by linarith
    have "hist ! i < a - w"
    proof (rule ccontr)
      assume "\<not> hist ! i < a - w"
      moreover have "hist ! i \<le> t" if "t \<in> set (drop i hist)" for t
        using that assms(3) i by (auto simp: in_set_conv_nth sorted_append intro: sorted_nth_mono)
      ultimately have "\<forall>t \<in> set (drop i hist). a - w \<le> t" by force
      then have "filter (\<lambda>t. a - w \<le> t) (drop i hist) = drop i hist" by (simp add: filter_id_conv)
      moreover have "length (filter (\<lambda>t. a - w \<le> t) (drop i hist)) \<le> length (filter (\<lambda>t. a - w \<le> t) hist)"
        by (metis append_take_drop_id filter_append le_add2 length_append)
      ultimately have "length hist - i \<le> length (filter (\<lambda>t. a - w \<le> t) hist)" by simp
      then show False using less ij(1) j i by linarith
    qed
    then show ?thesis using assms(4) i by (simp add: hist' j nth_append)
  qed
  then show ?thesis using assms(3,4) by (auto simp: spaced_def hist' sorted_append)
next
  case False
  then have "hist' = hist" using assms(1) by (auto simp: spec_allow_def split: if_splits)
  then show ?thesis using assms(2-4) by (auto simp: sorted_append)
qed

text \<open>The times of the requests a run allowed.\<close>

fun allowed_at :: "(time \<times> time) list \<Rightarrow> bool list \<Rightarrow> time list" where
  "allowed_at (e # es) (ok # oks) = (if ok then snd e # allowed_at es oks else allowed_at es oks)"
| "allowed_at _ _ = []"

lemma spec_run_history:
  "allow_run (spec_allow w m) es hist = (oks, hist') \<Longrightarrow> hist' = hist @ allowed_at es oks"
proof (induction es arbitrary: hist oks)
  case (Cons e es)
  obtain r h1 where st: "spec_allow w m e hist = (r, h1)" by fastforce
  moreover obtain oks1 where "allow_run (spec_allow w m) es h1 = (oks1, hist')" "oks = r # oks1"
    using Cons.prems st by (auto simp: Let_def split: prod.splits)
  moreover have "h1 = hist @ (if r then [snd e] else [])"
    using st by (auto simp: spec_allow_def split: if_splits)
  ultimately show ?case using Cons.IH [of h1 oks1] by simp
qed simp

lemma spec_run_spaced:
  "spaced w m hist \<Longrightarrow> sorted (hist @ readings es) \<Longrightarrow> spaced w m (snd (allow_run (spec_allow w m) es hist))"
proof (induction es arbitrary: hist)
  case (Cons e es)
  obtain a b where e: "e = (a, b)" by fastforce
  obtain r h1 where st: "spec_allow w m (a, b) hist = (r, h1)" by fastforce
  have "sorted (hist @ [a])" "a \<le> b" "\<forall>t \<in> set (readings es). b \<le> t" "sorted (readings es)"
    using Cons.prems(2) by (auto simp: e sorted_append)
  moreover from spec_allow_spaced [OF st Cons.prems(1) this(1,2)] have "spaced w m h1" "sorted (h1 @ [b])" by simp_all
  ultimately have "spaced w m h1 \<and> sorted (h1 @ readings es)" by (auto simp: sorted_append intro: order_trans)
  then show ?case using Cons.IH [of h1] by (simp add: e st Let_def case_prod_beta)
qed simp

subsection \<open>Both limiters offer the interface\<close>

definition tb_inv :: "i64 \<Rightarrow> token_bucket \<Rightarrow> bool" where
  "tb_inv c tb \<longleftrightarrow> tb_capacity tb = c \<and> tb_tokens tb \<le> of_int c \<and> \<bar>c\<bar> \<le> 2 ^ 53"

definition sw_inv :: "i64 \<Rightarrow> sliding_window \<Rightarrow> bool" where
  "sw_inv m sw \<longleftrightarrow> sw_maxRequests sw = m \<and> int (length (sw_timestamps sw)) \<le> max 0 m"

lemma tb_Allow_inv: "tb_inv c tb \<Longrightarrow> tb_inv c (snd (tb_Allow now tb))"
proof -
  assume inv: "tb_inv c tb"
  let ?t = "tb_tokens (tb_refill now tb)"
  have t: "?t \<le> of_int c" "\<bar>c\<bar> \<le> 2 ^ 53"
    using inv by (auto simp: tb_inv_def tb_refill_def Let_def float64_exact)
  have "f64 (?t - 1) \<le> ?t" if "1 \<le> ?t"
  proof -
    have "c \<le> 2 ^ 53" using t(2) by simp
    then have c: "of_int c \<le> (2 ^ 53 :: rat)" by (metis of_int_le_iff of_int_numeral of_int_power)
    have "f64 (?t - 1) \<le> (?t - 1) * (1 + eps)" by (rule f64.rnd_upper) (use that in simp)
    moreover have "(?t - 1) * eps \<le> 2 ^ 53 * eps" using t(1) c by (intro mult_right_mono) simp_all
    ultimately show ?thesis by (simp add: distrib_left)
  qed
  then show ?thesis using inv t
    by (fastforce simp: tb_Allow_def tb_inv_def Let_def intro: order_trans)
qed

lemma drop_before_length: "length (drop_before c ts) \<le> length ts"
  by (simp add: drop_before_dropWhile length_dropWhile_le)

lemma sw_Allow_inv: "sw_inv m sw \<Longrightarrow> sw_inv m (snd (sw_Allow e sw))"
  using drop_before_length [of "fst e + wrap64 (- sw_windowSize sw)" "sw_timestamps sw"]
  by (auto simp: sw_inv_def sw_Allow_def sw_cleanup_def Let_def)

interpretation tb: rate_limiter tb_Allow "tb_inv c" for c
  by unfold_locales (rule tb_Allow_inv)

interpretation sw: rate_limiter sw_Allow "sw_inv m" for m
  by unfold_locales (rule sw_Allow_inv)

subsection \<open>Properties\<close>

text \<open>
  C9. The rate is bounded: whatever calls of \<open>Allow\<close> are made on a new bucket, at readings that
  do not go backwards, the number allowed is at most the capacity plus the rate times the time
  passed in seconds, up to the rounding of \<open>float64\<close>: a relative error of four roundings on
  the refills, and two roundings of the capacity for each call.
\<close>

theorem tb_rate_bound:
  assumes "0 \<le> Rate cfg" and "0 \<le> Capacity cfg" and "Capacity cfg \<le> 2 ^ 53" and "sorted (t0 # ts)"
  shows "of_nat (length (filter id (fst (allow_run tb_Allow ts (NewTokenBucket (Some cfg) t0))))) \<le>
    of_int (Capacity cfg) + Rate cfg * of_int (last (t0 # ts) - t0) / 10 ^ 9 * (1 + 1 / 2 ^ 53) ^ 4 +
    of_nat (length ts) * (of_int (Capacity cfg) / 2 ^ 52)"
proof -
  let ?tb = "NewTokenBucket (Some cfg) t0"
  obtain oks tb' where r: "allow_run tb_Allow ts ?tb = (oks, tb')" by fastforce
  have f: "tb_lastTime ?tb = t0" "tb_rate ?tb = Rate cfg" "tb_capacity ?tb = Capacity cfg"
    "tb_tokens ?tb = of_int (Capacity cfg)"
    using assms(2,3) by (simp_all add: NewTokenBucket_def float64_exact)
  note b = tb_run_bound [OF NewTokenBucket_ok [OF assms(1-3)] _ r, unfolded f, OF assms(4)]
  have "0 \<le> tb_tokens tb'" using b(1) by (simp add: tb_ok_def)
  then show ?thesis using b(2) r by (simp add: field_simps)
qed

theorem tb_rate_bound_witness:
  "of_nat (length (filter id (fst (allow_run tb_Allow [0, 0, 500000000]
       (NewTokenBucket (Some \<lparr>Rate = 1, Capacity = 1\<rparr>) 0))))) \<le> (2 :: rat)"
  using tb_rate_bound [of "\<lparr>Rate = 1, Capacity = 1\<rparr>" 0 "[0, 0, 500000000]"] by (simp add: eval_nat_numeral)

text \<open>
  C17. Without a rate a new bucket is a counter: of any calls of \<open>Allow\<close> exactly the first
  \<open>Capacity\<close> many are allowed, whenever they are made.
\<close>

theorem tb_burst_exact:
  assumes "Rate cfg = 0" and "0 \<le> Capacity cfg" and "Capacity cfg \<le> 2 ^ 53"
  shows "fst (allow_run tb_Allow ts (NewTokenBucket (Some cfg) t0)) =
    replicate (min (nat (Capacity cfg)) (length ts)) True @ replicate (length ts - nat (Capacity cfg)) False"
  using assms by (intro tb_run_no_refill) (simp_all add: NewTokenBucket_def float64_exact)

theorem tb_burst_exact_witness:
  "fst (allow_run tb_Allow [3, 1, 4, 1] (NewTokenBucket (Some \<lparr>Rate = 0, Capacity = 2\<rparr>) 0)) = [True, True, False, False]"
  using tb_burst_exact [of "\<lparr>Rate = 0, Capacity = 2\<rparr>" "[3, 1, 4, 1]" 0] by (simp add: numeral_2_eq_2)

text \<open>
  C35. The bucket refills: a call that comes, up to four roundings, at least one over the rate
  seconds after the previous one is allowed.
\<close>

theorem tb_refilled_allows:
  assumes "tb_ok tb" and "1 \<le> tb_capacity tb" and "tb_lastTime tb \<le> now" and "now - tb_lastTime tb \<le> max_i64"
    and "1 \<le> of_int (now - tb_lastTime tb) / 10 ^ 9 * tb_rate tb * (1 - 1 / 2 ^ 53) ^ 4"
  shows "fst (tb_Allow now tb)"
proof -
  have rate: "0 \<le> tb_rate tb" using assms(1) by (simp add: tb_ok_def)
  note inc = added_bounds [OF rate assms(3)]
  let ?g = "of_int (now - tb_lastTime tb) / 10 ^ 9 * tb_rate tb"
  have "1 \<le> (?g * (1 - eps) ^ 3) * (1 - eps)" using assms(5) by (simp add: eval_nat_numeral mult.assoc)
  also have "\<dots> \<le> added tb now * (1 - eps)" using inc(3) [OF assms(4)] by (intro mult_right_mono) simp_all
  finally have "1 \<le> added tb now * (1 - eps)" .
  moreover have "(1 :: rat) \<le> of_int (tb_capacity tb)" using assms(2) by simp
  ultimately have "1 \<le> tb_tokens (tb_refill now tb)"
    using tb_refill_tokens(4) [OF assms(1) inc(1)] by linarith
  then show ?thesis by (simp add: tb_Allow_def Let_def)
qed

theorem tb_refilled_allows_witness:
  "fst (tb_Allow 2000000000 \<lparr>tb_rate = 1, tb_capacity = 3, tb_tokens = 0, tb_lastTime = 0\<rparr>)"
  by (rule tb_refilled_allows) (simp_all add: tb_ok_def go_defs eval_nat_numeral)

text \<open>
  C16. The sliding window allows what its specification allows: although it forgets the
  requests that have left the window, every run of \<open>Allow\<close> on a new limiter, at readings
  that do not go backwards, gives the answers of a limiter that remembers every request.
\<close>

theorem sw_refines_history:
  assumes "NewSlidingWindow (Some cfg) = Some sw" and "0 \<le> WindowSize cfg" and "WindowSize cfg \<le> max_i64"
    and "sorted (readings es)"
  shows "fst (allow_run sw_Allow es sw) = fst (allow_run (spec_allow (WindowSize cfg) (MaxRequests cfg)) es [])"
proof -
  have sw: "sw = \<lparr>sw_windowSize = WindowSize cfg, sw_maxRequests = MaxRequests cfg, sw_timestamps = []\<rparr>"
    using assms(1) by (simp add: NewSlidingWindow_def Let_def split: if_splits)
  let ?now = "case readings es of [] \<Rightarrow> 0 | t # ts \<Rightarrow> t"
  have "sw_ok (WindowSize cfg) (MaxRequests cfg) ?now [] sw" by (auto simp: sw_ok_def sw)
  moreover have "sorted (?now # readings es)" using assms(4) by (cases "readings es") auto
  ultimately show ?thesis using sw_run_refines assms(2,3) by blast
qed

theorem sw_refines_history_witness:
  "fst (allow_run sw_Allow [(0, 0), (1, 1), (10, 10), (11, 12)]
     \<lparr>sw_windowSize = 10, sw_maxRequests = 1, sw_timestamps = []\<rparr>) = [True, False, False, True]"
  using sw_refines_history [of "\<lparr>WindowSize = 10, MaxRequests = 1\<rparr>" _ "[(0, 0), (1, 1), (10, 10), (11, 12)]"]
  by (simp add: NewSlidingWindow_def spec_allow_def go_defs Let_def)

text \<open>
  C11. In any window at most \<open>MaxRequests\<close> requests are allowed: of the times a run records,
  two that are \<open>MaxRequests\<close> or more places apart differ by more than the window's size.
\<close>

theorem sw_window_bound:
  assumes "NewSlidingWindow (Some cfg) = Some sw" and "0 \<le> WindowSize cfg" and "WindowSize cfg \<le> max_i64"
    and "sorted (readings es)" and "i + nat (MaxRequests cfg) \<le> j"
    and "j < length (allowed_at es (fst (allow_run sw_Allow es sw)))"
  shows "WindowSize cfg <
    allowed_at es (fst (allow_run sw_Allow es sw)) ! j - allowed_at es (fst (allow_run sw_Allow es sw)) ! i"
proof -
  let ?w = "WindowSize cfg" and ?m = "MaxRequests cfg"
  have sw: "sw = \<lparr>sw_windowSize = ?w, sw_maxRequests = ?m, sw_timestamps = []\<rparr>"
    using assms(1) by (simp add: NewSlidingWindow_def Let_def split: if_splits)
  let ?now = "case readings es of [] \<Rightarrow> 0 | t # ts \<Rightarrow> t"
  have ok: "sw_ok ?w ?m ?now [] sw" by (auto simp: sw_ok_def sw)
  have "sorted (?now # readings es)" using assms(4) by (cases "readings es") auto
  then have eq: "fst (allow_run sw_Allow es sw) = fst (allow_run (spec_allow ?w ?m) es [])"
    by (rule sw_run_refines [OF ok assms(2,3)])
  have "spaced ?w ?m (snd (allow_run (spec_allow ?w ?m) es []))"
    by (rule spec_run_spaced) (simp_all add: spaced_def assms(4))
  moreover have "snd (allow_run (spec_allow ?w ?m) es []) = allowed_at es (fst (allow_run sw_Allow es sw))"
    unfolding eq using spec_run_history [of ?w ?m es "[]"] by (simp add: prod_eq_iff)
  ultimately show ?thesis using assms(5,6) by (simp add: spaced_def)
qed

theorem sw_window_bound_witness:
  "(10 :: int) < [0, 12] ! 1 - [0, 12] ! 0"
proof -
  let ?sw = "\<lparr>sw_windowSize = 10, sw_maxRequests = 1, sw_timestamps = []\<rparr>"
  let ?es = "[(0, 0), (1, 1), (10, 10), (11, 12)]"
  have "allowed_at ?es (fst (allow_run sw_Allow ?es ?sw)) = [0, 12]"
    by (simp add: sw_Allow_def sw_cleanup_def go_defs Let_def)
  moreover have "NewSlidingWindow (Some \<lparr>WindowSize = 10, MaxRequests = 1\<rparr>) = Some ?sw"
    by (simp add: NewSlidingWindow_def)
  ultimately show ?thesis
    using sw_window_bound [of "\<lparr>WindowSize = 10, MaxRequests = 1\<rparr>" ?sw ?es 0 1] by (simp add: go_defs)
qed

text \<open>
  \<open>Wait\<close>, on both limiters, makes calls of \<open>Allow\<close> until the first that is allowed and
  returns no error exactly then; otherwise its context was done after a refused call, or it
  is still waiting with every call refused. So it consumes one event if it returns without
  an error and none if it does not.
\<close>

theorem limiter_Wait_grants_one:
  assumes "tb_inv c tb" and "tb_Wait rounds tb = (w, tb')"
    and "sw_inv m sw" and "sw_Wait rounds' sw = (w', sw')"
  shows "(\<exists>k \<le> length rounds. tb' = snd (allow_run tb_Allow (take k (map fst rounds)) tb) \<and>
      fst (allow_run tb_Allow (take k (map fst rounds)) tb) =
        (if w = Allowed then replicate (k - 1) False @ [True] else replicate k False) \<and>
      (w = Waiting \<longrightarrow> k = length rounds) \<and> (w = Allowed \<longrightarrow> 0 < k) \<and>
      (w = Cancelled \<longrightarrow> 0 < k \<and> snd (rounds ! (k - 1)))) \<and>
    (\<exists>k \<le> length rounds'. sw' = snd (allow_run sw_Allow (take k (map fst rounds')) sw) \<and>
      fst (allow_run sw_Allow (take k (map fst rounds')) sw) =
        (if w' = Allowed then replicate (k - 1) False @ [True] else replicate k False) \<and>
      (w' = Waiting \<longrightarrow> k = length rounds') \<and> (w' = Allowed \<longrightarrow> 0 < k) \<and>
      (w' = Cancelled \<longrightarrow> 0 < k \<and> snd (rounds' ! (k - 1))))"
  by (rule conjI [OF conjunct2 [OF tb.wait_is_run [OF assms(1) assms(2) [unfolded tb_Wait_def]]]
      conjunct2 [OF sw.wait_is_run [OF assms(3) assms(4) [unfolded sw_Wait_def]]]])

theorem limiter_Wait_grants_one_witness:
  "\<exists>k \<le> 2. fst (allow_run sw_Allow (take k [(1, 1), (11, 11)])
     \<lparr>sw_windowSize = 10, sw_maxRequests = 1, sw_timestamps = [0]\<rparr>) = replicate (k - 1) False @ [True]"
proof -
  let ?sw = "\<lparr>sw_windowSize = 10, sw_maxRequests = 1, sw_timestamps = [0]\<rparr>"
  let ?r = "[((1, 1), False), ((11, 11), False)]"
  let ?tb = "\<lparr>tb_rate = 0, tb_capacity = 0, tb_tokens = 0, tb_lastTime = 0\<rparr>"
  have a: "sw_Wait ?r ?sw = (Allowed, ?sw\<lparr>sw_timestamps := [11]\<rparr>)"
    by (simp add: sw_Wait_def sw_Allow_def sw_cleanup_def go_defs Let_def)
  have b: "tb_inv 0 ?tb" "tb_Wait [] ?tb = (Waiting, ?tb)" "sw_inv 1 ?sw"
    by (simp_all add: tb_inv_def tb_Wait_def sw_inv_def)
  from limiter_Wait_grants_one [OF b a] obtain k where
    "k \<le> length ?r" "fst (allow_run sw_Allow (take k (map fst ?r)) ?sw) = replicate (k - 1) False @ [True]"
    by (elim conjE exE) simp
  then show ?thesis by (intro exI [of _ k]) (simp add: numeral_2_eq_2)
qed

end
