(* ===== verification/Retry.thy ===== *)
theory Retry
  imports Float64
begin

section \<open>Retries with exponential backoff (\<open>pkg/retry/retry.go\<close>)\<close>

text \<open>
  \<open>DoWithCallbacks\<close> is a loop over attempts. What it meets is its environment: the outcome of
  each attempt, whether the context is done when it waits, and a random number in the unit
  interval for the jitter. What it does is recorded as a list of events: the attempts, and
  the calls of both callbacks. Logging is left out. The power function (\<open>math.Pow\<close>, whose
  rounding the Go documentation leaves open) is an argument.
\<close>

subsection \<open>Configuration and errors\<close>

record retry_config =
  MaxAttempts :: i64
  InitialDelay :: duration
  MaxDelay :: duration
  BackoffFactor :: rat
  Jitter :: bool

definition retry_DefaultConfig :: retry_config where
  "retry_DefaultConfig = \<lparr>MaxAttempts = 3, InitialDelay = 1 * second, MaxDelay = 30 * second,
     BackoffFactor = 2, Jitter = True\<rparr>"

text \<open>An error is an ordinary one or a \<open>RetryableError\<close>, which wraps another.\<close>

datatype 'e retry_error = Plain 'e | RetryableError (wrapped: "'e retry_error") (Retryable: bool)

definition NewRetryableError :: "'e retry_error \<Rightarrow> bool \<Rightarrow> 'e retry_error" where
  "NewRetryableError err retryable = RetryableError err retryable"

fun retry_Unwrap :: "'e retry_error \<Rightarrow> 'e retry_error option" where
  "retry_Unwrap (RetryableError e b) = Some e" | "retry_Unwrap (Plain e) = None"

text \<open>The test in the loop looks at the error itself, not at what it wraps.\<close>

fun not_retryable :: "'e retry_error \<Rightarrow> bool" where
  "not_retryable (RetryableError e retryable) = (\<not> retryable)" | "not_retryable (Plain e) = False"

definition with_defaults :: "retry_config \<Rightarrow> retry_config" where
  "with_defaults cfg =
     (let cfg = (if MaxAttempts cfg \<le> 0 then cfg\<lparr>MaxAttempts := 3\<rparr> else cfg);
          cfg = (if InitialDelay cfg \<le> 0 then cfg\<lparr>InitialDelay := 1 * second\<rparr> else cfg);
          cfg = (if MaxDelay cfg \<le> 0 then cfg\<lparr>MaxDelay := 30 * second\<rparr> else cfg)
      in if BackoffFactor cfg \<le> 0 then cfg\<lparr>BackoffFactor := 2\<rparr> else cfg)"

subsection \<open>Delays\<close>

text \<open>The constant \<open>0.1\<close> of the source is its nearest \<open>float64\<close>.\<close>

definition calculateDelay :: "(rat \<Rightarrow> rat \<Rightarrow> rat) \<Rightarrow> rat \<Rightarrow> retry_config \<Rightarrow> i64 \<Rightarrow> duration" where
  "calculateDelay pow rand cfg attempt =
     (let delay = f64 (float64 (InitialDelay cfg) * pow (BackoffFactor cfg) (float64 attempt));
          delay = (if delay > float64 (MaxDelay cfg) then float64 (MaxDelay cfg) else delay);
          delay = (if Jitter cfg then f64 (delay + f64 (f64 (rand * f64 (1 / 10)) * delay)) else delay)
      in float_to_int64 delay)"

subsection \<open>The loop\<close>

record 'e retry_env =
  fn_err :: "i64 \<Rightarrow> 'e retry_error option"
  ctx_done :: "i64 \<Rightarrow> bool"
  rand_float :: "i64 \<Rightarrow> rat"

datatype 'e retry_event = Attempt i64 | OnRetry i64 "'e retry_error" duration | OnFinalError i64 "'e retry_error"

datatype 'e retry_result = Success | ContextError | LastError "'e retry_error"

text \<open>
  The attempts from the given one on, with the number of attempts that are left; the loop
  ends inside, as the last attempt always leaves it.
\<close>

fun retry_loop :: "(rat \<Rightarrow> rat \<Rightarrow> rat) \<Rightarrow> retry_config \<Rightarrow> 'e retry_env \<Rightarrow> nat \<Rightarrow> i64 \<Rightarrow>
    'e retry_error option \<Rightarrow> 'e retry_event list \<times> 'e retry_result" where
  "retry_loop pow cfg env 0 attempt lastErr =
     (case lastErr of None \<Rightarrow> ([], Success) | Some e \<Rightarrow> ([OnFinalError (MaxAttempts cfg) e], LastError e))"
| "retry_loop pow cfg env (Suc left) attempt lastErr =
     (case fn_err env attempt of
        None \<Rightarrow> ([Attempt attempt], Success)
      | Some err \<Rightarrow>
          if not_retryable err \<or> attempt = MaxAttempts cfg - 1
          then ([Attempt attempt, OnFinalError (MaxAttempts cfg) err], LastError err)
          else
            (let delay = calculateDelay pow (rand_float env attempt) cfg attempt;
                 here = [Attempt attempt, OnRetry (attempt + 1) err delay]
             in if ctx_done env attempt then (here, ContextError)
                else (let (events, r) = retry_loop pow cfg env left (attempt + 1) (Some err) in (here @ events, r))))"

definition DoWithCallbacks ::
  "(rat \<Rightarrow> rat \<Rightarrow> rat) \<Rightarrow> retry_config \<Rightarrow> 'e retry_env \<Rightarrow> 'e retry_event list \<times> 'e retry_result" where
  "DoWithCallbacks pow cfg env =
     (let cfg = with_defaults cfg in retry_loop pow cfg env (nat (MaxAttempts cfg)) 0 None)"

text \<open>\<open>Do\<close> ignores the attempt number and has no callbacks.\<close>

fun is_attempt :: "'e retry_event \<Rightarrow> bool" where
  "is_attempt (Attempt n) = True" | "is_attempt _ = False"

definition Do :: "(rat \<Rightarrow> rat \<Rightarrow> rat) \<Rightarrow> retry_config \<Rightarrow> 'e retry_env \<Rightarrow> 'e retry_event list \<times> 'e retry_result" where
  "Do pow cfg env = (let (events, r) = DoWithCallbacks pow cfg env in (filter is_attempt events, r))"

text \<open>\<open>ExponentialBackoff\<close> keeps a configuration and passes it on.\<close>

datatype exponential_backoff = ExponentialBackoff (eb_config: retry_config)

definition NewExponentialBackoff :: "retry_config \<Rightarrow> exponential_backoff" where
  "NewExponentialBackoff cfg = ExponentialBackoff cfg"

definition eb_Execute where
  "eb_Execute pow eb env = Do pow (eb_config eb) env"

definition eb_ExecuteWithCallbacks where
  "eb_ExecuteWithCallbacks pow eb env = DoWithCallbacks pow (eb_config eb) env"

subsection \<open>What a call does\<close>

text \<open>The defaults leave a configuration that is in order.\<close>

lemma with_defaults_positive:
  "0 < MaxAttempts (with_defaults cfg)" "0 < InitialDelay (with_defaults cfg)"
  "0 < MaxDelay (with_defaults cfg)" "0 < BackoffFactor (with_defaults cfg)"
  by (simp_all add: with_defaults_def Let_def second_def)

text \<open>An attempt that fails and is followed by another.\<close>

definition goes_on :: "retry_config \<Rightarrow> 'e retry_env \<Rightarrow> i64 \<Rightarrow> bool" where
  "goes_on cfg env a \<longleftrightarrow> (\<exists>e. fn_err env a = Some e \<and> \<not> not_retryable e) \<and> a \<noteq> MaxAttempts cfg - 1 \<and> \<not> ctx_done env a"

definition retry_events :: "(rat \<Rightarrow> rat \<Rightarrow> rat) \<Rightarrow> retry_config \<Rightarrow> 'e retry_env \<Rightarrow> i64 \<Rightarrow> 'e retry_event list" where
  "retry_events pow cfg env a =
     [Attempt a, OnRetry (a + 1) (the (fn_err env a)) (calculateDelay pow (rand_float env a) cfg a)]"

text \<open>How an attempt that is not followed by another ends the call.\<close>

definition final_events :: "(rat \<Rightarrow> rat \<Rightarrow> rat) \<Rightarrow> retry_config \<Rightarrow> 'e retry_env \<Rightarrow> i64 \<Rightarrow> 'e retry_event list \<times> 'e retry_result" where
  "final_events pow cfg env a =
     (case fn_err env a of
        None \<Rightarrow> ([Attempt a], Success)
      | Some e \<Rightarrow> if not_retryable e \<or> a = MaxAttempts cfg - 1
          then ([Attempt a, OnFinalError (MaxAttempts cfg) e], LastError e)
          else (retry_events pow cfg env a, ContextError))"

lemma retry_loop_step:
  "retry_loop pow cfg env (Suc left) a lastErr =
     (if goes_on cfg env a
      then (retry_events pow cfg env a @ fst (retry_loop pow cfg env left (a + 1) (fn_err env a)),
        snd (retry_loop pow cfg env left (a + 1) (fn_err env a)))
      else final_events pow cfg env a)"
  by (cases "fn_err env a") (auto simp: goes_on_def retry_events_def final_events_def Let_def case_prod_beta)

lemma retry_loop_run:
  assumes "\<And>a. 0 \<le> a \<Longrightarrow> a < int n \<Longrightarrow> goes_on cfg env (b + a)" and "\<not> goes_on cfg env (b + int n)" and "n < left"
  shows "retry_loop pow cfg env left b lastErr =
    (concat (map (\<lambda>a. retry_events pow cfg env (b + int a)) [0..<n]) @ fst (final_events pow cfg env (b + int n)),
     snd (final_events pow cfg env (b + int n)))"
  using assms
proof (induction n arbitrary: left b lastErr)
  case 0
  then obtain l where "left = Suc l" by (cases left) auto
  then show ?case using 0 by (simp add: retry_loop_step del: retry_loop.simps)
next
  case (Suc n)
  then obtain l where l: "left = Suc l" by (cases left) auto
  have g: "goes_on cfg env b" using Suc.prems(1) [of 0] by simp
  have "goes_on cfg env (b + 1 + a)" if "0 \<le> a" "a < int n" for a
    using Suc.prems(1) [of "a + 1"] that by (simp add: ac_simps)
  moreover have "\<not> goes_on cfg env (b + 1 + int n)" using Suc.prems(2) by (simp add: add.assoc)
  moreover have "n < l" using Suc.prems(3) l by simp
  ultimately have "retry_loop pow cfg env l (b + 1) (fn_err env b) =
      (concat (map (\<lambda>a. retry_events pow cfg env (b + 1 + int a)) [0..<n]) @ fst (final_events pow cfg env (b + 1 + int n)),
       snd (final_events pow cfg env (b + 1 + int n)))"
    by (rule Suc.IH)
  moreover have "concat (map (\<lambda>a. retry_events pow cfg env (b + int a)) [0..<Suc n]) =
      retry_events pow cfg env b @ concat (map (\<lambda>a. retry_events pow cfg env (b + 1 + int a)) [0..<n])"
    by (simp add: upt_conv_Cons map_Suc_upt [symmetric] comp_def add.assoc del: upt_Suc)
  ultimately show ?case using g by (simp add: l retry_loop_step add.assoc del: retry_loop.simps)
qed

lemma DoWithCallbacks_run:
  fixes cfg :: retry_config
  defines "c \<equiv> with_defaults cfg"
  assumes "int n < MaxAttempts c" and "\<And>a. 0 \<le> a \<Longrightarrow> a < int n \<Longrightarrow> goes_on c env a" and "\<not> goes_on c env (int n)"
  shows "DoWithCallbacks pow cfg env =
    (concat (map (\<lambda>a. retry_events pow c env (int a)) [0..<n]) @ fst (final_events pow c env (int n)),
     snd (final_events pow c env (int n)))"
  using retry_loop_run [of n c env 0 "nat (MaxAttempts c)" pow None] assms(2-4)
  by (simp add: DoWithCallbacks_def c_def Let_def)

subsection \<open>Delays\<close>

lemma float64_nonneg: "0 \<le> n \<Longrightarrow> 0 \<le> float64 n"
  unfolding float64_def by (rule f64.rnd_nonneg) simp

lemma delay_cut:
  assumes "0 \<le> x" and "0 < m"
  shows "0 \<le> (if x > float64 m then float64 m else x) \<and> (if x > float64 m then float64 m else x) \<le> float64 m"
  using assms float64_nonneg [of m] by auto

lemma float_to_int64_between:
  assumes "0 \<le> x" and "x \<le> of_int n" and "n \<le> max_i64"
  shows "0 \<le> float_to_int64 x \<and> float_to_int64 x \<le> n \<and> of_int (float_to_int64 x) \<le> x"
proof -
  have f: "0 \<le> \<lfloor>x\<rfloor>" "\<lfloor>x\<rfloor> \<le> n" using assms(1,2) by (simp_all add: floor_le_iff)
  then have "in_i64 \<lfloor>x\<rfloor>" using assms(3) by (intro in_i64_nonneg) simp_all
  then show ?thesis using f assms(1) by (simp add: float_to_int64_def)
qed

lemma float_to_int64_at_least:
  assumes "of_int m \<le> x" and "x \<le> of_int n" and "0 \<le> m" and "n \<le> max_i64"
  shows "m \<le> float_to_int64 x"
proof -
  have x: "0 \<le> x" using assms(1,3) by (meson of_int_0_le_iff order_trans)
  have f: "m \<le> \<lfloor>x\<rfloor>" "\<lfloor>x\<rfloor> \<le> n" using assms(1,2) by (simp_all add: le_floor_iff floor_le_iff)
  then have "in_i64 \<lfloor>x\<rfloor>" using x assms(4) by (intro in_i64_nonneg) simp_all
  then show ?thesis using f x by (simp add: float_to_int64_def)
qed

abbreviation eps :: rat where "eps \<equiv> 1 / 2 ^ 53"

text \<open>A delay with jitter, and the rounding it goes through.\<close>

definition jittered :: "rat \<Rightarrow> rat \<Rightarrow> rat" where
  "jittered rand d = f64 (d + f64 (f64 (rand * f64 (1 / 10)) * d))"

lemma jittered_bounds:
  assumes "0 \<le> d" and "0 \<le> rand"
  shows "0 \<le> jittered rand d"
    and "rand \<le> 1 \<Longrightarrow> jittered rand d \<le> d * (1 + (1 + eps) ^ 3 / 10) * (1 + eps)"
    and "(d + rand / 10 * d * (1 - eps) ^ 3) * (1 - eps) \<le> jittered rand d"
proof -
  let ?a = "f64 (1 / 10)" and ?b = "f64 (rand * f64 (1 / 10))"
  have a: "1 / 10 * (1 - eps) \<le> ?a" "?a \<le> 1 / 10 * (1 + eps)" "0 \<le> ?a"
    using f64.rnd_lower [of "1 / 10"] f64.rnd_upper [of "1 / 10"] f64.rnd_nonneg [of "1 / 10"] by simp_all
  have ra: "0 \<le> rand * ?a" using assms(2) a(3) by simp
  have b0: "0 \<le> ?b" by (rule f64.rnd_nonneg [OF ra])
  have "?b \<le> rand * ?a * (1 + eps)" by (rule f64.rnd_upper [OF ra])
  also have "\<dots> \<le> rand * (1 / 10 * (1 + eps)) * (1 + eps)"
    using a(2) assms(2) by (intro mult_right_mono mult_left_mono) simp_all
  finally have b1: "?b \<le> rand / 10 * (1 + eps) ^ 2" by (simp add: power2_eq_square)
  have "rand / 10 * (1 - eps) ^ 2 = rand * (1 / 10 * (1 - eps)) * (1 - eps)" by (simp add: power2_eq_square)
  also have "\<dots> \<le> rand * ?a * (1 - eps)"
    using a(1) assms(2) by (intro mult_right_mono mult_left_mono) simp_all
  also have "\<dots> \<le> ?b" by (rule f64.rnd_lower [OF ra])
  finally have b2: "rand / 10 * (1 - eps) ^ 2 \<le> ?b" .
  have bd: "0 \<le> ?b * d" using b0 assms(1) by simp
  let ?c = "f64 (?b * d)"
  have c0: "0 \<le> ?c" by (rule f64.rnd_nonneg [OF bd])
  have "?c \<le> ?b * d * (1 + eps)" by (rule f64.rnd_upper [OF bd])
  also have "\<dots> \<le> rand / 10 * (1 + eps) ^ 2 * d * (1 + eps)"
    using b1 assms(1) by (intro mult_right_mono) simp_all
  finally have c1: "?c \<le> rand / 10 * d * (1 + eps) ^ 3" by (simp add: power2_eq_square power3_eq_cube)
  have "rand / 10 * d * (1 - eps) ^ 3 = rand / 10 * (1 - eps) ^ 2 * d * (1 - eps)"
    by (simp add: power2_eq_square power3_eq_cube)
  also have "\<dots> \<le> ?b * d * (1 - eps)" using b2 assms(1) by (intro mult_right_mono) simp_all
  also have "\<dots> \<le> ?c" by (rule f64.rnd_lower [OF bd])
  finally have c2: "rand / 10 * d * (1 - eps) ^ 3 \<le> ?c" .
  have dc: "0 \<le> d + ?c" using c0 assms(1) by simp
  show "0 \<le> jittered rand d" unfolding jittered_def by (rule f64.rnd_nonneg [OF dc])
  have "(d + rand / 10 * d * (1 - eps) ^ 3) * (1 - eps) \<le> (d + ?c) * (1 - eps)"
    using c2 by (intro mult_right_mono) simp_all
  also have "\<dots> \<le> jittered rand d" unfolding jittered_def by (rule f64.rnd_lower [OF dc])
  finally show "(d + rand / 10 * d * (1 - eps) ^ 3) * (1 - eps) \<le> jittered rand d" .
  assume "rand \<le> 1"
  then have "rand / 10 * d * (1 + eps) ^ 3 \<le> 1 / 10 * d * (1 + eps) ^ 3"
    using assms(1) by (intro mult_right_mono) simp_all
  then have c3: "d + ?c \<le> d * (1 + (1 + eps) ^ 3 / 10)" using c1 by (simp add: distrib_left)
  have "jittered rand d \<le> (d + ?c) * (1 + eps)" unfolding jittered_def by (rule f64.rnd_upper [OF dc])
  also have "\<dots> \<le> d * (1 + (1 + eps) ^ 3 / 10) * (1 + eps)" using c3 by (intro mult_right_mono) simp_all
  finally show "jittered rand d \<le> d * (1 + (1 + eps) ^ 3 / 10) * (1 + eps)" .
qed

lemma cut_of_int: "(if (of_int x :: rat) > of_int m then of_int m else of_int x) = (of_int (min x m) :: rat)"
  by (simp add: min_def)

subsection \<open>Properties\<close>

text \<open>
  C20. What a call does, from its environment alone: it makes the attempts 0, 1, ... up to the
  first that succeeds, fails for good, is the last one or is followed by a context that is
  done; each before it is followed by \<open>onRetry\<close> with its number plus one, its error and its
  delay; and that attempt decides the result and whether \<open>onFinalError\<close> is called. At most
  \<open>MaxAttempts\<close> attempts are made.
\<close>

theorem retry_run_complete:
  fixes cfg :: retry_config
  defines "c \<equiv> with_defaults cfg"
  shows "\<exists>n. int n < MaxAttempts c \<and> \<not> goes_on c env (int n) \<and> (\<forall>a<n. goes_on c env (int a)) \<and>
    DoWithCallbacks pow cfg env =
      (concat (map (\<lambda>a. retry_events pow c env (int a)) [0..<n]) @ fst (final_events pow c env (int n)),
       snd (final_events pow c env (int n)))"
proof -
  let ?P = "\<lambda>n. \<not> goes_on c env (int n)"
  define n where "n = (LEAST n. ?P n)"
  have pos: "0 < MaxAttempts c" unfolding c_def by (rule with_defaults_positive)
  then have "?P (nat (MaxAttempts c - 1))" by (simp add: goes_on_def)
  then have "?P n" and "n \<le> nat (MaxAttempts c - 1)" unfolding n_def by (rule LeastI, rule Least_le)
  then have less: "int n < MaxAttempts c" using pos by linarith
  have before: "goes_on c env (int a)" if "a < n" for a
    using not_less_Least [of a ?P] that by (simp add: n_def)
  then have "goes_on c env a" if "0 \<le> a" "a < int n" for a
    using that before [of "nat a"] by (simp add: nat_less_iff)
  from DoWithCallbacks_run [of n cfg env pow, folded c_def, OF less this \<open>?P n\<close>] less before \<open>?P n\<close>
  show ?thesis by blast
qed

text \<open>An environment with attempts that fail, and the first one of them, not retryable, or the second one successful.\<close>

abbreviation env_give_up :: "string retry_env" where
  "env_give_up \<equiv> \<lparr>fn_err = \<lambda>a. Some (RetryableError (Plain ''x'') False), ctx_done = \<lambda>a. False, rand_float = \<lambda>a. 0\<rparr>"

theorem retry_run_complete_witness:
  "DoWithCallbacks (\<lambda>b n. f64 (b * n)) retry_DefaultConfig env_give_up =
     ([Attempt 0, OnFinalError 3 (RetryableError (Plain ''x'') False)], LastError (RetryableError (Plain ''x'') False))"
proof -
  let ?c = "with_defaults retry_DefaultConfig"
  have c: "MaxAttempts ?c = 3" by (simp add: with_defaults_def retry_DefaultConfig_def Let_def second_def)
  from retry_run_complete [of retry_DefaultConfig env_give_up "\<lambda>b n. f64 (b * n)"] obtain n where
    n: "\<forall>a<n. goes_on ?c env_give_up (int a)" "DoWithCallbacks (\<lambda>b n. f64 (b * n)) retry_DefaultConfig env_give_up =
      (concat (map (\<lambda>a. retry_events (\<lambda>b n. f64 (b * n)) ?c env_give_up (int a)) [0..<n]) @
        fst (final_events (\<lambda>b n. f64 (b * n)) ?c env_give_up (int n)),
       snd (final_events (\<lambda>b n. f64 (b * n)) ?c env_give_up (int n)))" by blast
  have "\<not> goes_on ?c env_give_up a" for a by (simp add: goes_on_def)
  then have "n = 0" using n(1) by blast
  with n(2) show ?thesis by (simp add: final_events_def c)
qed

text \<open>
  The delay without jitter: it is never negative and never more than \<open>MaxDelay\<close>; and with
  a power function that doubles exactly it is the initial delay doubled once per attempt,
  cut off at \<open>MaxDelay\<close>.
\<close>

theorem retry_delay_doubles:
  assumes "\<not> Jitter cfg" and "0 < InitialDelay cfg" and "0 < MaxDelay cfg" and "MaxDelay cfg \<le> 2 ^ 53"
    and "pow (BackoffFactor cfg) (float64 (int n)) = 2 ^ n" and "InitialDelay cfg * 2 ^ n \<le> 2 ^ 53"
  shows "calculateDelay pow rand cfg (int n) = min (InitialDelay cfg * 2 ^ n) (MaxDelay cfg)"
proof -
  let ?x = "InitialDelay cfg * 2 ^ n"
  have less: "InitialDelay cfg \<le> ?x" using assms(2) by simp
  have "\<bar>InitialDelay cfg\<bar> \<le> 2 ^ 53" using assms(2,6) less by linarith
  then have "float64 (InitialDelay cfg) = of_int (InitialDelay cfg)" by (rule float64_exact)
  then have "float64 (InitialDelay cfg) * pow (BackoffFactor cfg) (float64 (int n)) = of_int ?x"
    by (simp add: assms(5))
  moreover have "f64 (of_int ?x) = of_int ?x" by (rule f64_exact) (use assms(2,6) in simp)
  moreover have "float64 (MaxDelay cfg) = of_int (MaxDelay cfg)"
    by (rule float64_exact) (use assms(3,4) in simp)
  ultimately have "calculateDelay pow rand cfg (int n) =
      float_to_int64 (if (of_int ?x :: rat) > of_int (MaxDelay cfg) then of_int (MaxDelay cfg) else of_int ?x)"
    using assms(1) by (simp only: calculateDelay_def Let_def if_False)
  also have "\<dots> = float_to_int64 (of_int (min ?x (MaxDelay cfg)))"
    by (simp only: cut_of_int)
  also have "\<dots> = min ?x (MaxDelay cfg)"
  proof -
    have "0 \<le> min ?x (MaxDelay cfg)" "min ?x (MaxDelay cfg) \<le> max_i64"
      using assms(2-4) by (auto simp: go_defs min_def)
    then show ?thesis unfolding float_to_int64_def Let_def by (simp add: go_defs)
  qed
  finally show ?thesis .
qed

theorem retry_delay_doubles_witness:
  "calculateDelay (\<lambda>b n. 8) 0 \<lparr>MaxAttempts = 9, InitialDelay = 100, MaxDelay = 500, BackoffFactor = 2, Jitter = False\<rparr> 3 = 500"
  using retry_delay_doubles [of "\<lparr>MaxAttempts = 9, InitialDelay = 100, MaxDelay = 500, BackoffFactor = 2, Jitter = False\<rparr>"
      "\<lambda>b n. 8" 3 0] by simp

text \<open>
  Jitter is added after the delay is cut off, so the delay can be longer than \<open>MaxDelay\<close>:
  with the default configuration and exact powers of two, the delay after the sixth attempt
  is above it for every random number of one half or more.
\<close>

theorem retry_jitter_exceeds_MaxDelay:
  assumes "pow 2 (float64 5) = 32" and "1 / 2 \<le> rand" and "rand < 1"
  shows "MaxDelay retry_DefaultConfig < calculateDelay pow rand retry_DefaultConfig 5"
proof -
  let ?m = "30 * 10 ^ 9 :: rat"
  have f: "float64 (1 * second) = 10 ^ 9" "float64 (30 * second) = ?m" "f64 (10 ^ 9 * 32) = 32 * 10 ^ 9"
    using float64_exact [of "1 * second"] float64_exact [of "30 * second"] f64_exact [of "32 * 10 ^ 9"]
    by (simp_all add: second_def)
  have d: "calculateDelay pow rand retry_DefaultConfig 5 = float_to_int64 (jittered rand ?m)"
    by (simp add: calculateDelay_def jittered_def retry_DefaultConfig_def assms(1) f [simplified] Let_def)
  note j = jittered_bounds [of ?m rand]
  have "jittered rand ?m \<le> of_int (34 * 10 ^ 9)"
    using j(2) assms(2,3) by (simp add: eval_nat_numeral)
  moreover have up: "31 * 10 ^ 9 \<le> jittered rand ?m"
  proof -
    have "31 * 10 ^ 9 \<le> (?m + (1 / 2) / 10 * ?m * (1 - eps) ^ 3) * (1 - eps)" by (simp add: eval_nat_numeral)
    also have "\<dots> \<le> (?m + rand / 10 * ?m * (1 - eps) ^ 3) * (1 - eps)"
      using assms(2) by (intro mult_right_mono add_left_mono divide_right_mono) simp_all
    also have "\<dots> \<le> jittered rand ?m" by (rule j(3)) (use assms(2,3) in simp_all)
    finally show ?thesis .
  qed
  ultimately have "31 * 10 ^ 9 \<le> float_to_int64 (jittered rand ?m)"
    by (intro float_to_int64_at_least [of "31 * 10 ^ 9" _ "34 * 10 ^ 9"]) (simp_all add: go_defs)
  then show ?thesis unfolding d by (simp add: retry_DefaultConfig_def second_def)
qed

theorem retry_jitter_exceeds_MaxDelay_witness:
  "MaxDelay retry_DefaultConfig < calculateDelay (\<lambda>b n. 32) (3 / 4) retry_DefaultConfig 5"
  by (rule retry_jitter_exceeds_MaxDelay) simp_all

text \<open>
  C38. The delay is bounded for every random number of the unit interval, every positive
  \<open>InitialDelay\<close>, every power that is not negative and every positive \<open>MaxDelay\<close> up to \<open>2 ^ 62\<close> nanoseconds (146 years): it is never negative, and at most
  \<open>float64(MaxDelay)\<close>, or a tenth more with jitter up to the rounding. Up to \<open>2 ^ 53\<close> nanoseconds
  (104 days) \<open>float64(MaxDelay)\<close> is \<open>MaxDelay\<close> itself, above it at most the rounding more.
\<close>

theorem retry_delay_bounds:
  assumes "0 < InitialDelay cfg" and "0 < MaxDelay cfg" and "MaxDelay cfg \<le> 2 ^ 62"
    and "0 \<le> pow (BackoffFactor cfg) (float64 attempt)" and "0 \<le> rand" and "rand \<le> 1"
  shows "0 \<le> calculateDelay pow rand cfg attempt \<and>
    of_int (calculateDelay pow rand cfg attempt) \<le>
      (if Jitter cfg then float64 (MaxDelay cfg) * (1 + (1 + 1 / 2 ^ 53) ^ 3 / 10) * (1 + 1 / 2 ^ 53)
       else float64 (MaxDelay cfg)) \<and>
    float64 (MaxDelay cfg) \<le> of_int (MaxDelay cfg) * (1 + 1 / 2 ^ 53) \<and>
    (MaxDelay cfg \<le> 2 ^ 53 \<longrightarrow> float64 (MaxDelay cfg) = of_int (MaxDelay cfg))"
proof -
  let ?m = "float64 (MaxDelay cfg)" and ?x = "f64 (float64 (InitialDelay cfg) * pow (BackoffFactor cfg) (float64 attempt))"
  define d where "d = (if ?x > float64 (MaxDelay cfg) then float64 (MaxDelay cfg) else ?x)"
  have "0 \<le> ?x" using assms(4) float64_nonneg [of "InitialDelay cfg"] assms(1) by (intro f64.rnd_nonneg) simp
  then have d: "0 \<le> d" "d \<le> ?m" using delay_cut [of ?x "MaxDelay cfg"] assms(2) by (simp_all add: d_def)
  have r: "?m \<le> of_int (MaxDelay cfg) * (1 + eps)"
    unfolding float64_def using assms(2) by (intro f64.rnd_upper) simp
  also have "\<dots> \<le> 2 ^ 62 * (1 + eps)"
    using assms(3) by (intro mult_right_mono) (metis of_int_le_iff of_int_numeral of_int_power, simp)
  finally have m: "?m \<le> 2 ^ 62 * (1 + eps)" .
  have "0 \<le> calculateDelay pow rand cfg attempt \<and> of_int (calculateDelay pow rand cfg attempt) \<le>
      (if Jitter cfg then ?m * (1 + (1 + eps) ^ 3 / 10) * (1 + eps) else ?m)"
  proof (cases "Jitter cfg")
    case True
    then have c: "calculateDelay pow rand cfg attempt = float_to_int64 (jittered rand d)"
      by (simp add: calculateDelay_def jittered_def d_def Let_def)
    note j = jittered_bounds [OF d(1) assms(5)]
    have "d * (1 + (1 + eps) ^ 3 / 10) * (1 + eps) \<le> ?m * (1 + (1 + eps) ^ 3 / 10) * (1 + eps)"
      using d(2) by (intro mult_right_mono) simp_all
    with j(2) [OF assms(6)] have up: "jittered rand d \<le> ?m * (1 + (1 + eps) ^ 3 / 10) * (1 + eps)"
      by (rule order_trans)
    also have "\<dots> \<le> 2 ^ 62 * (1 + eps) * (1 + (1 + eps) ^ 3 / 10) * (1 + eps)"
      using m by (intro mult_right_mono) simp_all
    also have "\<dots> \<le> of_int (2 ^ 63 - 1)" by (simp add: eval_nat_numeral)
    finally have "jittered rand d \<le> of_int (2 ^ 63 - 1)" .
    from float_to_int64_between [OF j(1) this] up True show ?thesis unfolding c by (simp add: go_defs)
  next
    case False
    then have c: "calculateDelay pow rand cfg attempt = float_to_int64 d"
      by (simp add: calculateDelay_def d_def Let_def)
    have "2 ^ 62 * (1 + eps) \<le> of_int (2 ^ 63 - 1)" by simp
    with d(2) m have "d \<le> of_int (2 ^ 63 - 1)" by linarith
    from float_to_int64_between [OF d(1) this] d(2) False show ?thesis unfolding c by (simp add: go_defs)
  qed
  then show ?thesis using r float64_exact [of "MaxDelay cfg"] assms(2) by simp
qed

theorem retry_delay_bounds_witness:
  "0 \<le> calculateDelay (\<lambda>b n. 2) (1 / 2) \<lparr>MaxAttempts = 3, InitialDelay = 10, MaxDelay = 100, BackoffFactor = 2, Jitter = True\<rparr> 1"
  using retry_delay_bounds [of "\<lparr>MaxAttempts = 3, InitialDelay = 10, MaxDelay = 100, BackoffFactor = 2, Jitter = True\<rparr>"
      "\<lambda>b n. 2" 1 "1 / 2"] by simp

lemma float64_max: "float64 max_i64 = 2 ^ 63"
  by code_simp

text \<open>
  C39. At the top of the range the bound is lost: with the largest \<open>MaxDelay\<close> (the usual way
  to ask for no cap) and no jitter, a delay that has grown to \<open>2 ^ 63\<close> or beyond is cut off at
  \<open>float64(MaxDelay)\<close>, which is \<open>2 ^ 63\<close> and out of the range of \<open>Duration\<close>, so that the
  conversion gives the least integer (on amd64; Go leaves the result to the platform): the
  retry does not wait at all.
\<close>

theorem retry_delay_overflows:
  assumes "\<not> Jitter cfg" and "MaxDelay cfg = max_i64"
    and "2 ^ 63 \<le> f64 (float64 (InitialDelay cfg) * pow (BackoffFactor cfg) (float64 attempt))"
  shows "calculateDelay pow rand cfg attempt = min_i64 \<and> calculateDelay pow rand cfg attempt < 0"
proof -
  let ?x = "f64 (float64 (InitialDelay cfg) * pow (BackoffFactor cfg) (float64 attempt))"
  have "calculateDelay pow rand cfg attempt = float_to_int64 (2 ^ 63)"
    using assms by (auto simp: calculateDelay_def Let_def float64_max)
  also have "\<dots> = min_i64" by (simp add: float_to_int64_def in_i64_def go_defs)
  finally show ?thesis by (simp add: go_defs)
qed

theorem retry_delay_overflows_witness:
  "calculateDelay (\<lambda>b n. 2 ^ 34) 0 \<lparr>MaxAttempts = 40, InitialDelay = second, MaxDelay = max_i64,
     BackoffFactor = 2, Jitter = False\<rparr> 34 = min_i64"
proof -
  have "2 ^ 63 \<le> f64 (float64 second * 2 ^ 34)" by code_simp
  then show ?thesis
    using retry_delay_overflows [of "\<lparr>MaxAttempts = 40, InitialDelay = second, MaxDelay = max_i64,
      BackoffFactor = 2, Jitter = False\<rparr>" "\<lambda>b n. 2 ^ 34" 34 0] by simp
qed

end
