(* ===== verification/Safe_Store.thy ===== *)
theory Safe_Store
  imports Go_Prelude
begin

section \<open>The concurrent store (\<open>pkg/safe/store.go\<close>)\<close>

text \<open>
  Every operation holds the store's lock for its whole body, so it is one atomic function on
  the map. The map of the zero value is nil (\<^const>\<open>None\<close>): reads find nothing in it, a delete
  does nothing, and a write panics unless the map was made before. A map holds finitely many
  entries; where an operation ranges over them, the order is an argument, as Go leaves it open.
\<close>

subsection \<open>The map and its operations\<close>

type_synonym ('k, 'v) go_map = "('k \<rightharpoonup> 'v) option"

definition map_get :: "('k, 'v) go_map \<Rightarrow> 'k \<Rightarrow> 'v option" where
  "map_get m k = (case m of None \<Rightarrow> None | Some f \<Rightarrow> f k)"

text \<open>An assignment to a nil map panics (\<^const>\<open>None\<close>).\<close>

definition map_put :: "'k \<Rightarrow> 'v \<Rightarrow> ('k, 'v) go_map \<Rightarrow> ('k, 'v) go_map option" where
  "map_put k v m = (case m of None \<Rightarrow> None | Some f \<Rightarrow> Some (Some (f(k \<mapsto> v))))"

definition map_delete :: "'k \<Rightarrow> ('k, 'v) go_map \<Rightarrow> ('k, 'v) go_map" where
  "map_delete k m = (case m of None \<Rightarrow> None | Some f \<Rightarrow> Some (f(k := None)))"

definition map_len :: "('k, 'v) go_map \<Rightarrow> nat" where
  "map_len m = (case m of None \<Rightarrow> 0 | Some f \<Rightarrow> card (dom f))"

record ('k, 'v) store =
  st_m :: "('k, 'v) go_map"

definition zero_store :: "('k, 'v) store" where
  "zero_store = \<lparr>st_m = None\<rparr>"

definition NewStore :: "('k, 'v) store" where
  "NewStore = \<lparr>st_m = Some Map.empty\<rparr>"

text \<open>The copy of the initial entries, in the order in which the map is ranged over.\<close>

fun copy_entries :: "('k \<times> 'v) list \<Rightarrow> ('k, 'v) go_map \<Rightarrow> ('k, 'v) go_map option" where
  "copy_entries [] m = Some m"
| "copy_entries ((k, v) # kvs) m = (case map_put k v m of None \<Rightarrow> None | Some m' \<Rightarrow> copy_entries kvs m')"

definition NewStoreFromMap :: "('k \<times> 'v) list \<Rightarrow> ('k, 'v) store option" where
  "NewStoreFromMap entries = map_option (\<lambda>m. \<lparr>st_m = m\<rparr>) (copy_entries entries (Some Map.empty))"

definition lazyInit :: "('k, 'v) store \<Rightarrow> ('k, 'v) store" where
  "lazyInit s = (if st_m s = None then s\<lparr>st_m := Some Map.empty\<rparr> else s)"

definition store_Get :: "'k \<Rightarrow> ('k, 'v) store \<Rightarrow> 'v option" where
  "store_Get k s = map_get (st_m s) k"

definition store_GetOrDefault :: "'k \<Rightarrow> 'v \<Rightarrow> ('k, 'v) store \<Rightarrow> 'v" where
  "store_GetOrDefault k def s = (case map_get (st_m s) k of Some v \<Rightarrow> v | None \<Rightarrow> def)"

definition store_put :: "'k \<Rightarrow> 'v \<Rightarrow> ('k, 'v) store \<Rightarrow> ('k, 'v) store option" where
  "store_put k v s = map_option (\<lambda>m. s\<lparr>st_m := m\<rparr>) (map_put k v (st_m s))"

definition store_Put :: "'k \<Rightarrow> 'v \<Rightarrow> ('k, 'v) store \<Rightarrow> ('k, 'v) store option" where
  "store_Put k v s = store_put k v (lazyInit s)"

definition store_PutIfAbsent :: "'k \<Rightarrow> 'v \<Rightarrow> ('k, 'v) store \<Rightarrow> (('v \<times> bool) \<times> ('k, 'v) store) option" where
  "store_PutIfAbsent k v s =
     (let s = lazyInit s in
      case map_get (st_m s) k of
        Some existing \<Rightarrow> Some ((existing, False), s)
      | None \<Rightarrow> map_option (\<lambda>s'. ((v, True), s')) (store_put k v s))"

definition store_Delete :: "'k \<Rightarrow> ('k, 'v) store \<Rightarrow> 'v option \<times> ('k, 'v) store" where
  "store_Delete k s =
     (let v = map_get (st_m s) k in (v, if v \<noteq> None then s\<lparr>st_m := map_delete k (st_m s)\<rparr> else s))"

definition store_Has :: "'k \<Rightarrow> ('k, 'v) store \<Rightarrow> bool" where
  "store_Has k s \<longleftrightarrow> map_get (st_m s) k \<noteq> None"

definition store_Len :: "('k, 'v) store \<Rightarrow> nat" where
  "store_Len s = map_len (st_m s)"

text \<open>
  The callback of \<open>Update\<close> gets the current value, or none, and returns the next value and
  whether to keep the entry; or it panics (\<^const>\<open>None\<close>), which leaves the store as
  \<open>lazyInit\<close> made it and unlocks it.
\<close>

definition store_Update :: "'k \<Rightarrow> ('v option \<Rightarrow> ('v \<times> bool) option) \<Rightarrow> ('k, 'v) store \<Rightarrow> bool \<times> ('k, 'v) store" where
  "store_Update k fn s =
     (let s = lazyInit s in
      case fn (map_get (st_m s) k) of
        None \<Rightarrow> (False, s)
      | Some (next, keep) \<Rightarrow>
          if \<not> keep then (True, s\<lparr>st_m := map_delete k (st_m s)\<rparr>)
          else (case store_put k next s of None \<Rightarrow> (False, s) | Some s' \<Rightarrow> (True, s')))"

text \<open>
  The entries of a store, and the orders in which they can be ranged over. The operations that
  range over the map get the entries in such an order.
\<close>

definition store_entries :: "('k, 'v) store \<Rightarrow> 'k \<rightharpoonup> 'v" where
  "store_entries s = map_get (st_m s)"

definition entries_of :: "('k, 'v) store \<Rightarrow> ('k \<times> 'v) list \<Rightarrow> bool" where
  "entries_of s kvs \<longleftrightarrow> distinct (map fst kvs) \<and> map_of kvs = map_get (st_m s)"

text \<open>\<open>Snapshot\<close> copies the entries it ranges over into a new map.\<close>

definition store_Snapshot :: "('k \<times> 'v) list \<Rightarrow> ('k, 'v) go_map option" where
  "store_Snapshot kvs = copy_entries kvs (Some Map.empty)"

text \<open>\<open>Range\<close> visits entries until the callback returns false; what it visited is returned.\<close>

fun store_Range :: "('k \<Rightarrow> 'v \<Rightarrow> bool) \<Rightarrow> ('k \<times> 'v) list \<Rightarrow> ('k \<times> 'v) list" where
  "store_Range fn [] = []"
| "store_Range fn ((k, v) # kvs) = (if fn k v then (k, v) # store_Range fn kvs else [(k, v)])"

definition store_Keys :: "('k \<times> 'v) list \<Rightarrow> 'k list" where
  "store_Keys kvs = map fst kvs"

definition store_Values :: "('k \<times> 'v) list \<Rightarrow> 'v list" where
  "store_Values kvs = map snd kvs"

definition store_Clear :: "('k, 'v) store \<Rightarrow> ('k, 'v) store" where
  "store_Clear s = s\<lparr>st_m := Some Map.empty\<rparr>"

subsection \<open>The interface of a store\<close>

text \<open>
  What a client relies on: a lookup, an insertion that cannot fail, a removal, and an atomic
  change of one entry.
\<close>

locale kv_store =
  fixes lookup :: "'s \<Rightarrow> 'k \<Rightarrow> 'v option" and insert :: "'k \<Rightarrow> 'v \<Rightarrow> 's \<Rightarrow> 's option"
    and remove :: "'k \<Rightarrow> 's \<Rightarrow> 'v option \<times> 's"
    and update :: "'k \<Rightarrow> ('v option \<Rightarrow> ('v \<times> bool) option) \<Rightarrow> 's \<Rightarrow> bool \<times> 's"
  assumes insert_total: "\<exists>s'. insert k v s = Some s'"
    and lookup_insert: "insert k v s = Some s' \<Longrightarrow> lookup s' = (lookup s)(k \<mapsto> v)"
    and remove_value: "fst (remove k s) = lookup s k"
    and lookup_remove: "lookup (snd (remove k s)) = (lookup s)(k := None)"
    and lookup_update: "lookup (snd (update k fn s)) =
      (case fn (lookup s k) of None \<Rightarrow> lookup s | Some (v, keep) \<Rightarrow> (lookup s)(k := if keep then Some v else None))"
begin

lemma insert_then_remove: "insert k v s = Some s' \<Longrightarrow> fst (remove k s') = Some v \<and>
    lookup (snd (remove k s')) = (lookup s)(k := None)"
  by (simp add: remove_value lookup_remove lookup_insert)

text \<open>Updates that do not panic, folded over a list of calls, act on each entry in turn.\<close>

fun updates :: "('k \<times> ('v option \<Rightarrow> ('v \<times> bool) option)) list \<Rightarrow> 's \<Rightarrow> 's" where
  "updates [] s = s"
| "updates ((k, fn) # us) s = updates us (snd (update k fn s))"

lemma lookup_updates:
  "lookup (updates us s) k = fold (\<lambda>(k', fn) x. if k' = k then
     (case fn x of None \<Rightarrow> x | Some (v, keep) \<Rightarrow> if keep then Some v else None) else x) us (lookup s k)"
  by (induction us arbitrary: s) (auto simp: lookup_update split: option.splits)

end

lemma map_get_simps [simp]:
  "map_get None k = None" "map_get (Some f) k = f k"
  by (simp_all add: map_get_def)

lemma lazyInit_get [simp]: "map_get (st_m (lazyInit s)) = map_get (st_m s)"
  by (auto simp: lazyInit_def fun_eq_iff)

lemma lazyInit_some: "\<exists>f. st_m (lazyInit s) = Some f \<and> map_get (st_m s) = f"
  by (cases "st_m s") (auto simp: lazyInit_def fun_eq_iff)

lemma store_put_lazy:
  "\<exists>s'. store_put k v (lazyInit s) = Some s' \<and> map_get (st_m s') = (map_get (st_m s))(k \<mapsto> v)"
  using lazyInit_some [of s] by (auto simp: store_put_def map_put_def fun_eq_iff)

interpretation st: kv_store "\<lambda>s k. map_get (st_m s) k" store_Put store_Delete store_Update
proof
  fix s :: "('k, 'v) store" and k and v and s' and fn
  show "\<exists>s'. store_Put k v s = Some s'" using store_put_lazy [of k v s] by (auto simp: store_Put_def)
  show "map_get (st_m s') = (map_get (st_m s))(k \<mapsto> v)" if "store_Put k v s = Some s'"
    using store_put_lazy [of k v s] that by (auto simp: store_Put_def)
  show "fst (store_Delete k s) = map_get (st_m s) k" by (simp add: store_Delete_def Let_def)
  show "map_get (st_m (snd (store_Delete k s))) = (map_get (st_m s))(k := None)"
    by (cases "st_m s") (auto simp: store_Delete_def map_delete_def fun_eq_iff Let_def)
  obtain f where f: "st_m (lazyInit s) = Some f" "map_get (st_m s) = f" using lazyInit_some by blast
  obtain s'' w where p: "\<And>w. \<exists>s''. store_put k w (lazyInit s) = Some s'' \<and> map_get (st_m s'') = f(k \<mapsto> w)"
    using store_put_lazy [of k _ s] f by auto
  show "map_get (st_m (snd (store_Update k fn s))) =
      (case fn (map_get (st_m s) k) of None \<Rightarrow> map_get (st_m s)
       | Some (v, keep) \<Rightarrow> (map_get (st_m s))(k := if keep then Some v else None))"
  proof (cases "fn (f k)")
    case None
    then show ?thesis by (simp add: store_Update_def f(1) Let_def) (simp add: f fun_eq_iff)
  next
    case (Some r)
    obtain w keep where r: "r = (w, keep)" by fastforce
    obtain s2 where "store_put k w (lazyInit s) = Some s2" "map_get (st_m s2) = f(k \<mapsto> w)" using p by blast
    then show ?thesis
      by (cases keep) (simp_all add: store_Update_def Some r f Let_def map_delete_def fun_eq_iff)
  qed
qed

subsection \<open>The store is a map\<close>

text \<open>The calls of a client, what they return (of a snapshot, the entries copied), and what they return on a plain map.\<close>

datatype ('k, 'v) store_op = OpGet 'k | OpGetOrDefault 'k 'v | OpPut 'k 'v | OpPutIfAbsent 'k 'v | OpDelete 'k
  | OpHas 'k | OpLen | OpUpdate 'k "'v option \<Rightarrow> ('v \<times> bool) option" | OpSnapshot | OpClear

datatype ('k, 'v) store_obs = ObsValue "'v option" | ObsPresent bool | ObsStored 'v bool | ObsLen nat
  | ObsEntries "'k \<rightharpoonup> 'v" | ObsDone | ObsPanic

fun store_call :: "('k, 'v) store_op \<Rightarrow> ('k, 'v) store \<Rightarrow> ('k, 'v) store_obs \<times> ('k, 'v) store" where
  "store_call (OpGet k) s = (ObsValue (store_Get k s), s)"
| "store_call (OpGetOrDefault k d) s = (ObsValue (Some (store_GetOrDefault k d s)), s)"
| "store_call (OpPut k v) s = (case store_Put k v s of None \<Rightarrow> (ObsPanic, s) | Some s' \<Rightarrow> (ObsDone, s'))"
| "store_call (OpPutIfAbsent k v) s =
     (case store_PutIfAbsent k v s of None \<Rightarrow> (ObsPanic, s) | Some ((w, b), s') \<Rightarrow> (ObsStored w b, s'))"
| "store_call (OpDelete k) s = (let (v, s') = store_Delete k s in (ObsValue v, s'))"
| "store_call (OpHas k) s = (ObsPresent (store_Has k s), s)"
| "store_call OpLen s = (ObsLen (store_Len s), s)"
| "store_call (OpUpdate k fn) s = (let (ok, s') = store_Update k fn s in (if ok then ObsDone else ObsPanic, s'))"
| "store_call OpSnapshot s = (ObsEntries (store_entries s), s)"
| "store_call OpClear s = (ObsDone, store_Clear s)"

fun map_call :: "('k, 'v) store_op \<Rightarrow> ('k \<rightharpoonup> 'v) \<Rightarrow> ('k, 'v) store_obs \<times> ('k \<rightharpoonup> 'v)" where
  "map_call (OpGet k) f = (ObsValue (f k), f)"
| "map_call (OpGetOrDefault k d) f = (ObsValue (Some (case f k of Some v \<Rightarrow> v | None \<Rightarrow> d)), f)"
| "map_call (OpPut k v) f = (ObsDone, f(k \<mapsto> v))"
| "map_call (OpPutIfAbsent k v) f = (case f k of Some w \<Rightarrow> (ObsStored w False, f) | None \<Rightarrow> (ObsStored v True, f(k \<mapsto> v)))"
| "map_call (OpDelete k) f = (ObsValue (f k), f(k := None))"
| "map_call (OpHas k) f = (ObsPresent (k \<in> dom f), f)"
| "map_call OpLen f = (ObsLen (card (dom f)), f)"
| "map_call (OpUpdate k fn) f =
     (case fn (f k) of None \<Rightarrow> (ObsPanic, f) | Some (v, keep) \<Rightarrow> (ObsDone, f(k := if keep then Some v else None)))"
| "map_call OpSnapshot f = (ObsEntries f, f)"
| "map_call OpClear f = (ObsDone, Map.empty)"

lemma store_Update_ok: "fst (store_Update k fn s) \<longleftrightarrow> fn (map_get (st_m s) k) \<noteq> None"
proof -
  obtain f where f: "st_m (lazyInit s) = Some f" "map_get (st_m s) = f" using lazyInit_some by blast
  define p where "p w = the (store_put k w (lazyInit s))" for w
  have "store_put k w (lazyInit s) = Some (p w)" for w using store_put_lazy [of k w s] by (auto simp: p_def)
  then show ?thesis by (auto simp: store_Update_def f Let_def split: option.splits)
qed

lemma store_call_refines:
  "store_call c s = (r, s') \<Longrightarrow> map_call c (map_get (st_m s)) = (r, map_get (st_m s'))"
proof (cases c)
  case (OpPut k v)
  obtain s2 where "store_Put k v s = Some s2" using st.insert_total [of k v s] by blast
  with st.lookup_insert [OF this] OpPut show "store_call c s = (r, s') \<Longrightarrow> ?thesis" by (auto simp: fun_eq_iff)
next
  case (OpPutIfAbsent k v)
  obtain s2 where "store_put k v (lazyInit s) = Some s2" "map_get (st_m s2) = (map_get (st_m s))(k \<mapsto> v)"
    using store_put_lazy [of k v s] by blast
  with OpPutIfAbsent show "store_call c s = (r, s') \<Longrightarrow> ?thesis"
    by (auto simp: store_PutIfAbsent_def Let_def split: option.splits)
next
  case (OpDelete k)
  with st.lookup_remove [of k s] st.remove_value [of k s] show "store_call c s = (r, s') \<Longrightarrow> ?thesis"
    by (auto simp: Let_def split: prod.splits)
next
  case (OpUpdate k fn)
  with st.lookup_update [of k fn s] store_Update_ok [of k fn s] show "store_call c s = (r, s') \<Longrightarrow> ?thesis"
    by (auto simp: Let_def split: prod.splits option.splits)
qed (auto simp: store_Get_def store_GetOrDefault_def store_Has_def store_Len_def map_len_def store_entries_def
    store_Clear_def fun_eq_iff dom_def split: option.splits)

interpretation stm: op_refinement store_call map_call "\<lambda>s. map_get (st_m s)" "\<lambda>s. True" "\<lambda>c. True"
  by unfold_locales (simp add: store_call_refines)

lemma copy_entries_map:
  "\<exists>g. copy_entries kvs (Some f) = Some (Some g) \<and> g = f ++ map_of (rev kvs)"
  by (induction kvs arbitrary: f) (auto simp: map_put_def)

subsection \<open>Properties\<close>

text \<open>
  C22. The store is a map: every sequence of calls, on the zero value as on a new store, returns
  what the same calls return on a plain map that is empty at first, and a call panics only
  where its callback does. Every operation holds the lock for its whole body, so the calls of
  several goroutines are such a sequence; \<open>Update\<close> reads, changes and writes in one of its steps.
\<close>

theorem store_refines_map:
  "fst (run_ops store_call calls zero_store) = fst (run_ops map_call calls Map.empty) \<and>
   fst (run_ops store_call calls NewStore) = fst (run_ops map_call calls Map.empty)"
proof -
  have "fst (run_ops store_call calls s) = fst (run_ops map_call calls Map.empty)"
    if "map_get (st_m s) = Map.empty" for s
  proof -
    obtain rs s' where run: "run_ops store_call calls s = (rs, s')" by fastforce
    with stm.run_refines [OF _ _ run] that show ?thesis by (simp add: list_all_iff)
  qed
  then show ?thesis by (simp add: zero_store_def NewStore_def fun_eq_iff)
qed

lemma copy_entries_distinct:
  assumes "distinct (map fst kvs)"
  shows "copy_entries kvs (Some Map.empty) = Some (Some (map_of kvs))"
proof -
  have "map_of (rev kvs) = map_of kvs"
    using assms by (subst map_of_inject_set) (simp_all add: rev_map [symmetric])
  then show ?thesis using copy_entries_map [of kvs Map.empty] by simp
qed

lemma entries_of_order:
  assumes "distinct (map fst kvs)" and "entries_of \<lparr>st_m = Some (map_of kvs)\<rparr> kvs'"
  shows "distinct (map fst kvs') \<and> map_of kvs' = map_of kvs \<and> mset kvs' = mset kvs"
proof -
  have d: "distinct (map fst kvs')" and m: "map_of kvs' = map_of kvs"
    using assms(2) by (simp_all add: entries_of_def fun_eq_iff)
  then have "set kvs' = set kvs" using map_of_inject_set [OF d assms(1)] by simp
  with d m assms(1) show ?thesis by (simp add: set_eq_iff_mset_eq_distinct [symmetric] distinct_map)
qed

text \<open>
  C29. A store made from entries with different keys, copied in any order, gives them back: it
  holds the map of the entries, and in whatever order they are ranged over later, the copy
  \<open>Snapshot\<close> makes is that map and the keys and values visited are those of the entries.
\<close>

theorem store_entries_roundtrip:
  assumes "distinct (map fst kvs)"
  shows "\<exists>s. NewStoreFromMap kvs = Some s \<and> store_entries s = map_of kvs \<and> store_Len s = length kvs \<and>
    (\<forall>kvs'. entries_of s kvs' \<longrightarrow> mset kvs' = mset kvs \<and> store_Snapshot kvs' = Some (Some (map_of kvs)) \<and>
      set (store_Keys kvs') = fst ` set kvs \<and> mset (store_Values kvs') = mset (map snd kvs))"
proof -
  let ?s = "\<lparr>st_m = Some (map_of kvs)\<rparr>"
  have "NewStoreFromMap kvs = Some ?s" by (simp add: NewStoreFromMap_def copy_entries_distinct [OF assms])
  moreover have "store_entries ?s = map_of kvs" by (simp add: store_entries_def fun_eq_iff)
  moreover have "store_Len ?s = length kvs"
    using distinct_card [OF assms] by (simp add: store_Len_def map_len_def dom_map_of_conv_image_fst)
  moreover have "mset kvs' = mset kvs \<and> store_Snapshot kvs' = Some (Some (map_of kvs)) \<and>
      set (store_Keys kvs') = fst ` set kvs \<and> mset (store_Values kvs') = mset (map snd kvs)"
    if "entries_of ?s kvs'" for kvs'
  proof -
    note order = entries_of_order [OF assms that]
    then have "store_Snapshot kvs' = Some (Some (map_of kvs))"
      unfolding store_Snapshot_def using copy_entries_distinct [of kvs'] by simp
    with order show ?thesis by (metis mset_map set_map set_mset_mset store_Keys_def store_Values_def)
  qed
  ultimately show ?thesis by blast
qed

theorem store_entries_roundtrip_witness:
  "\<exists>s. NewStoreFromMap [(''a'', 1), (''b'', 2 :: nat)] = Some s \<and> store_entries s ''b'' = Some 2 \<and> store_Len s = 2"
proof -
  have "distinct (map fst [(''a'', 1), (''b'', 2 :: nat)])" by simp
  from store_entries_roundtrip [OF this] obtain s where
    "NewStoreFromMap [(''a'', 1), (''b'', 2 :: nat)] = Some s" "store_Len s = length [(''a'', 1), (''b'', 2 :: nat)]"
    "store_entries s = map_of [(''a'', 1), (''b'', 2 :: nat)]" by blast
  then show ?thesis by (intro exI [of _ s]) simp
qed

end
