(* ===== verification/Safe_Slice.thy ===== *)
theory Safe_Slice
  imports Go_Prelude
begin

section \<open>The concurrent slice (\<open>pkg/safe/slice.go\<close>)\<close>

text \<open>
  Every operation holds the lock for its whole body, and no reference to the backing array
  leaves the type: the constructor, \<open>Snapshot\<close> and \<open>Replace\<close> copy. So the state is a list and an
  operation is one atomic function on it; nil is the empty list. Callbacks are functions.
\<close>

subsection \<open>Operations\<close>

record 'a sslice =
  sl_s :: "'a list"

text \<open>\<open>make\<close> with a length and \<open>copy\<close>: the zero values are all overwritten.\<close>

definition copy_of :: "'a \<Rightarrow> 'a list \<Rightarrow> 'a list" where
  "copy_of zero src = (let dst = replicate (length src) zero in take (length dst) src @ drop (length src) dst)"

definition NewSlice :: "'a \<Rightarrow> 'a list \<Rightarrow> 'a sslice" where
  "NewSlice zero init = \<lparr>sl_s = copy_of zero init\<rparr>"

definition slice_Append :: "'a \<Rightarrow> 'a sslice \<Rightarrow> 'a sslice" where
  "slice_Append v s = s\<lparr>sl_s := sl_s s @ [v]\<rparr>"

definition slice_AppendAll :: "'a list \<Rightarrow> 'a sslice \<Rightarrow> 'a sslice" where
  "slice_AppendAll vs s = s\<lparr>sl_s := sl_s s @ vs\<rparr>"

definition slice_Len :: "'a sslice \<Rightarrow> int" where
  "slice_Len s = int (length (sl_s s))"

definition slice_At :: "int \<Rightarrow> 'a sslice \<Rightarrow> 'a option" where
  "slice_At i s = (if i < 0 \<or> i \<ge> int (length (sl_s s)) then None else Some (sl_s s ! nat i))"

definition slice_Snapshot :: "'a \<Rightarrow> 'a sslice \<Rightarrow> 'a list" where
  "slice_Snapshot zero s = copy_of zero (sl_s s)"

fun find_loop :: "('a \<Rightarrow> bool) \<Rightarrow> 'a list \<Rightarrow> 'a option" where
  "find_loop pred [] = None"
| "find_loop pred (v # vs) = (if pred v then Some v else find_loop pred vs)"

definition slice_Find :: "('a \<Rightarrow> bool) \<Rightarrow> 'a sslice \<Rightarrow> 'a option" where
  "slice_Find pred s = find_loop pred (sl_s s)"

fun index_loop :: "('a \<Rightarrow> bool) \<Rightarrow> int \<Rightarrow> 'a list \<Rightarrow> int" where
  "index_loop pred i [] = - 1"
| "index_loop pred i (v # vs) = (if pred v then i else index_loop pred (i + 1) vs)"

definition slice_FindIndex :: "('a \<Rightarrow> bool) \<Rightarrow> 'a sslice \<Rightarrow> int" where
  "slice_FindIndex pred s = index_loop pred 0 (sl_s s)"

text \<open>
  The loops that change the slice run over the positions of the slice they began with, given
  as the positions that are left.
\<close>

fun update_loop :: "('a \<Rightarrow> bool) \<Rightarrow> ('a \<Rightarrow> 'a) \<Rightarrow> nat list \<Rightarrow> 'a list \<Rightarrow> bool \<times> 'a list" where
  "update_loop pred fn [] xs = (False, xs)"
| "update_loop pred fn (i # is) xs =
     (let v = xs ! i in if pred v then (True, xs[i := fn v]) else update_loop pred fn is xs)"

definition slice_UpdateAt :: "('a \<Rightarrow> bool) \<Rightarrow> ('a \<Rightarrow> 'a) \<Rightarrow> 'a sslice \<Rightarrow> bool \<times> 'a sslice" where
  "slice_UpdateAt pred fn s =
     (let (ok, xs) = update_loop pred fn [0..<length (sl_s s)] (sl_s s) in (ok, s\<lparr>sl_s := xs\<rparr>))"

fun delete_loop :: "('a \<Rightarrow> bool) \<Rightarrow> nat list \<Rightarrow> 'a list \<Rightarrow> 'a option \<times> 'a list" where
  "delete_loop pred [] xs = (None, xs)"
| "delete_loop pred (i # is) xs =
     (let v = xs ! i in if pred v then (Some v, take i xs @ drop (i + 1) xs) else delete_loop pred is xs)"

definition slice_Delete :: "('a \<Rightarrow> bool) \<Rightarrow> 'a sslice \<Rightarrow> 'a option \<times> 'a sslice" where
  "slice_Delete pred s =
     (let (v, xs) = delete_loop pred [0..<length (sl_s s)] (sl_s s) in (v, s\<lparr>sl_s := xs\<rparr>))"

text \<open>\<open>Range\<close> calls back with positions and elements until false; what it visited is returned.\<close>

fun range_loop :: "(int \<Rightarrow> 'a \<Rightarrow> bool) \<Rightarrow> int \<Rightarrow> 'a list \<Rightarrow> (int \<times> 'a) list" where
  "range_loop fn i [] = []"
| "range_loop fn i (v # vs) = (if \<not> fn i v then [(i, v)] else (i, v) # range_loop fn (i + 1) vs)"

definition slice_Range :: "(int \<Rightarrow> 'a \<Rightarrow> bool) \<Rightarrow> 'a sslice \<Rightarrow> (int \<times> 'a) list" where
  "slice_Range fn s = range_loop fn 0 (sl_s s)"

definition slice_Clear :: "'a sslice \<Rightarrow> 'a sslice" where
  "slice_Clear s = s\<lparr>sl_s := []\<rparr>"

definition slice_Replace :: "'a \<Rightarrow> 'a list \<Rightarrow> 'a sslice \<Rightarrow> 'a sslice" where
  "slice_Replace zero next s = s\<lparr>sl_s := copy_of zero next\<rparr>"

subsection \<open>The first match\<close>

lemma copy_of_id [simp]: "copy_of zero xs = xs"
  by (simp add: copy_of_def)

text \<open>All searching operations stop at the same place: the length of the prefix without a match.\<close>

definition first_match :: "('a \<Rightarrow> bool) \<Rightarrow> 'a list \<Rightarrow> nat" where
  "first_match pred xs = length (takeWhile (\<lambda>v. \<not> pred v) xs)"

lemma first_match_Cons [simp]:
  "first_match pred [] = 0" "first_match pred (v # vs) = (if pred v then 0 else Suc (first_match pred vs))"
  by (simp_all add: first_match_def)

lemma first_match_le: "first_match pred xs \<le> length xs"
  by (simp add: first_match_def length_takeWhile_le)

lemma first_match_nth: "first_match pred xs < length xs \<Longrightarrow> pred (xs ! first_match pred xs)"
  unfolding first_match_def by (metis nth_length_takeWhile)

lemma first_match_before: "j < first_match pred xs \<Longrightarrow> \<not> pred (xs ! j)"
  unfolding first_match_def by (metis nth_mem set_takeWhileD takeWhile_nth)

lemma find_loop_first:
  "find_loop pred xs = (if first_match pred xs < length xs then Some (xs ! first_match pred xs) else None)"
  by (induction xs) auto

lemma index_loop_first:
  "index_loop pred i xs = (if first_match pred xs < length xs then i + int (first_match pred xs) else - 1)"
  by (induction xs arbitrary: i) auto

lemma update_loop_first:
  "update_loop pred fn [k..<length xs] xs =
     (let m = k + first_match pred (drop k xs) in
      if m < length xs then (True, xs[m := fn (xs ! m)]) else (False, xs))"
proof (induction "length xs - k" arbitrary: k)
  case (Suc n)
  then have k: "k < length xs" and n: "n = length xs - Suc k" by simp_all
  have up: "[k..<length xs] = k # [Suc k..<length xs]" and d: "drop k xs = xs ! k # drop (Suc k) xs"
    using k by (simp_all add: upt_conv_Cons Cons_nth_drop_Suc)
  show ?case unfolding up d using Suc(1) [OF n] k by (simp add: Let_def)
qed (simp add: Let_def)

lemma delete_loop_first:
  "delete_loop pred [k..<length xs] xs =
     (let m = k + first_match pred (drop k xs) in
      if m < length xs then (Some (xs ! m), take m xs @ drop (Suc m) xs) else (None, xs))"
proof (induction "length xs - k" arbitrary: k)
  case (Suc n)
  then have k: "k < length xs" and n: "n = length xs - Suc k" by simp_all
  have up: "[k..<length xs] = k # [Suc k..<length xs]" and d: "drop k xs = xs ! k # drop (Suc k) xs"
    using k by (simp_all add: upt_conv_Cons Cons_nth_drop_Suc)
  show ?case unfolding up d using Suc(1) [OF n] k by (simp add: Let_def)
qed (simp add: Let_def)

lemma range_loop_visits:
  "\<exists>k. range_loop fn i xs = take k (zip (map int [nat i..<nat i + length xs]) xs)" if "0 \<le> i"
  using that
proof (induction xs arbitrary: i)
  case (Cons v vs)
  then obtain k where k: "range_loop fn (i + 1) vs = take k (zip (map int [Suc (nat i)..<Suc (nat i + length vs)]) vs)"
    using Cons.IH [of "i + 1"] by (auto simp: nat_add_distrib)
  show ?case
    by (rule exI [of _ "if fn i v then Suc k else 1"]) (use k Cons.prems in \<open>simp add: upt_conv_Cons del: upt_Suc\<close>)
qed simp

subsection \<open>Properties\<close>

text \<open>
  C26. All searching operations agree on the first element that matches: \<open>FindIndex\<close> is its
  position, or -1 if none matches; \<open>Find\<close> is the element \<open>At\<close> returns there; \<open>UpdateAt\<close> changes
  that element and no other; and \<open>Delete\<close> removes that element and no other.
\<close>

theorem slice_search_agrees:
  "let i = slice_FindIndex pred s; xs = sl_s s in
   slice_Find pred s = slice_At i s \<and>
   slice_UpdateAt pred fn s = (if i = - 1 then (False, s) else (True, s\<lparr>sl_s := xs[nat i := fn (xs ! nat i)]\<rparr>)) \<and>
   slice_Delete pred s = (slice_At i s, if i = - 1 then s else s\<lparr>sl_s := take (nat i) xs @ drop (Suc (nat i)) xs\<rparr>) \<and>
   (if i = - 1 then list_all (\<lambda>v. \<not> pred v) xs
    else 0 \<le> i \<and> i < slice_Len s \<and> pred (xs ! nat i) \<and> list_all (\<lambda>v. \<not> pred v) (take (nat i) xs))"
proof -
  let ?m = "first_match pred (sl_s s)" and ?n = "length (sl_s s)"
  have i: "slice_FindIndex pred s = (if ?m < ?n then int ?m else - 1)"
    by (simp add: slice_FindIndex_def index_loop_first)
  have find: "slice_Find pred s = (if ?m < ?n then Some (sl_s s ! ?m) else None)"
    by (simp add: slice_Find_def find_loop_first)
  have upd: "slice_UpdateAt pred fn s = (if ?m < ?n then (True, s\<lparr>sl_s := (sl_s s)[?m := fn (sl_s s ! ?m)]\<rparr>) else (False, s))"
    using update_loop_first [of pred fn 0 "sl_s s"] by (simp add: slice_UpdateAt_def Let_def)
  have del: "slice_Delete pred s = (if ?m < ?n then (Some (sl_s s ! ?m), s\<lparr>sl_s := take ?m (sl_s s) @ drop (Suc ?m) (sl_s s)\<rparr>) else (None, s))"
    using delete_loop_first [of pred 0 "sl_s s"] by (simp add: slice_Delete_def Let_def)
  have "list_all (\<lambda>v. \<not> pred v) (take ?m (sl_s s))"
    using first_match_before [of _ pred "sl_s s"] by (auto simp: list_all_length)
  moreover have "?m \<le> ?n" by (rule first_match_le)
  ultimately show ?thesis
    unfolding i find upd del Let_def
    using first_match_nth [of pred "sl_s s"] by (cases "?m < ?n") (auto simp: slice_At_def slice_Len_def)
qed

end
