(* ===== verification/Lazy_Loader.thy ===== *)
theory Lazy_Loader
  imports Go_Prelude
begin

section \<open>The lazy loader (\<open>pkg/lazyloader/lazyloader.go\<close>)\<close>

text \<open>
  A loader caches the chunks its load function returns; the load function is called with the
  lock held, and what it does is an argument of the call. A \<open>StringLoader\<close> splits a text into
  lines and loads groups of them. Indices and sizes are 64-bit integers; a division by zero and
  a slice out of bounds panic (\<^const>\<open>None\<close>).
\<close>

subsection \<open>The loader\<close>

record 'c lazyloader =
  ll_chunks :: "i64 \<rightharpoonup> 'c"
  ll_totalChunks :: i64
  ll_chunkSize :: i64

definition ll_New :: "i64 \<Rightarrow> i64 \<Rightarrow> 'c lazyloader option" where
  "ll_New totalSize chunkSize =
     (if chunkSize = 0 then None
      else Some \<lparr>ll_chunks = Map.empty,
        ll_totalChunks = go_div (wrap64 (wrap64 (totalSize + chunkSize) - 1)) chunkSize, ll_chunkSize = chunkSize\<rparr>)"

text \<open>What a call of the load function does: return a chunk, return an error, or panic.\<close>

datatype 'c load = Loaded 'c | LoadFailed | LoadPanics

text \<open>
  The result of \<open>GetChunk\<close>: the chunk if there is one, whether the load function was called,
  and the loader. A panic of the load function passes through; the deferred unlock runs.
\<close>

definition ll_GetChunk :: "(i64 \<Rightarrow> 'c load) \<Rightarrow> i64 \<Rightarrow> 'c lazyloader \<Rightarrow> (('c option \<times> bool) \<times> 'c lazyloader) option" where
  "ll_GetChunk loadFn index l =
     (if index < 0 \<or> index \<ge> ll_totalChunks l then Some ((None, False), l)
      else (case ll_chunks l index of
          Some chunk \<Rightarrow> Some ((Some chunk, False), l)
        | None \<Rightarrow>
            (case loadFn index of
               LoadPanics \<Rightarrow> None
             | LoadFailed \<Rightarrow> Some ((None, True), l)
             | Loaded chunk \<Rightarrow> Some ((Some chunk, True), l\<lparr>ll_chunks := (ll_chunks l)(index \<mapsto> chunk)\<rparr>))))"

definition ll_Clear :: "'c lazyloader \<Rightarrow> 'c lazyloader" where
  "ll_Clear l = l\<lparr>ll_chunks := Map.empty\<rparr>"

definition ll_CachedCount :: "'c lazyloader \<Rightarrow> nat" where
  "ll_CachedCount l = card (dom (ll_chunks l))"

subsection \<open>Text\<close>

text \<open>\<open>strings.Split\<close> and \<open>strings.Join\<close> with a newline.\<close>

definition newline :: char where "newline = CHR 0x0A"

fun split_lines :: "string \<Rightarrow> string list" where
  "split_lines [] = [[]]"
| "split_lines (c # cs) =
     (if c = newline then [] # split_lines cs
      else (case split_lines cs of [] \<Rightarrow> [[c]] | l # ls \<Rightarrow> (c # l) # ls))"

fun join_lines :: "string list \<Rightarrow> string" where
  "join_lines [] = []"
| "join_lines [l] = l"
| "join_lines (l # ls) = l @ newline # join_lines ls"

text \<open>A slice expression panics unless its bounds are in order and within the slice.\<close>

definition slice_expr :: "'a list \<Rightarrow> i64 \<Rightarrow> i64 \<Rightarrow> 'a list option" where
  "slice_expr xs from to =
     (if 0 \<le> from \<and> from \<le> to \<and> to \<le> int (length xs)
      then Some (take (nat to - nat from) (drop (nat from) xs)) else None)"

record stringloader =
  sl_loader :: "string lazyloader"
  sl_lines :: "string list"

text \<open>The load function \<open>NewStringLoader\<close> makes; it keeps the chunk size it was given.\<close>

definition load_lines :: "string list \<Rightarrow> i64 \<Rightarrow> i64 \<Rightarrow> string load" where
  "load_lines lines chunkSize index =
     (let start = wrap64 (index * chunkSize);
          end1 = wrap64 (start + chunkSize);
          end2 = (if end1 > int (length lines) then int (length lines) else end1)
      in if start \<ge> int (length lines) then Loaded ''''
         else (case slice_expr lines start end2 of None \<Rightarrow> LoadPanics | Some ls \<Rightarrow> Loaded (join_lines ls)))"

definition NewStringLoader :: "string \<Rightarrow> i64 \<Rightarrow> stringloader option" where
  "NewStringLoader content chunkSize =
     (let lines = split_lines content in
      map_option (\<lambda>l. \<lparr>sl_loader = l, sl_lines = lines\<rparr>) (ll_New (int (length lines)) chunkSize))"

definition sl_GetChunk :: "i64 \<Rightarrow> stringloader \<Rightarrow> (string option \<times> stringloader) option" where
  "sl_GetChunk index sl =
     map_option (\<lambda>((r, called), l). (r, sl\<lparr>sl_loader := l\<rparr>))
       (ll_GetChunk (load_lines (sl_lines sl) (ll_chunkSize (sl_loader sl))) index (sl_loader sl))"

definition sl_GetLines :: "i64 \<Rightarrow> i64 \<Rightarrow> stringloader \<Rightarrow> string list option" where
  "sl_GetLines startLine endLine sl =
     (if startLine < 0 \<or> endLine \<le> startLine \<or> startLine \<ge> int (length (sl_lines sl)) then Some []
      else (let endLine = (if endLine > int (length (sl_lines sl)) then int (length (sl_lines sl)) else endLine)
            in slice_expr (sl_lines sl) startLine endLine))"

definition sl_Clear :: "stringloader \<Rightarrow> stringloader" where
  "sl_Clear sl = sl\<lparr>sl_loader := ll_Clear (sl_loader sl)\<rparr>"

definition sl_CachedCount :: "stringloader \<Rightarrow> nat" where
  "sl_CachedCount sl = ll_CachedCount (sl_loader sl)"

subsection \<open>The cache\<close>

text \<open>
  The specification remembers the chunks that were loaded since the last \<open>Clear\<close>, in order; a
  chunk that was loaded is returned as it was, and nothing else loads.
\<close>

datatype 'c ll_op = OpGetChunk i64 "i64 \<Rightarrow> 'c load" | OpClear | OpCachedCount

datatype 'c ll_obs = ObsChunk "'c option" bool | ObsPanic | ObsCleared | ObsCount nat

fun ll_call :: "'c ll_op \<Rightarrow> 'c lazyloader \<Rightarrow> 'c ll_obs \<times> 'c lazyloader" where
  "ll_call (OpGetChunk i f) l =
     (case ll_GetChunk f i l of None \<Rightarrow> (ObsPanic, l) | Some ((r, called), l') \<Rightarrow> (ObsChunk r called, l'))"
| "ll_call OpClear l = (ObsCleared, ll_Clear l)"
| "ll_call OpCachedCount l = (ObsCount (ll_CachedCount l), l)"

fun spec_call :: "i64 \<Rightarrow> 'c ll_op \<Rightarrow> (i64 \<times> 'c) list \<Rightarrow> 'c ll_obs \<times> (i64 \<times> 'c) list" where
  "spec_call n (OpGetChunk i f) loaded =
     (if \<not> (0 \<le> i \<and> i < n) then (ObsChunk None False, loaded)
      else if i \<in> fst ` set loaded then (ObsChunk (map_of loaded i) False, loaded)
      else (case f i of Loaded c \<Rightarrow> (ObsChunk (Some c) True, loaded @ [(i, c)])
            | LoadFailed \<Rightarrow> (ObsChunk None True, loaded) | LoadPanics \<Rightarrow> (ObsPanic, loaded)))"
| "spec_call n OpClear loaded = (ObsCleared, [])"
| "spec_call n OpCachedCount loaded = (ObsCount (length loaded), loaded)"

definition loader_of :: "i64 \<Rightarrow> i64 \<Rightarrow> (i64 \<times> 'c) list \<Rightarrow> 'c lazyloader" where
  "loader_of n sz loaded = \<lparr>ll_chunks = map_of loaded, ll_totalChunks = n, ll_chunkSize = sz\<rparr>"

lemma spec_call_is_loader:
  assumes "distinct (map fst loaded)" and "spec_call n c loaded = (r, loaded')"
  shows "distinct (map fst loaded') \<and> ll_call c (loader_of n sz loaded) = (r, loader_of n sz loaded')"
proof (cases c)
  case (OpGetChunk i f)
  show ?thesis
  proof (cases "i \<in> fst ` set loaded")
    case True
    then obtain x where "map_of loaded i = Some x" by (cases "map_of loaded i") (auto simp: map_of_eq_None_iff)
    with True OpGetChunk assms show ?thesis
      by (auto simp: ll_GetChunk_def loader_of_def split: if_splits)
  next
    case False
    then have "map_of loaded i = None" by (simp add: map_of_eq_None_iff)
    moreover from this have "map_of (loaded @ [(i, x)]) = (map_of loaded)(i \<mapsto> x)" for x
      by (auto simp: fun_eq_iff map_add_def split: option.splits)
    ultimately show ?thesis using False OpGetChunk assms
      by (auto simp: ll_GetChunk_def loader_of_def split: load.splits if_splits)
  qed
next
  case OpCachedCount
  have "card (fst ` set loaded) = length loaded" using distinct_card [OF assms(1)] by simp
  with OpCachedCount assms show ?thesis
    by (auto simp: ll_CachedCount_def loader_of_def dom_map_of_conv_image_fst)
qed (use assms in \<open>auto simp: ll_Clear_def loader_of_def\<close>)

interpretation llc: op_refinement "spec_call n" ll_call "loader_of n sz" "\<lambda>loaded. distinct (map fst loaded)" "\<lambda>c. True"
  for n sz
  by unfold_locales (simp add: spec_call_is_loader)

subsection \<open>Lines and chunks\<close>

lemma split_lines_nonempty [simp]: "split_lines cs \<noteq> []"
  by (induction cs) (auto split: list.splits)

lemma join_lines_Cons: "ls \<noteq> [] \<Longrightarrow> join_lines (l # ls) = l @ newline # join_lines ls"
  by (cases ls) simp_all

lemma join_split_lines: "join_lines (split_lines cs) = cs"
proof (induction cs)
  case (Cons c cs)
  obtain l ls where s: "split_lines cs = l # ls" using split_lines_nonempty [of cs] by (cases "split_lines cs") auto
  then show ?case using Cons by (cases ls) (auto simp: join_lines_Cons)
qed simp

lemma join_lines_append: "xs \<noteq> [] \<Longrightarrow> ys \<noteq> [] \<Longrightarrow> join_lines (xs @ ys) = join_lines xs @ newline # join_lines ys"
proof (induction xs)
  case (Cons x xs)
  then show ?case by (cases "xs = []") (simp_all add: join_lines_Cons)
qed simp

lemma join_lines_concat: "[] \<notin> set lss \<Longrightarrow> join_lines (map join_lines lss) = join_lines (concat lss)"
proof (induction lss)
  case (Cons ls lss)
  show ?case
  proof (cases "lss = []")
    case False
    then have "concat lss \<noteq> []" using Cons.prems by (cases lss) auto
    then have "join_lines (ls @ concat lss) = join_lines ls @ newline # join_lines (concat lss)"
      using Cons.prems by (intro join_lines_append) auto
    then show ?thesis using Cons False by (simp add: join_lines_Cons)
  qed simp
qed simp

definition chunk :: "'a list \<Rightarrow> nat \<Rightarrow> nat \<Rightarrow> 'a list" where
  "chunk xs c i = take c (drop (i * c) xs)"

lemma concat_chunks: "concat (map (chunk xs c) [0..<k]) = take (k * c) xs"
  by (induction k) (simp_all add: chunk_def take_add [symmetric] add.commute)

definition chunk_count :: "nat \<Rightarrow> nat \<Rightarrow> nat" where
  "chunk_count n c = (n + c - 1) div c"

lemma chunk_count_bounds:
  assumes "0 < c"
  shows "n \<le> chunk_count n c * c" and "i < chunk_count n c \<Longrightarrow> i * c < n"
proof -
  have m: "(n + c - 1) mod c < c" using assms by simp
  have e: "(n + c - 1) div c * c + (n + c - 1) mod c = n + c - 1" by simp
  show "n \<le> chunk_count n c * c" unfolding chunk_count_def using e m assms by linarith
  assume "i < chunk_count n c"
  then have "Suc i * c \<le> n + c - 1" unfolding chunk_count_def using assms by (simp add: less_eq_div_iff_mult_less_eq Suc_le_eq [symmetric])
  then show "i * c < n" using assms by simp
qed

lemma join_chunks:
  assumes "0 < c"
  shows "join_lines (map (\<lambda>i. join_lines (chunk xs c i)) [0..<chunk_count (length xs) c]) = join_lines xs"
proof -
  have "[] \<notin> set (map (chunk xs c) [0..<chunk_count (length xs) c])"
    using assms by (auto simp: chunk_def dest!: chunk_count_bounds(2) [OF assms])
  then have "join_lines (map join_lines (map (chunk xs c) [0..<chunk_count (length xs) c])) =
      join_lines (concat (map (chunk xs c) [0..<chunk_count (length xs) c]))"
    by (rule join_lines_concat)
  then show ?thesis
    using chunk_count_bounds(1) [OF assms, of "length xs"] by (simp add: concat_chunks comp_def)
qed

lemma slice_expr_prefix:
  assumes "m < length xs"
  shows "slice_expr xs (int m) (if int (m + c) > int (length xs) then int (length xs) else int (m + c)) =
    Some (take c (drop m xs))"
  using assms by (auto simp: slice_expr_def nat_add_distrib simp flip: of_nat_add)

text \<open>Within the bounds of 64 bits, the load function returns the chunk.\<close>

lemma load_lines_chunk:
  assumes "0 < c" and "i < chunk_count (length xs) c" and "int (length xs) + int c \<le> max_i64"
  shows "load_lines xs (int c) (int i) = Loaded (join_lines (chunk xs c i))"
proof -
  have less: "i * c < length xs" using chunk_count_bounds(2) [OF assms(1,2)] .
  have wrap: "wrap64 (int m) = int m" if "int m \<le> max_i64" for m
    using that by (intro wrap64_id in_i64_nonneg) simp_all
  have "int (i * c) \<le> max_i64" and b: "int (i * c + c) \<le> max_i64"
    using less assms(3) by linarith+
  from wrap [OF this(1)] have start: "wrap64 (int i * int c) = int (i * c)" by simp
  from wrap [OF b] have end1: "wrap64 (int (i * c) + int c) = int (i * c + c)" by simp
  have "\<not> int (i * c) \<ge> int (length xs)" using less by (simp only: of_nat_le_iff not_le)
  then show ?thesis
    unfolding load_lines_def Let_def start end1 slice_expr_prefix [OF less] by (simp add: chunk_def)
qed

subsection \<open>The state of a string loader\<close>

text \<open>Every chunk in the cache is the one the load function returns.\<close>

definition sl_ok :: "string list \<Rightarrow> nat \<Rightarrow> stringloader \<Rightarrow> bool" where
  "sl_ok xs c sl \<longleftrightarrow> sl_lines sl = xs \<and> ll_totalChunks (sl_loader sl) = int (chunk_count (length xs) c) \<and>
     ll_chunkSize (sl_loader sl) = int c \<and>
     (\<forall>i s. ll_chunks (sl_loader sl) (int i) = Some s \<longrightarrow> s = join_lines (chunk xs c i))"

lemma sl_GetChunk_inside:
  assumes "sl_ok xs c sl" and "0 < c" and "i < chunk_count (length xs) c" and "int (length xs) + int c \<le> max_i64"
  shows "\<exists>sl'. sl_GetChunk (int i) sl = Some (Some (join_lines (chunk xs c i)), sl') \<and> sl_ok xs c sl'"
  using assms(1,3) load_lines_chunk [OF assms(2-4)]
  by (cases "ll_chunks (sl_loader sl) (int i)") (auto simp: sl_GetChunk_def ll_GetChunk_def sl_ok_def)

lemma sl_GetChunk_outside:
  assumes "sl_ok xs c sl" and "i < 0 \<or> i \<ge> int (chunk_count (length xs) c)"
  shows "sl_GetChunk i sl = Some (None, sl)"
  using assms by (auto simp: sl_GetChunk_def ll_GetChunk_def sl_ok_def)

lemma sl_Clear_ok: "sl_ok xs c sl \<Longrightarrow> sl_ok xs c (sl_Clear sl)"
  by (simp add: sl_ok_def sl_Clear_def ll_Clear_def)

lemma sl_GetChunk_ok:
  assumes "sl_ok xs c sl" and "0 < c" and "int (length xs) + int c \<le> max_i64"
  shows "\<exists>r sl'. sl_GetChunk i sl = Some (r, sl') \<and> sl_ok xs c sl'"
proof (cases "i < 0 \<or> i \<ge> int (chunk_count (length xs) c)")
  case True
  with sl_GetChunk_outside [OF assms(1)] assms(1) show ?thesis by blast
next
  case False
  then have "int (nat i) = i" and "nat i < chunk_count (length xs) c" by auto
  with sl_GetChunk_inside [OF assms(1,2) _ assms(3), of "nat i"] show ?thesis by force
qed

lemma NewStringLoader_ok:
  assumes "0 < c" and "int (length (split_lines content)) + int c \<le> max_i64"
  shows "\<exists>sl. NewStringLoader content (int c) = Some sl \<and> sl_ok (split_lines content) c sl"
proof -
  let ?n = "length (split_lines content)"
  have w: "wrap64 x = x" if "0 \<le> x" "x \<le> max_i64" for x
    using that by (intro wrap64_id in_i64_nonneg)
  have "wrap64 (wrap64 (int ?n + int c) - 1) = int (?n + c - 1)"
    using assms by (simp add: w of_nat_diff)
  moreover have "go_div (int (?n + c - 1)) (int c) = int (chunk_count ?n c)"
    using assms go_div_nonneg [of "int (?n + c - 1)" "int c"] unfolding chunk_count_def
    by (simp only: zdiv_int of_nat_0_le_iff of_nat_0_less_iff)
  ultimately show ?thesis
    using assms(1) by (simp add: NewStringLoader_def ll_New_def sl_ok_def Let_def)
qed

text \<open>Calls of a client, and the chunks a list of indices gets.\<close>

datatype sl_op = SlGetChunk i64 | SlClear

fun sl_run :: "sl_op list \<Rightarrow> stringloader \<Rightarrow> stringloader option" where
  "sl_run [] sl = Some sl"
| "sl_run (SlGetChunk i # cs) sl = (case sl_GetChunk i sl of None \<Rightarrow> None | Some (r, sl') \<Rightarrow> sl_run cs sl')"
| "sl_run (SlClear # cs) sl = sl_run cs (sl_Clear sl)"

fun sl_fetch :: "i64 list \<Rightarrow> stringloader \<Rightarrow> (string option list \<times> stringloader) option" where
  "sl_fetch [] sl = Some ([], sl)"
| "sl_fetch (i # is) sl =
     (case sl_GetChunk i sl of None \<Rightarrow> None
      | Some (r, sl') \<Rightarrow> (case sl_fetch is sl' of None \<Rightarrow> None | Some (rs, sl'') \<Rightarrow> Some (r # rs, sl'')))"

lemma sl_run_ok:
  assumes "sl_ok xs c sl" and "0 < c" and "int (length xs) + int c \<le> max_i64"
  shows "\<exists>sl'. sl_run calls sl = Some sl' \<and> sl_ok xs c sl'"
  using assms(1)
proof (induction calls sl rule: sl_run.induct)
  case (2 i cs sl)
  with sl_GetChunk_ok [OF 2(2) assms(2,3), of i] show ?case by fastforce
qed (auto intro: sl_Clear_ok)

lemma sl_fetch_chunks:
  assumes "sl_ok xs c sl" and "0 < c" and "int (length xs) + int c \<le> max_i64"
    and "list_all (\<lambda>i. i < chunk_count (length xs) c) is"
  shows "\<exists>sl'. sl_fetch (map int is) sl = Some (map (\<lambda>i. Some (join_lines (chunk xs c i))) is, sl')"
  using assms(1,4)
proof (induction "is" arbitrary: sl)
  case (Cons i "is")
  then obtain sl' where "sl_GetChunk (int i) sl = Some (Some (join_lines (chunk xs c i)), sl')" "sl_ok xs c sl'"
    using sl_GetChunk_inside [OF Cons.prems(1) assms(2) _ assms(3), of i] by auto
  with Cons show ?case by fastforce
qed simp

subsection \<open>Properties\<close>

text \<open>
  C24. Loading by chunks loses nothing: whatever chunks were asked for before and whether or
  not the cache was cleared, no call panics, the chunks got one after the other and joined by newlines are the
  text the loader was made of, and \<open>GetLines\<close> over the whole range returns its lines.
\<close>

theorem string_loader_roundtrip:
  assumes "0 < c" and "int (length (split_lines content)) + int c \<le> max_i64"
  shows "\<exists>sl sl' parts sl''. NewStringLoader content (int c) = Some sl \<and> sl_run calls sl = Some sl' \<and>
    sl_fetch (map int [0..<chunk_count (length (split_lines content)) c]) sl' = Some (map Some parts, sl'') \<and>
    join_lines parts = content \<and>
    sl_GetLines 0 (int (length (split_lines content))) sl' = Some (split_lines content)"
proof -
  let ?xs = "split_lines content" and ?is = "[0..<chunk_count (length (split_lines content)) c]"
  obtain sl where sl: "NewStringLoader content (int c) = Some sl" "sl_ok ?xs c sl"
    using NewStringLoader_ok [OF assms] by blast
  obtain sl' where sl': "sl_run calls sl = Some sl'" "sl_ok ?xs c sl'" using sl_run_ok [OF sl(2) assms] by blast
  have "list_all (\<lambda>i. i < chunk_count (length ?xs) c) ?is" by (simp add: list_all_iff)
  from sl_fetch_chunks [OF sl'(2) assms this] obtain sl'' where
    "sl_fetch (map int ?is) sl' = Some (map Some (map (\<lambda>i. join_lines (chunk ?xs c i)) ?is), sl'')" by auto
  moreover have "join_lines (map (\<lambda>i. join_lines (chunk ?xs c i)) ?is) = content"
    by (simp only: join_chunks [OF assms(1)] join_split_lines)
  moreover have "sl_GetLines 0 (int (length ?xs)) sl' = Some ?xs"
    using sl'(2) by (simp add: sl_GetLines_def sl_ok_def slice_expr_def)
  ultimately show ?thesis using sl(1) sl'(1) by blast
qed

theorem string_loader_roundtrip_witness:
  "\<exists>sl sl' parts sl''. NewStringLoader (''ab'' @ newline # ''c'' @ newline # ''d'') 2 = Some sl \<and>
    sl_run [SlGetChunk 1, SlGetChunk 7, SlClear, SlGetChunk 0] sl = Some sl' \<and>
    sl_fetch [0, 1] sl' = Some (map Some parts, sl'') \<and>
    join_lines parts = ''ab'' @ newline # ''c'' @ newline # ''d''"
proof -
  let ?t = "''ab'' @ newline # ''c'' @ newline # ''d''"
  have lines: "split_lines ?t = [''ab'', ''c'', ''d'']" by (simp add: newline_def)
  have "int (length (split_lines ?t)) + int 2 \<le> max_i64" unfolding lines by (simp add: max_i64_def)
  from string_loader_roundtrip [OF _ this, of "[SlGetChunk 1, SlGetChunk 7, SlClear, SlGetChunk 0]"]
  show ?thesis unfolding lines by (auto simp: chunk_count_def upt_rec)
qed

text \<open>
  C33. The cache is a history: on a new loader every sequence of calls returns what it returns
  when one remembers the chunks loaded since the last \<open>Clear\<close>, in the order in which they were loaded. So a
  chunk is loaded at most once between two calls of \<open>Clear\<close>, an error or a panic of the load
  function is not remembered, and an index out of range loads nothing.
\<close>

theorem lazy_cache_is_history:
  assumes "ll_New totalSize chunkSize = Some l"
  shows "fst (run_ops ll_call calls l) = fst (run_ops (spec_call (ll_totalChunks l)) calls [])"
proof -
  let ?n = "ll_totalChunks l"
  obtain rs loaded where run: "run_ops (spec_call ?n) calls [] = (rs, loaded)" by fastforce
  have "l = loader_of ?n chunkSize []"
    using assms by (auto simp: ll_New_def loader_of_def split: if_splits)
  with llc.run_refines [OF _ _ run, of chunkSize] run show ?thesis by (simp add: list_all_iff)
qed

theorem lazy_cache_is_history_witness:
  "\<exists>l. ll_New 5 2 = Some l \<and>
    fst (run_ops ll_call [OpGetChunk 2 (\<lambda>i. LoadFailed), OpGetChunk 2 (\<lambda>i. Loaded ''x''),
      OpGetChunk 2 (\<lambda>i. LoadPanics), OpCachedCount, OpGetChunk 3 (\<lambda>i. Loaded ''y''), OpClear, OpCachedCount] l) =
    [ObsChunk None True, ObsChunk (Some ''x'') True, ObsChunk (Some ''x'') False, ObsCount 1, ObsChunk None False,
     ObsCleared, ObsCount 0]"
proof -
  obtain l :: "string lazyloader" where l: "ll_New 5 2 = Some l" "ll_totalChunks l = (3 :: i64)"
    by (simp add: ll_New_def wrap64_def go_div_def)
  show ?thesis
    by (intro exI [of _ l] conjI l(1)) (subst lazy_cache_is_history [OF l(1)], simp add: l(2))
qed

text \<open>A chunk size of zero makes the constructor panic; a negative one makes \<open>GetChunk\<close> panic.\<close>

theorem loader_bad_sizes:
  "ll_New totalSize 0 = (None :: 'c lazyloader option) \<and> NewStringLoader content 0 = None \<and>
   (\<exists>sl. NewStringLoader ''a'' (- 1) = Some sl \<and> sl_GetChunk 0 sl = None)"
  by (simp add: ll_New_def NewStringLoader_def sl_GetChunk_def ll_GetChunk_def load_lines_def slice_expr_def newline_def
      go_div_def wrap64_def)

end
