(* ===== verification/Monitor.thy ===== *)
theory Monitor
  imports Go_Prelude Complex_Main
begin

section \<open>The resource monitor (\<open>pkg/monitor/monitor.go\<close>)\<close>

text \<open>
  A monitor keeps the latest snapshot of the system's resources. \<open>Start\<close> makes a context,
  collects once and starts a goroutine that collects at every tick until its context is done;
  \<open>Stop\<close> cancels the context of the last \<open>Start\<close>. What the operating system and gopsutil
  answer is an argument of the collection; floating-point numbers are only passed on.
\<close>

subsection \<open>Configuration\<close>

record mon_config =
  mc_DiskPath :: string
  mc_CPUSampleTime :: duration
  mc_CollectInterval :: duration

definition mon_DefaultConfig :: mon_config where
  "mon_DefaultConfig = \<lparr>mc_DiskPath = ''/'', mc_CPUSampleTime = 200 * millisecond, mc_CollectInterval = 5 * second\<rparr>"

definition mon_normalize :: "mon_config option \<Rightarrow> mon_config" where
  "mon_normalize cfg =
     (let cfg = (case cfg of None \<Rightarrow> mon_DefaultConfig | Some c \<Rightarrow> c);
          cfg = (if mc_DiskPath cfg = '''' then cfg\<lparr>mc_DiskPath := ''/''\<rparr> else cfg);
          cfg = (if mc_CPUSampleTime cfg \<le> 0 then cfg\<lparr>mc_CPUSampleTime := 200 * millisecond\<rparr> else cfg)
      in cfg)"

subsection \<open>One collection\<close>

record system_resources =
  CPUPercent :: real
  CPUPerCore :: "real list"
  NumCPU :: i64
  MemoryTotal :: "64 word"
  MemoryUsed :: "64 word"
  MemoryAvailable :: "64 word"
  MemoryPercent :: real
  DiskTotal :: "64 word"
  DiskUsed :: "64 word"
  DiskFree :: "64 word"
  DiskPercent :: real
  Load1 :: real
  Load5 :: real
  Load15 :: real
  NumGoroutines :: i64
  HeapAlloc :: "64 word"
  HeapSys :: "64 word"
  CollectedAt :: time

definition zero_resources :: system_resources where
  "zero_resources = \<lparr>CPUPercent = 0, CPUPerCore = [], NumCPU = 0, MemoryTotal = 0, MemoryUsed = 0,
     MemoryAvailable = 0, MemoryPercent = 0, DiskTotal = 0, DiskUsed = 0, DiskFree = 0, DiskPercent = 0,
     Load1 = 0, Load5 = 0, Load15 = 0, NumGoroutines = 0, HeapAlloc = 0, HeapSys = 0, CollectedAt = 0\<rparr>"

text \<open>A call that collects something returns an error or a value; gopsutil's values may be nil.\<close>

datatype 'r sample = SampleErr | Sample 'r

record vmem_stat =
  vm_Total :: "64 word"
  vm_Used :: "64 word"
  vm_Available :: "64 word"
  vm_UsedPercent :: real

record disk_stat =
  du_Total :: "64 word"
  du_Used :: "64 word"
  du_Free :: "64 word"
  du_UsedPercent :: real

record load_stat =
  la_Load1 :: real
  la_Load5 :: real
  la_Load15 :: real

text \<open>What the runtime and gopsutil answer to one collection.\<close>

record sources =
  so_NumCPU :: i64
  so_Now :: time
  so_NumGoroutine :: i64
  so_HeapAlloc :: "64 word"
  so_HeapSys :: "64 word"
  so_Percent :: "duration \<Rightarrow> bool \<Rightarrow> real list sample"
  so_VirtualMemory :: "vmem_stat option sample"
  so_Usage :: "string \<Rightarrow> disk_stat option sample"
  so_Avg :: "load_stat option sample"

definition collect_runtime :: "sources \<Rightarrow> system_resources \<Rightarrow> system_resources" where
  "collect_runtime src res = res\<lparr>NumGoroutines := so_NumGoroutine src, HeapAlloc := so_HeapAlloc src, HeapSys := so_HeapSys src\<rparr>"

definition collect_cpu :: "mon_config \<Rightarrow> sources \<Rightarrow> system_resources \<Rightarrow> system_resources" where
  "collect_cpu cfg src res =
     (let res = (case so_Percent src (mc_CPUSampleTime cfg) False of
            Sample (p # ps) \<Rightarrow> res\<lparr>CPUPercent := p\<rparr> | _ \<Rightarrow> res)
      in case so_Percent src 0 True of Sample ps \<Rightarrow> res\<lparr>CPUPerCore := ps\<rparr> | SampleErr \<Rightarrow> res)"

definition collect_memory :: "sources \<Rightarrow> system_resources \<Rightarrow> system_resources" where
  "collect_memory src res =
     (case so_VirtualMemory src of
        Sample (Some v) \<Rightarrow> res\<lparr>MemoryTotal := vm_Total v, MemoryUsed := vm_Used v,
          MemoryAvailable := vm_Available v, MemoryPercent := vm_UsedPercent v\<rparr>
      | _ \<Rightarrow> res)"

definition collect_disk :: "mon_config \<Rightarrow> sources \<Rightarrow> system_resources \<Rightarrow> system_resources" where
  "collect_disk cfg src res =
     (case so_Usage src (mc_DiskPath cfg) of
        Sample (Some d) \<Rightarrow> res\<lparr>DiskTotal := du_Total d, DiskUsed := du_Used d, DiskFree := du_Free d,
          DiskPercent := du_UsedPercent d\<rparr>
      | _ \<Rightarrow> res)"

definition collect_load :: "sources \<Rightarrow> system_resources \<Rightarrow> system_resources" where
  "collect_load src res =
     (case so_Avg src of
        Sample (Some l) \<Rightarrow> res\<lparr>Load1 := la_Load1 l, Load5 := la_Load5 l, Load15 := la_Load15 l\<rparr>
      | _ \<Rightarrow> res)"

definition GetSystemResources :: "mon_config \<Rightarrow> sources \<Rightarrow> system_resources sample" where
  "GetSystemResources cfg src =
     (let res = zero_resources\<lparr>NumCPU := so_NumCPU src, CollectedAt := so_Now src\<rparr>;
          res = collect_runtime src res;
          res = collect_cpu cfg src res;
          res = collect_memory src res;
          res = collect_disk cfg src res;
          res = collect_load src res
      in Sample res)"

subsection \<open>The monitor and its goroutines\<close>

text \<open>
  A goroutine waits for its context or its ticker, or runs the getter, or has what the getter
  returned and waits for the lock to store it, or has returned. A context is named by its
  position in the list of all contexts made; its entry says whether it is done. Calls of
  \<open>Start\<close> that run the getter, and calls that wait for the lock to store its result, are
  listed under the contexts they made.
\<close>

datatype 'r loop_pc = Waiting | Collecting | Storing 'r | Returned

text \<open>The getter in use: the monitor's own, or one that was set, named by a number.\<close>

datatype getter = OwnGetter | SetGetter nat

record 'r monitor =
  mo_config :: mon_config
  mo_getter :: getter
  mo_latest :: "'r option"
  mo_cancel :: "nat option"
  mo_ctxs :: "bool list"
  mo_starts :: "nat list"
  mo_storing :: "(nat \<times> 'r) list"
  mo_loops :: "(nat \<times> 'r loop_pc) list"

definition mon_New :: "mon_config option \<Rightarrow> 'r monitor" where
  "mon_New cfg = \<lparr>mo_config = mon_normalize cfg, mo_getter = OwnGetter, mo_latest = None, mo_cancel = None, mo_ctxs = [], mo_starts = [],
     mo_storing = [], mo_loops = []\<rparr>"

text \<open>What a getter returns is an argument of the steps below, whichever is set.\<close>

definition mon_SetResourceGetter :: "nat \<Rightarrow> 'r monitor \<Rightarrow> 'r monitor" where
  "mon_SetResourceGetter g m = m\<lparr>mo_getter := SetGetter g\<rparr>"

text \<open>
  \<open>Start\<close> up to the call of the getter: an error, or a context derived from the caller's, which
  may be done already, with its cancel function stored.
\<close>

definition mon_Start :: "bool \<Rightarrow> 'r monitor \<Rightarrow> bool \<times> 'r monitor" where
  "mon_Start parent_done m =
     (if mc_CollectInterval (mo_config m) \<le> 0 then (False, m)
      else (True, m\<lparr>mo_ctxs := mo_ctxs m @ [parent_done], mo_cancel := Some (length (mo_ctxs m)),
        mo_starts := mo_starts m @ [length (mo_ctxs m)]\<rparr>))"

text \<open>
  The return of the getter, with false if it is an error; otherwise its result is stored and
  the goroutine started in a later step, for which \<open>Start\<close> has to take the lock. The new
  goroutine waits there until its first step, however late that is.
\<close>

definition mon_Start_collected :: "nat \<Rightarrow> 'r sample \<Rightarrow> 'r monitor \<Rightarrow> bool \<times> 'r monitor" where
  "mon_Start_collected c r m =
     (let m = m\<lparr>mo_starts := remove1 c (mo_starts m)\<rparr> in
      case r of SampleErr \<Rightarrow> (False, m)
      | Sample res \<Rightarrow> (True, m\<lparr>mo_storing := mo_storing m @ [(c, res)]\<rparr>))"

definition mon_Start_stored :: "nat \<Rightarrow> 'r \<Rightarrow> 'r monitor \<Rightarrow> 'r monitor" where
  "mon_Start_stored c res m = m\<lparr>mo_storing := remove1 (c, res) (mo_storing m), mo_latest := Some res,
     mo_loops := mo_loops m @ [(c, Waiting)]\<rparr>"

definition cancel_ctx :: "nat \<Rightarrow> 'r monitor \<Rightarrow> 'r monitor" where
  "cancel_ctx c m = m\<lparr>mo_ctxs := (mo_ctxs m)[c := True]\<rparr>"

definition mon_Stop :: "'r monitor \<Rightarrow> 'r monitor" where
  "mon_Stop m = (case mo_cancel m of None \<Rightarrow> m | Some c \<Rightarrow> cancel_ctx c m)"

definition mon_Latest :: "'r monitor \<Rightarrow> 'r option" where
  "mon_Latest m = mo_latest m"

text \<open>
  The steps of \<open>collectLoop\<close>; \<^const>\<open>None\<close> where a step is not enabled. When the context is done
  and the ticker has fired, \<open>select\<close> takes either branch. The return of the getter and the
  locked assignment to \<open>latest\<close> are two steps: others can collect and store in between.
\<close>

datatype 'r loop_event = CtxDone | Tick | Collected "'r sample" | Stored

fun collectLoop :: "'r loop_event \<Rightarrow> nat \<Rightarrow> 'r monitor \<Rightarrow> 'r monitor option" where
  "collectLoop CtxDone i m =
     (if i < length (mo_loops m) \<and> snd (mo_loops m ! i) = Waiting \<and> mo_ctxs m ! fst (mo_loops m ! i)
      then Some (m\<lparr>mo_loops := (mo_loops m)[i := (fst (mo_loops m ! i), Returned)]\<rparr>) else None)"
| "collectLoop Tick i m =
     (if i < length (mo_loops m) \<and> snd (mo_loops m ! i) = Waiting
      then Some (m\<lparr>mo_loops := (mo_loops m)[i := (fst (mo_loops m ! i), Collecting)]\<rparr>) else None)"
| "collectLoop (Collected r) i m =
     (if i < length (mo_loops m) \<and> snd (mo_loops m ! i) = Collecting
      then Some (m\<lparr>mo_loops := (mo_loops m)[i := (fst (mo_loops m ! i),
        case r of SampleErr \<Rightarrow> Waiting | Sample res \<Rightarrow> Storing res)]\<rparr>) else None)"
| "collectLoop Stored i m =
     (if i < length (mo_loops m)
      then case snd (mo_loops m ! i) of
          Storing res \<Rightarrow> Some (m\<lparr>mo_latest := Some res, mo_loops := (mo_loops m)[i := (fst (mo_loops m ! i), Waiting)]\<rparr>)
        | _ \<Rightarrow> None
      else None)"

text \<open>An event of a run: a call, a getter that returns in \<open>Start\<close>, the store that
  follows, a caller's context that ends, a loop's step.\<close>

datatype 'r mon_event =
  GetterSet nat | StartCalled bool | StartCollected nat "'r sample" | StartStored nat 'r | StopCalled | ParentDone nat | LoopStep nat "'r loop_event"

fun mon_step :: "'r mon_event \<Rightarrow> 'r monitor \<Rightarrow> 'r monitor option" where
  "mon_step (GetterSet g) m = Some (mon_SetResourceGetter g m)"
| "mon_step (StartCalled d) m = Some (snd (mon_Start d m))"
| "mon_step (StartCollected c r) m =
     (if c \<in> set (mo_starts m) then Some (snd (mon_Start_collected c r m)) else None)"
| "mon_step (StartStored c r) m =
     (if (c, r) \<in> set (mo_storing m) then Some (mon_Start_stored c r m) else None)"
| "mon_step StopCalled m = Some (mon_Stop m)"
| "mon_step (ParentDone c) m = (if c < length (mo_ctxs m) then Some (cancel_ctx c m) else None)"
| "mon_step (LoopStep i e) m = collectLoop e i m"

fun mon_run :: "'r mon_event list \<Rightarrow> 'r monitor \<Rightarrow> 'r monitor option" where
  "mon_run [] m = Some m"
| "mon_run (e # es) m = (case mon_step e m of None \<Rightarrow> None | Some m' \<Rightarrow> mon_run es m')"

subsection \<open>Runs\<close>

lemma mon_run_append [simp]:
  "mon_run (es @ es') m = (case mon_run es m of None \<Rightarrow> None | Some m' \<Rightarrow> mon_run es' m')"
  by (induction es arbitrary: m) (auto split: option.splits)

lemma mon_run_invariant:
  assumes "mon_run es m = Some m'" and "P m" and "list_all Q es"
    and step: "\<And>e m m'. mon_step e m = Some m' \<Longrightarrow> Q e \<Longrightarrow> P m \<Longrightarrow> P m'"
  shows "P m'"
  using assms(1-3) by (induction es arbitrary: m) (auto split: option.splits intro: step)

text \<open>A loop changes neither the contexts nor what a call of \<open>Start\<close> or \<open>Stop\<close> uses.\<close>

lemma collectLoop_frame:
  "collectLoop e i m = Some m' \<Longrightarrow> mo_config m' = mo_config m \<and> mo_cancel m' = mo_cancel m \<and>
     mo_ctxs m' = mo_ctxs m \<and> mo_starts m' = mo_starts m \<and> mo_storing m' = mo_storing m \<and> map fst (mo_loops m') = map fst (mo_loops m)"
  by (cases e) (auto simp: map_update list_update_same_conv split: if_splits loop_pc.splits)

lemma collectLoop_pc:
  "collectLoop e i m = Some m' \<Longrightarrow> j \<noteq> i \<Longrightarrow> mo_loops m' ! j = mo_loops m ! j"
  by (cases e) (auto split: if_splits sample.splits loop_pc.splits)

text \<open>A loop returns only when its context is done.\<close>

lemma collectLoop_running:
  "collectLoop e i m = Some m' \<Longrightarrow> i < length (mo_loops m) \<Longrightarrow> \<not> mo_ctxs m ! fst (mo_loops m ! i) \<Longrightarrow>
     snd (mo_loops m' ! i) \<noteq> Returned"
  by (cases e) (auto split: if_splits sample.splits loop_pc.splits)

subsection \<open>What is collected\<close>

fun result_of :: "'r mon_event \<Rightarrow> 'r list" where
  "result_of (StartCollected c (Sample r)) = [r]"
| "result_of (LoopStep i (Collected (Sample r))) = [r]"
| "result_of _ = []"

definition results_of :: "'r mon_event list \<Rightarrow> 'r list" where
  "results_of es = concat (map result_of es)"

definition last_of :: "'r option \<Rightarrow> 'r list \<Rightarrow> 'r option" where
  "last_of x rs = (if rs = [] then x else Some (last rs))"

lemma last_of_simps [simp]: "last_of x [] = x" "last_of x [r] = Some r" "last_of (last_of x rs) rs' = last_of x (rs @ rs')"
  by (auto simp: last_of_def)

subsection \<open>Stopping\<close>

text \<open>Every context used was made, and the stored cancel function is that of the newest.\<close>

definition mon_wf :: "'r monitor \<Rightarrow> bool" where
  "mon_wf m \<longleftrightarrow> mo_cancel m = (if mo_ctxs m = [] then None else Some (length (mo_ctxs m) - 1)) \<and>
     list_all (\<lambda>c. c < length (mo_ctxs m)) (mo_starts m) \<and>
     list_all (\<lambda>c. c < length (mo_ctxs m)) (map fst (mo_storing m)) \<and> list_all (\<lambda>c. c < length (mo_ctxs m)) (map fst (mo_loops m))"

lemma list_all_less_Suc: "list_all (\<lambda>c. c < n) xs \<Longrightarrow> list_all (\<lambda>c. c < Suc n) xs"
  by (erule list.pred_mono_strong) simp

lemma mon_step_wf:
  assumes "mon_step e m = Some m'" and "mon_wf m"
  shows "mon_wf m'"
proof (cases e)
  case (LoopStep i le)
  then show ?thesis using assms collectLoop_frame [of le i m m'] by (simp add: mon_wf_def)
next
  case (StartCollected c r)
  with assms show ?thesis
    by (fastforce simp: mon_wf_def mon_Start_collected_def Let_def list_all_iff dest!: set_remove1_subset [THEN subsetD]
        split: if_splits sample.splits)
next
  case (StartStored c r)
  with assms show ?thesis
    by (fastforce simp: mon_wf_def mon_Start_stored_def list_all_iff dest!: set_remove1_subset [THEN subsetD]
        split: if_splits)
next
  case (StartCalled d)
  have "list_all (\<lambda>c. c < Suc (length (mo_ctxs m))) (mo_starts m)"
    and "list_all (\<lambda>c. c < Suc (length (mo_ctxs m))) (map fst (mo_storing m))"
    and "list_all (\<lambda>c. c < Suc (length (mo_ctxs m))) (map fst (mo_loops m))"
    using assms(2) unfolding mon_wf_def by (blast intro: list_all_less_Suc)+
  then show ?thesis using assms StartCalled by (simp add: mon_wf_def mon_Start_def split: if_split_asm; fastforce)
qed (use assms in \<open>auto simp: mon_SetResourceGetter_def mon_wf_def mon_Stop_def cancel_ctx_def split: if_splits option.splits\<close>)

interpretation mw: inductive_invariant "\<lambda>m. m = mon_New cfg" "\<lambda>m m'. \<exists>e. mon_step e m = Some m'" mon_wf for cfg
  by unfold_locales (simp add: mon_wf_def mon_New_def, blast intro: mon_step_wf)

lemma mon_run_reach:
  "mon_run es m = Some m' \<Longrightarrow> reach I (\<lambda>m m'. \<exists>e. mon_step e m = Some m') m \<Longrightarrow>
     reach I (\<lambda>m m'. \<exists>e. mon_step e m = Some m') m'"
proof (induction es arbitrary: m)
  case (Cons e es)
  then obtain m1 where step: "mon_step e m = Some m1" and run: "mon_run es m1 = Some m'" by (auto split: option.splits)
  have "reach I (\<lambda>m m'. \<exists>e. mon_step e m = Some m') m1"
    by (rule reach_step [OF Cons.prems(2)]) (use step in blast)
  with Cons.IH [OF run] show ?case .
qed simp

lemma mon_run_wf: "mon_run es (mon_New cfg) = Some m \<Longrightarrow> mon_wf m"
  by (rule mw.reach_inv) (auto intro: mon_run_reach reach_init)

fun is_start :: "'r mon_event \<Rightarrow> bool" where
  "is_start (StartCalled d) = True"
| "is_start _ = False"

lemma nth_set_True: "c < length xs \<Longrightarrow> xs ! c \<Longrightarrow> xs[i := True] ! c"
  by (cases "i = c") simp_all

lemma mon_step_contexts:
  "mon_step e m = Some m' \<Longrightarrow>
     length (mo_ctxs m') \<le> length (mo_ctxs m) + (if is_start e then 1 else 0) \<and>
     (\<not> is_start e \<longrightarrow> length (mo_ctxs m') = length (mo_ctxs m)) \<and>
     (\<forall>c<length (mo_ctxs m). mo_ctxs m ! c \<longrightarrow> mo_ctxs m' ! c)"
proof (cases e)
  case (LoopStep i le)
  then show "mon_step e m = Some m' \<Longrightarrow> ?thesis" using collectLoop_frame [of le i m m'] by simp
qed (auto simp: mon_SetResourceGetter_def mon_Start_def mon_Start_collected_def mon_Start_stored_def mon_Stop_def cancel_ctx_def Let_def nth_append nth_set_True
    split: if_splits sample.splits option.splits)

lemma mon_run_contexts: "mon_run es m = Some m' \<Longrightarrow> length (mo_ctxs m') \<le> length (mo_ctxs m) + length (filter is_start es)"
proof (induction es arbitrary: m)
  case (Cons e es)
  then obtain m1 where "mon_step e m = Some m1" "mon_run es m1 = Some m'" by (auto split: option.splits)
  with Cons.IH [OF this(2)] mon_step_contexts [OF this(1)] show ?case by (auto split: if_splits)
qed simp

definition all_done :: "'r monitor \<Rightarrow> bool" where
  "all_done m \<longleftrightarrow> list_all (\<lambda>d. d) (mo_ctxs m)"

lemma mon_step_all_done: "mon_step e m = Some m' \<Longrightarrow> \<not> is_start e \<Longrightarrow> all_done m \<Longrightarrow> all_done m'"
  using mon_step_contexts [of e m m'] by (simp add: all_done_def list_all_length)

text \<open>
  A loop whose context is done can return, after the getter it may be running or the store it
  may be waiting for.
\<close>

lemma loop_can_return:
  assumes "i < length (mo_loops m)" and "mo_ctxs m ! fst (mo_loops m ! i)"
  shows "\<exists>es m'. length es \<le> 2 \<and> mon_run (map (LoopStep i) es) m = Some m' \<and> snd (mo_loops m' ! i) = Returned"
proof (cases "snd (mo_loops m ! i)")
  case Waiting
  with assms show ?thesis by (intro exI [of _ "[CtxDone]"]) simp
next
  case Collecting
  with assms show ?thesis by (intro exI [of _ "[Collected SampleErr, CtxDone]"]) simp
next
  case (Storing r)
  with assms show ?thesis by (intro exI [of _ "[Stored, CtxDone]"]) simp
next
  case Returned
  then show ?thesis by (intro exI [of _ "[]"]) simp
qed

text \<open>
  C18. A monitor that was started once can be stopped: after \<open>Stop\<close>, whatever happens except another
  \<open>Start\<close>, every context is done, and every goroutine can return within two steps of its own: its
  getter fails or it stores what it has collected, and it returns.
\<close>

theorem mon_Stop_ends_collection:
  assumes "mon_run es (mon_New cfg) = Some m" and "length (filter is_start es) \<le> 1"
    and "mon_run (StopCalled # es') m = Some m'" and "list_all (\<lambda>e. \<not> is_start e) es'"
  shows "list_all (\<lambda>d. d) (mo_ctxs m') \<and>
    (\<forall>i<length (mo_loops m'). \<exists>es'' m''. length es'' \<le> 2 \<and>
       mon_run (map (LoopStep i) es'') m' = Some m'' \<and> snd (mo_loops m'' ! i) = Returned)"
proof -
  have "length (mo_ctxs m) \<le> 1" using mon_run_contexts [OF assms(1)] assms(2) by (simp add: mon_New_def)
  then have "all_done (mon_Stop m)"
    using mon_run_wf [OF assms(1)]
    by (cases "mo_ctxs m") (auto simp: all_done_def mon_Stop_def cancel_ctx_def mon_wf_def)
  moreover have "mon_run es' (mon_Stop m) = Some m'" using assms(3) by simp
  ultimately have dn: "all_done m'"
    using mon_run_invariant [of es' "mon_Stop m" m' all_done "\<lambda>e. \<not> is_start e"] assms(4) mon_step_all_done by blast
  have "mon_wf m'"
    using mon_run_wf [of "es @ StopCalled # es'" cfg m'] assms(1,3) by simp
  then have "mo_ctxs m' ! fst (mo_loops m' ! i)" if "i < length (mo_loops m')" for i
    using that dn by (simp add: mon_wf_def all_done_def list_all_length)
  then show ?thesis using dn loop_can_return [of _ m'] unfolding all_done_def by blast
qed

theorem mon_Stop_ends_collection_witness:
  "\<exists>m m' m''. mon_run [StartCalled False, StartCollected 0 (Sample (1 :: int)), StartStored 0 1, LoopStep 0 Tick] (mon_New None) = Some m \<and>
    mon_run [StopCalled, LoopStep 0 (Collected (Sample 2)), LoopStep 0 Stored] m = Some m' \<and> mo_ctxs m' = [True] \<and>
    mon_run [LoopStep 0 Tick, LoopStep 0 (Collected SampleErr), LoopStep 0 CtxDone] m' = Some m'' \<and>
    mo_loops m'' = [(0, Returned)] \<and> mon_Latest m'' = Some 2"
proof -
  let ?es = "[StartCalled False, StartCollected 0 (Sample (1 :: int)), StartStored 0 1, LoopStep 0 Tick]"
  let ?es' = "[LoopStep 0 (Collected (Sample (2 :: int))), LoopStep 0 Stored]"
  let ?m = "\<lparr>mo_config = mon_DefaultConfig, mo_getter = OwnGetter, mo_latest = Some 1, mo_cancel = Some 0, mo_ctxs = [False],
      mo_starts = [], mo_storing = [], mo_loops = [(0, Collecting)]\<rparr>"
  let ?m' = "\<lparr>mo_config = mon_DefaultConfig, mo_getter = OwnGetter, mo_latest = Some 2, mo_cancel = Some 0, mo_ctxs = [True],
      mo_starts = [], mo_storing = [], mo_loops = [(0, Waiting)]\<rparr>"
  note defs = mon_New_def mon_normalize_def mon_DefaultConfig_def go_defs mon_Start_def mon_Start_collected_def
    mon_Start_stored_def mon_Stop_def cancel_ctx_def Let_def
  have run: "mon_run ?es (mon_New None) = Some ?m" by (simp add: defs)
  have run': "mon_run (StopCalled # ?es') ?m = Some ?m'" by (simp add: mon_Stop_def cancel_ctx_def)
  have "list_all (\<lambda>d. d) (mo_ctxs ?m')" using mon_Stop_ends_collection [OF run _ run'] by simp
  then have "mo_ctxs ?m' = [True]" by simp
  then show ?thesis
    by (intro exI [of _ ?m] exI [of _ ?m'] exI [of _ "?m'\<lparr>mo_loops := [(0, Returned)]\<rparr>"] conjI run run')
      (simp_all add: mon_Latest_def)
qed

subsection \<open>The latest snapshot\<close>

text \<open>
  The results that wait for the lock, and the number of calls and goroutines that can have
  one: never more than the contexts made, so at most one after a single \<open>Start\<close>.
\<close>

fun loop_storing :: "'r loop_pc \<Rightarrow> 'r list" where
  "loop_storing (Storing r) = [r]"
| "loop_storing _ = []"

definition storing :: "'r monitor \<Rightarrow> 'r list" where
  "storing m = map snd (mo_storing m) @ concat (map (loop_storing \<circ> snd) (mo_loops m))"

definition activity :: "'r monitor \<Rightarrow> nat" where
  "activity m = length (mo_starts m) + length (mo_storing m) + length (mo_loops m)"

lemma storing_le: "length (storing m) \<le> length (mo_storing m) + length (mo_loops m)"
proof -
  have "length (concat (map (loop_storing \<circ> snd) ls)) \<le> length ls" for ls :: "(nat \<times> 'r loop_pc) list"
  proof (induction ls)
    case (Cons l ls)
    then show ?case by (cases "snd l") auto
  qed simp
  then show ?thesis by (simp add: storing_def)
qed

lemma Suc_length_remove1: "x \<in> set xs \<Longrightarrow> Suc (length (remove1 x xs)) = length xs"
  by (induction xs) auto

lemma mon_step_activity:
  "mon_step e m = Some m' \<Longrightarrow> activity m \<le> length (mo_ctxs m) \<Longrightarrow> activity m' \<le> length (mo_ctxs m')"
proof (cases e)
  case (LoopStep i le)
  then show "mon_step e m = Some m' \<Longrightarrow> activity m \<le> length (mo_ctxs m) \<Longrightarrow> ?thesis"
    using collectLoop_frame [of le i m m'] by (metis activity_def length_map mon_step.simps(7))
qed (auto simp: activity_def mon_SetResourceGetter_def mon_Start_def mon_Start_collected_def mon_Start_stored_def
    mon_Stop_def cancel_ctx_def Let_def split: if_splits sample.splits option.splits
    dest!: Suc_length_remove1)

lemma mon_run_ctxs_grow: "mon_run es m = Some m' \<Longrightarrow> length (mo_ctxs m) \<le> length (mo_ctxs m')"
proof (induction es arbitrary: m)
  case (Cons e es)
  then obtain m1 where "mon_step e m = Some m1" "mon_run es m1 = Some m'" by (auto split: option.splits)
  moreover have "length (mo_ctxs m) \<le> length (mo_ctxs m1)" if "mon_step e m = Some m1"
  proof (cases e)
    case (LoopStep i le)
    then show ?thesis using that collectLoop_frame [of le i m m1] by simp
  qed (use that in \<open>auto simp: mon_SetResourceGetter_def mon_Start_def mon_Start_collected_def mon_Start_stored_def
      mon_Stop_def cancel_ctx_def Let_def split: if_splits sample.splits option.splits\<close>)
  ultimately show ?case using Cons.IH by (meson order_trans)
qed simp

text \<open>With at most one call or goroutine at work, a step collects or stores the only result.\<close>

lemma one_activity:
  assumes "activity m \<le> 1"
  shows "(mo_starts m = [] \<and> mo_storing m = [] \<and> mo_loops m = []) \<or>
    (\<exists>c. mo_starts m = [c] \<and> mo_storing m = [] \<and> mo_loops m = []) \<or>
    (\<exists>c. mo_starts m = [] \<and> mo_storing m = [c] \<and> mo_loops m = []) \<or>
    (\<exists>c pc. mo_starts m = [] \<and> mo_storing m = [] \<and> mo_loops m = [(c, pc)])"
  using assms unfolding activity_def
  by (cases "mo_starts m"; cases "mo_storing m"; cases "mo_loops m") auto

fun stored_by :: "'r mon_event \<Rightarrow> 'r monitor \<Rightarrow> 'r list" where
  "stored_by (StartStored c r) m = [r]"
| "stored_by (LoopStep i Stored) m = storing m"
| "stored_by _ m = []"

lemma collectLoop_collects:
  assumes "collectLoop e i m = Some m'" and "activity m \<le> 1"
  shows "storing m @ result_of (LoopStep i e) = stored_by (LoopStep i e) m @ storing m' \<and>
    mo_latest m' = last_of (mo_latest m) (stored_by (LoopStep i e) m)"
proof -
  have "i < length (mo_loops m)" using assms(1) by (cases e) (simp_all split: if_splits)
  then obtain c pc where m: "i = 0" "mo_storing m = []" "mo_loops m = [(c, pc)]"
    using one_activity [OF assms(2)] by auto
  show ?thesis
  proof (cases e)
    case (Collected r)
    then show ?thesis using assms(1) m by (cases r) (auto simp: storing_def split: if_splits)
  next
    case Stored
    then show ?thesis using assms(1) m by (cases pc) (auto simp: storing_def)
  qed (use assms(1) m in \<open>auto simp: storing_def split: if_splits\<close>)
qed

lemma mon_step_collects:
  assumes "mon_step e m = Some m'" and "activity m \<le> 1"
  shows "storing m @ result_of e = stored_by e m @ storing m' \<and> mo_latest m' = last_of (mo_latest m) (stored_by e m)"
proof (cases e)
  case (LoopStep i le)
  then show ?thesis using assms collectLoop_collects by (metis mon_step.simps(7))
next
  case (StartCollected c r)
  with assms(1) have "c \<in> set (mo_starts m)" by (simp split: if_splits)
  then have "mo_storing m = [] \<and> mo_loops m = []"
    using one_activity [OF assms(2)] by auto
  then show ?thesis
    using assms(1) StartCollected
    by (cases r) (auto simp: mon_Start_collected_def Let_def storing_def split: if_splits)
next
  case (StartStored c r)
  with assms(1) have "(c, r) \<in> set (mo_storing m)" by (simp split: if_splits)
  then have "mo_storing m = [(c, r)] \<and> mo_loops m = []"
    using one_activity [OF assms(2)] by auto
  then show ?thesis
    using assms(1) StartStored by (auto simp: mon_Start_stored_def storing_def)
qed (use assms(1) in \<open>auto simp: mon_SetResourceGetter_def mon_Start_def mon_Stop_def cancel_ctx_def storing_def
    split: if_splits option.splits\<close>)

lemma mon_run_collects:
  assumes "mon_run es m = Some m'" and "activity m \<le> length (mo_ctxs m)" and "length (mo_ctxs m') \<le> 1"
    and "mo_latest m = last_of None xs"
  shows "\<exists>ys. xs @ storing m @ results_of es = ys @ storing m' \<and> mo_latest m' = last_of None ys \<and>
    length (storing m') \<le> 1"
  using assms
proof (induction es arbitrary: m xs)
  case Nil
  then have "length (storing m) \<le> 1" using storing_le [of m] by (simp add: activity_def)
  with Nil show ?case by (auto simp: results_of_def)
next
  case (Cons e es)
  then obtain m1 where step: "mon_step e m = Some m1" and run: "mon_run es m1 = Some m'"
    by (auto split: option.splits)
  have "length (mo_ctxs m) \<le> 1" using mon_run_ctxs_grow [OF Cons.prems(1)] Cons.prems(3) by simp
  then have one: "activity m \<le> 1" using Cons.prems(2) by simp
  define ys where "ys = xs @ stored_by e m"
  have ys: "xs @ storing m @ result_of e = ys @ storing m1" "mo_latest m1 = last_of None ys"
    using mon_step_collects [OF step one] Cons.prems(4) by (simp_all add: ys_def)
  obtain zs where "ys @ storing m1 @ results_of es = zs @ storing m'" "mo_latest m' = last_of None zs \<and>
      length (storing m') \<le> 1"
    using Cons.IH [OF run mon_step_activity [OF step Cons.prems(2)] Cons.prems(3) ys(2)] by blast
  with ys(1) show ?case by (intro exI [of _ zs]) (simp add: results_of_def flip: append_assoc)
qed

text \<open>
  C25. A monitor that was started at most once: \<open>Latest\<close> returns the snapshot the getter returned
  last, in \<open>Start\<close> or in the goroutine, whatever failed or was stopped in between, and nil as
  long as there is none. The one snapshot that may have been returned by the getter but not
  stored yet is not counted: the history of all snapshots is the stored ones followed by it.
\<close>

theorem mon_Latest_is_last_collected:
  fixes es :: "'r mon_event list"
  assumes "mon_run es (mon_New cfg) = Some m" and "length (filter is_start es) \<le> 1"
  shows "\<exists>stored. results_of es = stored @ storing m \<and> length (storing m) \<le> 1 \<and>
    mon_Latest m = (if stored = [] then None else Some (last stored))"
proof -
  have "length (mo_ctxs m) \<le> 1" using mon_run_contexts [OF assms(1)] assms(2) by (simp add: mon_New_def)
  moreover let ?m = "mon_New cfg :: 'r monitor"
  have "activity ?m \<le> length (mo_ctxs ?m)" "storing ?m = []" "mo_latest ?m = last_of None []"
    by (simp_all add: mon_New_def activity_def storing_def)
  ultimately obtain ys where "results_of es = ys @ storing m" "mo_latest m = last_of None ys" "length (storing m) \<le> 1"
    using mon_run_collects [OF assms(1), of "[]"] by auto
  then show ?thesis by (intro exI [of _ ys]) (simp add: mon_Latest_def last_of_def)
qed

theorem mon_Latest_is_last_collected_witness:
  "\<exists>m. mon_run [StartCalled False, StartCollected 0 (Sample 1), StartStored 0 1, LoopStep 0 Tick,
      LoopStep 0 (Collected (Sample 2)), LoopStep 0 Stored, LoopStep 0 Tick, LoopStep 0 (Collected SampleErr),
      LoopStep 0 Tick, LoopStep 0 (Collected (Sample 3)), StopCalled] (mon_New None) = Some m \<and>
    storing m = [3] \<and> mon_Latest m = Some (2 :: int)"
proof -
  let ?es = "[StartCalled False, StartCollected 0 (Sample 1), StartStored 0 1, LoopStep 0 Tick,
      LoopStep 0 (Collected (Sample (2 :: int))), LoopStep 0 Stored, LoopStep 0 Tick, LoopStep 0 (Collected SampleErr),
      LoopStep 0 Tick, LoopStep 0 (Collected (Sample 3)), StopCalled]"
  note defs = mon_New_def mon_normalize_def mon_DefaultConfig_def go_defs mon_Start_def mon_Start_collected_def
    mon_Start_stored_def mon_Stop_def cancel_ctx_def
  obtain m where run: "mon_run ?es (mon_New None) = Some m" by (simp add: defs)
  then have s: "storing m = [3]" by (auto simp: defs storing_def)
  obtain stored where "results_of ?es = stored @ [3]" and "mon_Latest m = (if stored = [] then None else Some (last stored))"
    using mon_Latest_is_last_collected [OF run] s by auto
  then have "mon_Latest m = Some 2" by (auto simp: results_of_def)
  with run s show ?thesis by blast
qed

text \<open>
  With a second \<open>Start\<close> that is lost, even after a \<open>Stop\<close>: \<open>Stop\<close> does not wait for the goroutine,
  which can still hold a result of its getter. It stores it after the new \<open>Start\<close> has collected
  and stored a newer one, and \<open>Latest\<close> goes back to the older snapshot.
\<close>

theorem mon_Latest_goes_back:
  "\<exists>m. mon_run [StartCalled False, StartCollected 0 (Sample 1), StartStored 0 1, LoopStep 0 Tick,
      LoopStep 0 (Collected (Sample 2)), StopCalled, StartCalled False, StartCollected 1 (Sample 3),
      StartStored 1 3] (mon_New None) = Some m \<and> mon_Latest m = Some (3 :: int) \<and>
    (\<exists>m'. mon_run [LoopStep 0 Stored] m = Some m' \<and> storing m' = [] \<and> mon_Latest m' = Some 2)"
  by (simp add: mon_New_def mon_normalize_def mon_DefaultConfig_def go_defs mon_Start_def mon_Start_collected_def
    mon_Start_stored_def mon_Stop_def cancel_ctx_def mon_Latest_def storing_def)

subsection \<open>Two starts\<close>

text \<open>The goroutine of the first \<open>Start\<close> runs, and nothing but its parent can end it.\<close>

definition leaked :: "'r monitor \<Rightarrow> bool" where
  "leaked m \<longleftrightarrow> mo_cancel m \<noteq> Some 0 \<and> mo_ctxs m \<noteq> [] \<and> \<not> mo_ctxs m ! 0 \<and> mo_loops m \<noteq> [] \<and>
     fst (mo_loops m ! 0) = 0 \<and> snd (mo_loops m ! 0) \<noteq> Returned"

lemma mon_step_leaked:
  assumes "mon_step e m = Some m'" and "e \<noteq> ParentDone 0" and "leaked m"
  shows "leaked m'"
proof (cases e)
  case (LoopStep i le)
  with assms have step: "collectLoop le i m = Some m'" by simp
  have "snd (mo_loops m' ! 0) \<noteq> Returned"
    using collectLoop_pc [OF step, of 0] collectLoop_running [OF step] assms(3) by (cases "i = 0") (auto simp: leaked_def)
  moreover have "mo_loops m' \<noteq> [] \<and> fst (mo_loops m' ! 0) = 0"
    using collectLoop_frame [OF step] assms(3) by (cases "mo_loops m'"; cases "mo_loops m") (auto simp: leaked_def)
  ultimately show ?thesis using collectLoop_frame [OF step] assms(3) by (simp add: leaked_def)
qed (use assms in \<open>auto simp: mon_SetResourceGetter_def leaked_def mon_Start_def mon_Start_collected_def mon_Start_stored_def mon_Stop_def cancel_ctx_def Let_def nth_append
    split: if_splits sample.splits option.splits\<close>)

text \<open>
  C30. A second \<open>Start\<close> loses the first goroutine: \<open>Stop\<close> cancels the newest context only, so unless
  the context the caller gave the first \<open>Start\<close> ends, the first goroutine never returns,
  however often \<open>Stop\<close> is called. If it was collecting it can still change \<open>Latest\<close>.
\<close>

theorem mon_second_Start_leaks:
  assumes "mon_run [StartCalled False, StartCollected 0 (Sample r), StartStored 0 r, StartCalled False,
      StartCollected 1 (Sample r), StartStored 1 r, StopCalled]
      (mon_New None) = Some m"
    and "mon_run es m = Some m'" and "ParentDone 0 \<notin> set es"
  shows "fst (mo_loops m' ! 0) = 0 \<and> snd (mo_loops m' ! 0) \<noteq> Returned \<and> \<not> mo_ctxs m' ! 0"
proof -
  have "leaked m" using assms(1)
    by (auto simp: leaked_def mon_New_def mon_normalize_def mon_DefaultConfig_def go_defs mon_Start_def
        mon_Start_collected_def mon_Start_stored_def mon_Stop_def cancel_ctx_def)
  then have "leaked m'"
    using mon_run_invariant [OF assms(2), of leaked "\<lambda>e. e \<noteq> ParentDone 0"] mon_step_leaked assms(3)
    by (auto simp: list_all_iff)
  then show ?thesis by (simp add: leaked_def)
qed

theorem mon_second_Start_leaks_witness:
  "\<exists>m m'. mon_run [StartCalled False, StartCollected 0 (Sample (1 :: int)), StartStored 0 1, StartCalled False,
      StartCollected 1 (Sample 1), StartStored 1 1, StopCalled]
      (mon_New None) = Some m \<and>
    mon_run [LoopStep 1 CtxDone, StopCalled, LoopStep 0 Tick, LoopStep 0 (Collected (Sample 5)), LoopStep 0 Stored] m = Some m' \<and>
    snd (mo_loops m' ! 0) \<noteq> Returned \<and> mon_Latest m' = Some 5"
proof -
  let ?es = "[StartCalled False, StartCollected 0 (Sample (1 :: int)), StartStored 0 1, StartCalled False,
      StartCollected 1 (Sample 1), StartStored 1 1, StopCalled]"
  let ?es' = "[LoopStep 1 CtxDone, StopCalled, LoopStep 0 Tick, LoopStep 0 (Collected (Sample (5 :: int))), LoopStep 0 Stored]"
  note defs = mon_New_def mon_normalize_def mon_DefaultConfig_def go_defs mon_Start_def mon_Start_collected_def
    mon_Start_stored_def mon_Stop_def cancel_ctx_def Let_def mon_Latest_def
  obtain m where run: "mon_run ?es (mon_New None) = Some m" by (simp add: defs)
  obtain m' where run': "mon_run ?es' m = Some m'" using run by (auto simp: defs)
  have "mon_Latest m' = Some 5" using run run' by (auto simp: defs)
  with mon_second_Start_leaks [OF run run'] run run' show ?thesis by auto
qed

subsection \<open>One collection\<close>

text \<open>The groups of fields of a snapshot; each collector fills one group and keeps the others.\<close>

definition cpu_fields :: "system_resources \<Rightarrow> real \<times> real list" where
  "cpu_fields res = (CPUPercent res, CPUPerCore res)"

definition memory_fields :: "system_resources \<Rightarrow> (64 word \<times> 64 word \<times> 64 word) \<times> real" where
  "memory_fields res = ((MemoryTotal res, MemoryUsed res, MemoryAvailable res), MemoryPercent res)"

definition disk_fields :: "system_resources \<Rightarrow> (64 word \<times> 64 word \<times> 64 word) \<times> real" where
  "disk_fields res = ((DiskTotal res, DiskUsed res, DiskFree res), DiskPercent res)"

definition load_fields :: "system_resources \<Rightarrow> real \<times> real \<times> real" where
  "load_fields res = (Load1 res, Load5 res, Load15 res)"

definition runtime_fields :: "system_resources \<Rightarrow> (i64 \<times> i64 \<times> time) \<times> 64 word \<times> 64 word" where
  "runtime_fields res = ((NumCPU res, NumGoroutines res, CollectedAt res), HeapAlloc res, HeapSys res)"

lemmas fields_defs = cpu_fields_def memory_fields_def disk_fields_def load_fields_def runtime_fields_def

lemma collect_cpu_fields [simp]:
  "cpu_fields (collect_cpu cfg src res) =
     (case so_Percent src (mc_CPUSampleTime cfg) False of Sample (p # ps) \<Rightarrow> p | _ \<Rightarrow> CPUPercent res,
      case so_Percent src 0 True of Sample ps \<Rightarrow> ps | SampleErr \<Rightarrow> CPUPerCore res)"
  "memory_fields (collect_cpu cfg src res) = memory_fields res" "disk_fields (collect_cpu cfg src res) = disk_fields res"
  "load_fields (collect_cpu cfg src res) = load_fields res" "runtime_fields (collect_cpu cfg src res) = runtime_fields res"
  by (simp_all add: collect_cpu_def fields_defs split: sample.split list.split)

lemma collect_memory_fields [simp]:
  "memory_fields (collect_memory src res) =
     (case so_VirtualMemory src of Sample (Some v) \<Rightarrow> ((vm_Total v, vm_Used v, vm_Available v), vm_UsedPercent v)
      | _ \<Rightarrow> memory_fields res)"
  "cpu_fields (collect_memory src res) = cpu_fields res" "disk_fields (collect_memory src res) = disk_fields res"
  "load_fields (collect_memory src res) = load_fields res" "runtime_fields (collect_memory src res) = runtime_fields res"
  by (simp_all add: collect_memory_def fields_defs split: sample.split option.split)

lemma collect_disk_fields [simp]:
  "disk_fields (collect_disk cfg src res) =
     (case so_Usage src (mc_DiskPath cfg) of Sample (Some d) \<Rightarrow> ((du_Total d, du_Used d, du_Free d), du_UsedPercent d)
      | _ \<Rightarrow> disk_fields res)"
  "cpu_fields (collect_disk cfg src res) = cpu_fields res" "memory_fields (collect_disk cfg src res) = memory_fields res"
  "load_fields (collect_disk cfg src res) = load_fields res" "runtime_fields (collect_disk cfg src res) = runtime_fields res"
  by (simp_all add: collect_disk_def fields_defs split: sample.split option.split)

lemma collect_load_fields [simp]:
  "load_fields (collect_load src res) =
     (case so_Avg src of Sample (Some l) \<Rightarrow> (la_Load1 l, la_Load5 l, la_Load15 l) | _ \<Rightarrow> load_fields res)"
  "cpu_fields (collect_load src res) = cpu_fields res" "memory_fields (collect_load src res) = memory_fields res"
  "disk_fields (collect_load src res) = disk_fields res" "runtime_fields (collect_load src res) = runtime_fields res"
  by (simp_all add: collect_load_def fields_defs split: sample.split option.split)

text \<open>
  The collection the monitor is made with never fails: where a source fails its fields stay
  zero and the other sources still fill theirs. So \<open>Start\<close> returns an error only for its interval.
\<close>

theorem mon_default_collection_never_fails:
  "\<exists>res. GetSystemResources cfg src = Sample res \<and>
     fst (mon_Start_collected c (GetSystemResources cfg src) m) \<and>
     mon_Latest (mon_Start_stored c res (snd (mon_Start_collected c (GetSystemResources cfg src) m))) = Some res \<and>
     cpu_fields res = (case so_Percent src (mc_CPUSampleTime cfg) False of Sample (p # ps) \<Rightarrow> p | _ \<Rightarrow> 0,
       case so_Percent src 0 True of Sample ps \<Rightarrow> ps | SampleErr \<Rightarrow> []) \<and>
     memory_fields res = (case so_VirtualMemory src of
         Sample (Some v) \<Rightarrow> ((vm_Total v, vm_Used v, vm_Available v), vm_UsedPercent v) | _ \<Rightarrow> ((0, 0, 0), 0)) \<and>
     disk_fields res = (case so_Usage src (mc_DiskPath cfg) of
         Sample (Some d) \<Rightarrow> ((du_Total d, du_Used d, du_Free d), du_UsedPercent d) | _ \<Rightarrow> ((0, 0, 0), 0)) \<and>
     load_fields res = (case so_Avg src of Sample (Some l) \<Rightarrow> (la_Load1 l, la_Load5 l, la_Load15 l) | _ \<Rightarrow> (0, 0, 0)) \<and>
     runtime_fields res = ((so_NumCPU src, so_NumGoroutine src, so_Now src), so_HeapAlloc src, so_HeapSys src)"
proof -
  let ?r0 = "collect_runtime src (zero_resources\<lparr>NumCPU := so_NumCPU src, CollectedAt := so_Now src\<rparr>)"
  have zero: "CPUPercent ?r0 = 0" "CPUPerCore ?r0 = []" "memory_fields ?r0 = ((0, 0, 0), 0)" "disk_fields ?r0 = ((0, 0, 0), 0)"
    "load_fields ?r0 = (0, 0, 0)"
    "runtime_fields ?r0 = ((so_NumCPU src, so_NumGoroutine src, so_Now src), so_HeapAlloc src, so_HeapSys src)"
    by (simp_all add: fields_defs collect_runtime_def zero_resources_def)
  show ?thesis
    by (simp add: GetSystemResources_def Let_def mon_Start_collected_def mon_Start_stored_def mon_Latest_def zero
        cong: sample.case_cong option.case_cong list.case_cong)
qed

end
