(* ===== verification/Runner.thy ===== *)
theory Runner
  imports Priority_Queue Semaphore Circuit_Breaker Rate_Limiter "HOL-Library.Sublist"
begin

section \<open>The describe challenge (\<open>challenges/runner/main.go\<close>)\<close>

text \<open>
  The runner exercises the module's components one after the other and checks what it observes;
  then it checks that the two locales it printed are different. It is the one client of the components
  in the repository, so its checks are run here on their models. What the files hold, how
  YAML is read, the readings of the clock and the run of the worker pool are arguments.
\<close>

subsection \<open>Errors and exit codes\<close>

datatype run_error =
    Getwd string
  | ReadFixture string string
  | ParseFixture string string
  | EmptyFixture string
  | MissingKey string string
  | PoolSubmit string
  | PoolResults nat nat
  | PoolExecutions nat nat
  | QueueHead string bool
  | QueueOrder int int string
  | QueueDrained nat
  | LimiterAllowed nat nat
  | LimiterRejected nat nat
  | BreakerNotOpen nat string
  | BreakerProbe string
  | BreakerNotClosed string
  | SemAcquire string
  | SemCurrent int int
  | SemAvailable int int
  | SameBanner string
  | VerbatimBanner string

text \<open>\<open>%q\<close>: the text in double quotes, with quotes, backslashes and line breaks escaped.\<close>

definition quoted_char :: "char \<Rightarrow> string" where
  "quoted_char c =
     (if c = CHR 0x22 \<or> c = CHR 0x5C then [CHR 0x5C, c]
      else if c = CHR 0x0A then [CHR 0x5C, CHR ''n''] else [c])"

definition quoted :: "string \<Rightarrow> string" where
  "quoted s = CHR 0x22 # concat (map quoted_char s) @ [CHR 0x22]"

definition fmt_t :: "bool \<Rightarrow> string" where
  "fmt_t b = (if b then ''true'' else ''false'')"

fun error_text :: "run_error \<Rightarrow> string" where
  "error_text (Getwd e) = ''getwd: '' @ e"
| "error_text (ReadFixture p e) = ''read fixture '' @ p @ '': '' @ e"
| "error_text (ParseFixture p e) = ''parse fixture '' @ p @ '': '' @ e"
| "error_text (EmptyFixture p) = ''fixture '' @ p @ '' is empty''"
| "error_text (MissingKey l k) = ''locale '' @ quoted l @ '' missing required key '' @ quoted k"
| "error_text (PoolSubmit e) = ''pool SubmitBatchWait: '' @ e"
| "error_text (PoolResults n m) = ''pool: expected '' @ fmt_d (int n) @ '' results, got '' @ fmt_d (int m) @ '' (regression)''"
| "error_text (PoolExecutions n m) = ''pool: expected '' @ fmt_d (int n) @ '' executions, got '' @ fmt_d (int m)"
| "error_text (QueueHead h ok) = ''queue: expected head=critical-1, got head='' @ quoted h @ '' ok='' @ fmt_t ok @ '' (regression)''"
| "error_text (QueueOrder p c i) = ''queue: priority order violation (prev='' @ fmt_d p @ '' cur='' @ fmt_d c @ '' item='' @ i @ '')''"
| "error_text (QueueDrained n) = ''queue: expected drained=5, got '' @ fmt_d (int n) @ '' (regression)''"
| "error_text (LimiterAllowed n m) =
     ''limiter: expected allowed='' @ fmt_d (int n) @ '' (bucket capacity), got '' @ fmt_d (int m) @ '' (regression)''"
| "error_text (LimiterRejected n m) =
     ''limiter: expected rejected='' @ fmt_d (int n) @ '', got '' @ fmt_d (int m) @ '' (regression)''"
| "error_text (BreakerNotOpen n s) = ''breaker: expected Open after '' @ fmt_d (int n) @ '' failures, got '' @ s @ '' (regression)''"
| "error_text (BreakerProbe e) = ''breaker: probe should succeed, got '' @ e"
| "error_text (BreakerNotClosed s) = ''breaker: expected Closed after successful probe, got '' @ s @ '' (regression)''"
| "error_text (SemAcquire e) = ''semaphore Acquire: '' @ e"
| "error_text (SemCurrent n m) = ''semaphore: expected current='' @ fmt_d n @ '', got '' @ fmt_d m @ '' (regression)''"
| "error_text (SemAvailable n m) = ''semaphore: expected available='' @ fmt_d n @ '', got '' @ fmt_d m @ '' (regression)''"
| "error_text (SameBanner b) = ''locale-bluff regression: EN banner == SR banner ('' @ quoted b @ ''); fixtures not actually distinct''"
| "error_text (VerbatimBanner l) = ''locale '' @ quoted l @ '': banner key resolved to verbatim key (fixture lookup miss)''"

text \<open>\<open>main\<close>: the exit code depends on a word in the text of the error.\<close>

definition exit_code :: "run_error + 'a \<Rightarrow> nat" where
  "exit_code r = (case r of Inr _ \<Rightarrow> 0 | Inl e \<Rightarrow> if sublist ''regression'' (error_text e) then 2 else 1)"

text \<open>Early return on an error.\<close>

definition and_then :: "'e + 'a \<Rightarrow> ('a \<Rightarrow> 'e + 'b) \<Rightarrow> 'e + 'b" where
  "and_then r f = (case r of Inl e \<Rightarrow> Inl e | Inr x \<Rightarrow> f x)"

lemma and_then_simps [simp]: "and_then (Inl e) f = Inl e" "and_then (Inr x) f = f x"
  by (simp_all add: and_then_def)

lemma and_then_Inr: "and_then r f = Inr y \<longleftrightarrow> (\<exists>x. r = Inr x \<and> f x = Inr y)"
  by (cases r) simp_all

subsection \<open>Fixtures\<close>

record fixture =
  fx_locale :: string
  fx_entries :: "(string \<times> string) list"

definition loadFixture :: "(string \<Rightarrow> string + 'raw) \<Rightarrow> ('raw \<Rightarrow> string + (string \<times> string) list) \<Rightarrow> string \<Rightarrow> string \<Rightarrow> run_error + fixture" where
  "loadFixture ReadFile Unmarshal path locale =
     (case ReadFile path of
        Inl e \<Rightarrow> Inl (ReadFixture path e)
      | Inr raw \<Rightarrow>
          (case Unmarshal raw of
             Inl e \<Rightarrow> Inl (ParseFixture path e)
           | Inr entries \<Rightarrow>
               if length entries = 0 then Inl (EmptyFixture path)
               else Inr \<lparr>fx_locale = locale, fx_entries = entries\<rparr>))"

definition fx_t :: "fixture \<Rightarrow> string \<Rightarrow> string" where
  "fx_t f key = (case map_of (fx_entries f) key of Some v \<Rightarrow> if v \<noteq> '''' then v else key | None \<Rightarrow> key)"

definition requireKey :: "fixture \<Rightarrow> string \<Rightarrow> run_error + unit" where
  "requireKey f key = (if map_of (fx_entries f) key = None then Inl (MissingKey (fx_locale f) key) else Inr ())"

definition requiredKeys :: "string list" where
  "requiredKeys =
     [''challenge.banner'', ''challenge.pool.label'', ''challenge.pool.summary'', ''challenge.queue.label'',
      ''challenge.queue.summary'', ''challenge.limiter.label'', ''challenge.limiter.summary'',
      ''challenge.breaker.label'', ''challenge.breaker.summary'', ''challenge.semaphore.label'',
      ''challenge.semaphore.summary'', ''challenge.result.success'', ''challenge.result.failure'']"

fun require_keys :: "fixture \<Rightarrow> string list \<Rightarrow> run_error + unit" where
  "require_keys f [] = Inr ()"
| "require_keys f (k # ks) = and_then (requireKey f k) (\<lambda>_. require_keys f ks)"

subsection \<open>The worker pool\<close>

text \<open>
  The function of the \<open>i\<close>-th task, with the two counters it shares with the others. The run
  of the pool is given by the order in which the tasks were executed and by what
  \<open>SubmitBatchWait\<close> returned: an error, or a number of results.
\<close>

definition pool_task :: "nat \<Rightarrow> nat \<times> nat \<Rightarrow> (string + int) \<times> (nat \<times> nat)" where
  "pool_task i = (\<lambda>(executed, failed).
     if i mod 5 = 0 \<and> 0 < i then (Inl ''intentional pool-task error'', (executed + 1, failed + 1))
     else (Inr (int i * 2), (executed + 1, failed)))"

definition runPool :: "nat list \<Rightarrow> string + nat \<Rightarrow> run_error + (nat \<times> nat \<times> nat)" where
  "runPool order results =
     (case results of
        Inl e \<Rightarrow> Inl (PoolSubmit e)
      | Inr got \<Rightarrow>
          if got \<noteq> 12 then Inl (PoolResults 12 got)
          else (let (executed, failed) = fold (\<lambda>i c. snd (pool_task i c)) order (0, 0)
                in if executed \<noteq> 12 then Inl (PoolExecutions 12 executed)
                   else Inr (executed, executed - failed, failed)))"

subsection \<open>The priority queue\<close>

definition item_priority :: "string \<Rightarrow> int" where
  "item_priority item =
     (if prefix ''critical'' item then Critical
      else if prefix ''high'' item then High
      else if prefix ''normal'' item then Priority_Queue.Normal
      else if prefix ''low'' item then Low else 0)"

lemma length_heap_down: "length (heap_down h i n) = length h"
  by (induction h i n rule: heap_down.induct) (subst heap_down.simps, simp add: Let_def)

lemma pq_Pop_shorter: "pq_Pop q = (Some v, q') \<Longrightarrow> length (pq_items q') < length (pq_items q)"
  by (auto simp: pq_Pop_def heap_Pop_def inner_Pop_def Let_def length_heap_down split: if_splits)

function drain_loop :: "int \<Rightarrow> nat \<Rightarrow> string pqueue \<Rightarrow> run_error + nat" where
  "drain_loop prevPriority drained pq =
     (case pq_Pop pq of
        (None, pq) \<Rightarrow> Inr drained
      | (Some item, pq) \<Rightarrow>
          (let p = item_priority item in
           if prevPriority \<noteq> -1 \<and> p > prevPriority then Inl (QueueOrder prevPriority p item)
           else drain_loop p (drained + 1) pq))"
  by pat_completeness auto
termination by (relation "measure (\<lambda>(p, d, pq). length (pq_items pq))") (auto dest: pq_Pop_shorter [OF sym])

declare drain_loop.simps [simp del]

definition runQueue :: "run_error + (nat \<times> string)" where
  "runQueue =
     (let pq = pq_New 0;
          pq = pq_Push ''low-1'' Low pq;
          pq = pq_Push ''normal-1'' Priority_Queue.Normal pq;
          pq = pq_Push ''critical-1'' Critical pq;
          pq = pq_Push ''high-1'' High pq;
          pq = pq_Push ''low-2'' Low pq
      in case pq_Peek pq of
           None \<Rightarrow> Inl (QueueHead '''' False)
         | Some head \<Rightarrow>
             if head \<noteq> ''critical-1'' then Inl (QueueHead head True)
             else and_then (drain_loop (-1) 0 pq) (\<lambda>drained.
               if drained \<noteq> 5 then Inl (QueueDrained drained) else Inr (drained, head)))"

subsection \<open>The limiter, the breaker and the semaphore\<close>

fun limiter_loop :: "time list \<Rightarrow> token_bucket \<Rightarrow> nat \<times> nat" where
  "limiter_loop [] rl = (0, 0)"
| "limiter_loop (now # nows) rl =
     (let (ok, rl) = tb_Allow now rl; (allowed, rejected) = limiter_loop nows rl
      in if ok then (allowed + 1, rejected) else (allowed, rejected + 1))"

text \<open>The clock is read once for the new bucket and once in each of the eight attempts.\<close>

definition runLimiter :: "time \<Rightarrow> (nat \<Rightarrow> time) \<Rightarrow> run_error + (nat \<times> nat \<times> nat)" where
  "runLimiter start clock =
     (let rl = NewTokenBucket (Some \<lparr>Rate = 0, Capacity = 5\<rparr>) start;
          (allowed, rejected) = limiter_loop (map clock [0..<8]) rl
      in if allowed \<noteq> 5 then Inl (LimiterAllowed 5 allowed)
         else if rejected \<noteq> 8 - 5 then Inl (LimiterRejected (8 - 5) rejected)
         else Inr (allowed, 5, rejected))"

text \<open>
  The readings of the clock the breaker makes: up to three in each call of \<open>Execute\<close>, one in
  each call of \<open>State\<close>.
\<close>

record breaker_clock =
  bk_zero :: time
  bk_fail :: "nat \<Rightarrow> time \<times> time \<times> time"
  bk_open :: time
  bk_open_text :: time
  bk_probe :: "time \<times> time \<times> time"
  bk_closed :: time
  bk_closed_text :: time
  bk_end :: time

definition state_text :: "time \<Rightarrow> breaker \<Rightarrow> string" where
  "state_text now cb = State_String (state_code (fst (cb_State now cb)))"

definition failing_call :: "time \<times> time \<times> time \<Rightarrow> breaker \<Rightarrow> breaker" where
  "failing_call = (\<lambda>(now, t1, t2) cb. snd (cb_Execute now (Err ''intentional breaker failure'') t1 t2 cb))"

definition failing_calls :: "breaker_clock \<Rightarrow> nat \<Rightarrow> breaker \<Rightarrow> breaker" where
  "failing_calls ck n cb = fold (\<lambda>i. failing_call (bk_fail ck i)) [0..<n] cb"

fun cb_error_text :: "string cb_error outcome \<Rightarrow> string" where
  "cb_error_text (Err CbOpen) = ''circuit breaker is open''"
| "cb_error_text (Err (CbFn e)) = e"
| "cb_error_text _ = ''''"

definition runBreaker :: "breaker_clock \<Rightarrow> run_error + (i64 \<times> string \<times> bool)" where
  "runBreaker ck =
     (let maxFails = 3;
          cb = cb_New (bk_zero ck) (Some \<lparr>MaxFailures = int maxFails, Timeout = 100 * millisecond, HalfOpenRequests = 1\<rparr>);
          cb = failing_calls ck (maxFails + 1) cb;
          (st, cb) = cb_State (bk_open ck) cb
      in if st \<noteq> Open then Inl (BreakerNotOpen (maxFails + 1) (state_text (bk_open_text ck) cb))
         else (let (now, t1, t2) = bk_probe ck;
                   (r, cb) = cb_Execute now (Ok :: string outcome) t1 t2 cb
               in if r \<noteq> Ok then Inl (BreakerProbe (cb_error_text r))
                  else (let (st, cb) = cb_State (bk_closed ck) cb
                        in if st \<noteq> Closed then Inl (BreakerNotClosed (state_text (bk_closed_text ck) cb))
                           else Inr (cb_Failures cb, state_text (bk_end ck) cb, True))))"

text \<open>
  \<open>Acquire\<close> of the runner's only semaphore; had it to wait, it would wait for the context. The
  deferred release runs on every return after it.
\<close>

definition runSemaphore :: "(run_error + (i64 \<times> i64 \<times> i64)) \<times> semaphore" where
  "runSemaphore =
     (let (r, sem) = sem_Acquire_enter 3 0 (sem_New 8) in
      case r of
        AcquireTooBig w m \<Rightarrow> (Inl (SemAcquire (''weight '' @ fmt_d w @ '' exceeds max weight '' @ fmt_d m)), sem)
      | AcquireWait \<Rightarrow> (Inl (SemAcquire ''context deadline exceeded''), sem_Acquire_cancel 0 sem)
      | AcquireNil \<Rightarrow>
          (let cur = sem_Current sem; avail = sem_Available sem in
           (if cur \<noteq> 3 then Inl (SemCurrent 3 cur)
            else if avail \<noteq> 8 - 3 then Inl (SemAvailable (8 - 3) avail)
            else Inr (3, cur, avail),
            snd (sem_Release 3 sem))))"

subsection \<open>The whole run\<close>

record 'raw world =
  wo_Getwd :: "string + string"
  wo_ReadFile :: "string \<Rightarrow> string + 'raw"
  wo_Unmarshal :: "'raw \<Rightarrow> string + (string \<times> string) list"
  wo_order :: "nat list"
  wo_results :: "string + nat"
  wo_start :: time
  wo_clock :: "nat \<Rightarrow> time"
  wo_breaker :: breaker_clock

definition fixture_path :: "string \<Rightarrow> string \<Rightarrow> string" where
  "fixture_path repoRoot name = (if repoRoot = ''/'' then '''' else repoRoot) @ ''/challenges/fixtures/'' @ name"

definition load_all :: "'raw world \<Rightarrow> run_error + (fixture \<times> fixture)" where
  "load_all w =
     (case wo_Getwd w of
        Inl e \<Rightarrow> Inl (Getwd e)
      | Inr repoRoot \<Rightarrow>
          and_then (loadFixture (wo_ReadFile w) (wo_Unmarshal w) (fixture_path repoRoot ''en.yaml'') ''en'') (\<lambda>enFix.
          and_then (loadFixture (wo_ReadFile w) (wo_Unmarshal w) (fixture_path repoRoot ''sr-Latn.yaml'') ''sr-Latn'') (\<lambda>srFix.
          and_then (require_keys enFix requiredKeys) (\<lambda>_.
          and_then (require_keys srFix requiredKeys) (\<lambda>_.
          Inr (enFix, srFix))))))"

definition verbatim_check :: "fixture \<Rightarrow> run_error + unit" where
  "verbatim_check f =
     (if fx_t f ''challenge.banner'' = ''challenge.banner'' then Inl (VerbatimBanner (fx_locale f)) else Inr ())"

definition banner_checks :: "fixture \<Rightarrow> fixture \<Rightarrow> run_error + unit" where
  "banner_checks enFix srFix =
     (if fx_t enFix ''challenge.banner'' = fx_t srFix ''challenge.banner''
      then Inl (SameBanner (fx_t enFix ''challenge.banner''))
      else and_then (verbatim_check enFix) (\<lambda>_. verbatim_check srFix))"

definition run_primitives :: "'raw world \<Rightarrow> run_error + ((nat \<times> nat \<times> nat) \<times> (nat \<times> string) \<times> (nat \<times> nat \<times> nat) \<times>
    (i64 \<times> string \<times> bool) \<times> (i64 \<times> i64 \<times> i64))" where
  "run_primitives w =
     and_then (runPool (wo_order w) (wo_results w)) (\<lambda>pool.
     and_then runQueue (\<lambda>queue.
     and_then (runLimiter (wo_start w) (wo_clock w)) (\<lambda>lim.
     and_then (runBreaker (wo_breaker w)) (\<lambda>br.
     and_then (fst runSemaphore) (\<lambda>sem.
     Inr (pool, queue, lim, br, sem))))))"

definition run :: "'raw world \<Rightarrow> run_error + unit" where
  "run w =
     and_then (load_all w) (\<lambda>(enFix, srFix).
     and_then (run_primitives w) (\<lambda>_.
     banner_checks enFix srFix))"

text \<open>
  The printed lines. \<open>Sprintf\<close> of the format a fixture holds is an argument. The lines are
  printed before the banners are checked; the last one says that every check passed.
\<close>

datatype fmt_arg = ArgInt int | ArgString string | ArgBool bool

fun emit :: "(string \<Rightarrow> fmt_arg list \<Rightarrow> string) \<Rightarrow>
    (nat \<times> nat \<times> nat) \<times> (nat \<times> string) \<times> (nat \<times> nat \<times> nat) \<times> (i64 \<times> string \<times> bool) \<times> (i64 \<times> i64 \<times> i64) \<Rightarrow>
    fixture \<Rightarrow> string list" where
  "emit sprintf ((poolExec, poolOK, poolFail), (qDrained, qHead), (limAllowed, limCap, limRej),
      (brFails, brState, brRecovered), (semAcq, semCur, semAvail)) f =
     (let item = (\<lambda>label summary args. ''  ['' @ fx_t f label @ ''] '' @ sprintf (fx_t f summary) args) in
      [fx_t f ''challenge.banner'',
       item ''challenge.pool.label'' ''challenge.pool.summary''
         [ArgInt (int poolExec), ArgInt 4, ArgInt (int poolOK), ArgInt (int poolFail)],
       item ''challenge.queue.label'' ''challenge.queue.summary'' [ArgInt (int qDrained), ArgString qHead],
       item ''challenge.limiter.label'' ''challenge.limiter.summary''
         [ArgInt (int limAllowed), ArgInt (int limCap), ArgInt (int limRej)],
       item ''challenge.breaker.label'' ''challenge.breaker.summary''
         [ArgInt brFails, ArgString brState, ArgBool brRecovered],
       item ''challenge.semaphore.label'' ''challenge.semaphore.summary''
         [ArgInt semAcq, ArgInt semCur, ArgInt semAvail],
       ''  '' @ fx_t f ''challenge.result.success''])"

definition pass_text :: string where
  "pass_text = CHR 0x0A # ''concurrency describe challenge: PASS (bilingual, real primitives, no mocks)''"

definition run_output :: "(string \<Rightarrow> fmt_arg list \<Rightarrow> string) \<Rightarrow> 'raw world \<Rightarrow> string list" where
  "run_output sprintf w =
     (case load_all w of
        Inl e \<Rightarrow> []
      | Inr (enFix, srFix) \<Rightarrow>
          (case run_primitives w of
             Inl e \<Rightarrow> []
           | Inr observed \<Rightarrow>
               emit sprintf observed enFix @ emit sprintf observed srFix @
               (case banner_checks enFix srFix of Inl e \<Rightarrow> [] | Inr _ \<Rightarrow> [pass_text])))"

text \<open>The last line tells what the exit code tells.\<close>

lemma last_emit: "\<exists>s. last (emit sprintf observed f) = ''  '' @ s \<and> emit sprintf observed f \<noteq> []"
  by (cases "(sprintf, observed, f)" rule: emit.cases) (auto simp: Let_def)

theorem run_output_pass:
  "exit_code (run w) = 0 \<longleftrightarrow> run_output sprintf w \<noteq> [] \<and> last (run_output sprintf w) = pass_text"
proof (cases "load_all w")
  case (Inr fixtures)
  obtain en sr where f: "fixtures = (en, sr)" by fastforce
  show ?thesis
  proof (cases "run_primitives w")
    case inner: (Inr observed)
    obtain s where "last (emit sprintf observed sr) = ''  '' @ s" "emit sprintf observed sr \<noteq> []"
      using last_emit [of sprintf observed sr] by blast
    then show ?thesis
      using Inr f inner
      by (cases "banner_checks en sr") (auto simp: run_def run_output_def exit_code_def pass_text_def)
  qed (use Inr f in \<open>simp add: run_def run_output_def exit_code_def\<close>)
qed (simp add: run_def run_output_def exit_code_def)

subsection \<open>What each check observes\<close>

lemma pool_tasks_counted:
  "fold (\<lambda>i c. snd (pool_task i c)) is (e, f) =
     (e + length is, f + length (filter (\<lambda>i. i mod 5 = 0 \<and> 0 < i) is))"
  by (induction "is" arbitrary: e f) (auto simp: pool_task_def)

lemma length_filter_mset: "mset xs = mset ys \<Longrightarrow> length (filter P xs) = length (filter P ys)"
  by (metis mset_filter size_mset)

lemma runPool_ok:
  assumes "mset order = mset [0..<12]"
  shows "runPool order (Inr 12) = Inr (12, 10, 2)"
proof -
  have "length (filter (\<lambda>i. i mod 5 = 0 \<and> 0 < i) order) = length (filter (\<lambda>i. i mod 5 = 0 \<and> 0 < i) [0..<12])"
    using assms by (rule length_filter_mset)
  also have "\<dots> = 2" by (simp add: upt_rec)
  finally have two: "length (filter (\<lambda>i. i mod 5 = 0 \<and> 0 < i) order) = 2" .
  have "length order = 12" using mset_eq_length [OF assms] by simp
  with two show ?thesis by (simp add: runPool_def pool_tasks_counted)
qed

lemma runQueue_ok: "runQueue = Inr (5, ''critical-1'')"
  by code_simp

lemma limiter_loop_run:
  "limiter_loop ts rl = (let oks = fst (allow_run tb_Allow ts rl) in
     (length (filter (\<lambda>ok. ok) oks), length (filter (\<lambda>ok. \<not> ok) oks)))"
  by (induction ts arbitrary: rl) (auto simp: Let_def split: prod.splits)

lemma runLimiter_ok: "runLimiter start clock = Inr (5, 5, 3)"
proof -
  let ?rl = "NewTokenBucket (Some \<lparr>Rate = 0, Capacity = 5\<rparr>) start"
  have "float64 5 = 5" using float64_exact [of 5] by simp
  then have "fst (allow_run tb_Allow (map clock [0..<8]) ?rl) = replicate 5 True @ replicate 3 False"
    using tb_run_no_refill [of ?rl 5 "map clock [0..<8]"] by (simp add: NewTokenBucket_def)
  then show ?thesis by (simp add: runLimiter_def limiter_loop_run)
qed

lemma runSemaphore_ok: "runSemaphore = (Inr (3, 3, 5), sem_New 8)"
  by code_simp

text \<open>
  The breaker's checks depend on the clock: the fourth call and the first look at the state
  must come within the breaker's timeout after the third call opened it, and the probe after it.
\<close>

definition timely :: "breaker_clock \<Rightarrow> bool" where
  "timely ck \<longleftrightarrow>
     (let opened = snd (snd (bk_fail ck 2)) in
      fst (bk_fail ck 3) - opened < 100 * millisecond \<and> bk_open ck - opened < 100 * millisecond \<and>
      100 * millisecond \<le> fst (bk_probe ck) - opened)"

lemma runBreaker_ok:
  assumes "timely ck"
  shows "runBreaker ck = Inr (0, ''closed'', True)"
proof -
  let ?cfg = "\<lparr>MaxFailures = 3, Timeout = 100 * millisecond, HalfOpenRequests = 1\<rparr>"
  let ?t = "\<lambda>i. fst (snd (bk_fail ck i))"
  define opened where "opened = snd (snd (bk_fail ck 2))"
  let ?closed = "\<lambda>n last. \<lparr>cb_cfg = ?cfg, cb_st = Closed, failures = n, successes = 0, halfOpenAllowed = 0, lastFailure = last\<rparr>"
  let ?open = "\<lparr>cb_cfg = ?cfg, cb_st = Open, failures = 3, successes = 0, halfOpenAllowed = 0, lastFailure = opened\<rparr>"
  have ms: "0 \<le> 100 * millisecond" "100 * millisecond \<le> max_i64" by (simp_all add: go_defs)
  have early: "\<not> 100 * millisecond \<le> time_sub t opened" if "t - opened < 100 * millisecond" for t
    using that time_sub_ge [OF ms] by simp
  have late: "100 * millisecond \<le> time_sub (fst (bk_probe ck)) opened"
    using assms time_sub_ge [OF ms] by (simp add: timely_def opened_def Let_def)
  note defs = failing_call_def cb_Execute_def cb_admit_def cb_transitions case_prod_beta Let_def
  have new: "cb_New (bk_zero ck) (Some ?cfg) = ?closed 0 (bk_zero ck)" by (simp add: cb_New_def)
  have one: "failing_call (bk_fail ck i) (?closed n last) = ?closed (n + 1) (?t i)" if "0 \<le> n" "n < 2" for i n last
  proof -
    have "wrap64 (n + 1) = n + 1" using that by (simp add: go_defs)
    with that show ?thesis by (simp add: defs)
  qed
  have three: "failing_call (bk_fail ck 2) (?closed 2 last) = ?open" for last
    by (simp add: defs opened_def wrap64_def)
  have four: "failing_call (bk_fail ck 3) ?open = ?open"
    using early assms by (simp add: defs timely_def opened_def [symmetric])
  have "failing_calls ck 4 (?closed 0 (bk_zero ck)) = ?open"
  proof -
    have "[0..<4] = [0, 1, 2, 3 :: nat]" by (simp add: upt_rec)
    then show ?thesis using one [of 0 0 "bk_zero ck"] one [of 1 1] three four by (simp add: failing_calls_def)
  qed
  moreover have "cb_State (bk_open ck) ?open = (Open, ?open)"
    using early assms by (simp add: cb_State_def defs timely_def opened_def [symmetric])
  moreover have "cb_Execute (fst (bk_probe ck)) (Ok :: string outcome) t1 t2 ?open = (Ok, ?closed 0 opened)" for t1 t2
    using late by (simp add: defs wrap64_def)
  moreover have "cb_State t (?closed 0 opened) = (Closed, ?closed 0 opened)" for t
    by (simp add: cb_State_def defs)
  ultimately show ?thesis
    using new by (simp add: runBreaker_def Let_def case_prod_beta cb_Failures_def state_text_def State_String_def)
qed

subsection \<open>Properties\<close>

lemma run_primitives_ok:
  assumes "wo_results w = Inr 12" and "mset (wo_order w) = mset [0..<12]" and "timely (wo_breaker w)"
  shows "run_primitives w =
    Inr ((12, 10, 2), (5, ''critical-1''), (5, 5, 3), (0, ''closed'', True), (3, 3, 5))"
  by (simp add: run_primitives_def assms(1) runPool_ok [OF assms(2)] runQueue_ok runLimiter_ok
      runBreaker_ok [OF assms(3)] runSemaphore_ok)

lemma require_keys_ok: "require_keys f ks = Inr () \<longleftrightarrow> list_all (\<lambda>k. k \<in> fst ` set (fx_entries f)) ks"
proof (induction ks)
  case (Cons k ks)
  then show ?case
    by (cases "map_of (fx_entries f) k = None") (simp_all add: requireKey_def map_of_eq_None_iff)
qed simp

lemma loadFixture_ok:
  "loadFixture rd um path l = Inr f \<longleftrightarrow>
     (\<exists>raw es. rd path = Inr raw \<and> um raw = Inr es \<and> es \<noteq> [] \<and> f = \<lparr>fx_locale = l, fx_entries = es\<rparr>)"
  by (auto simp: loadFixture_def split: sum.splits)

definition fixtures_read :: "'raw world \<Rightarrow> string \<Rightarrow> 'raw \<Rightarrow> (string \<times> string) list \<Rightarrow> 'raw \<Rightarrow> (string \<times> string) list \<Rightarrow> bool" where
  "fixtures_read w dir raw es raw' es' \<longleftrightarrow> wo_Getwd w = Inr dir \<and>
     wo_ReadFile w (fixture_path dir ''en.yaml'') = Inr raw \<and> wo_Unmarshal w raw = Inr es \<and>
     wo_ReadFile w (fixture_path dir ''sr-Latn.yaml'') = Inr raw' \<and> wo_Unmarshal w raw' = Inr es'"

lemma load_all_ok:
  "load_all w = Inr (en, sr) \<longleftrightarrow>
     (\<exists>dir raw raw' es es'. fixtures_read w dir raw es raw' es' \<and> es \<noteq> [] \<and> es' \<noteq> [] \<and>
        list_all (\<lambda>k. k \<in> fst ` set es) requiredKeys \<and> list_all (\<lambda>k. k \<in> fst ` set es') requiredKeys \<and>
        en = \<lparr>fx_locale = ''en'', fx_entries = es\<rparr> \<and> sr = \<lparr>fx_locale = ''sr-Latn'', fx_entries = es'\<rparr>)"
proof (cases "wo_Getwd w")
  case (Inr dir)
  show ?thesis
    unfolding load_all_def fixtures_read_def Inr sum.case and_then_Inr loadFixture_ok
    by (auto simp: require_keys_ok)
qed (simp add: load_all_def fixtures_read_def)

text \<open>The banners differ, and neither is empty nor the key itself.\<close>

definition banners_distinct :: "(string \<times> string) list \<Rightarrow> (string \<times> string) list \<Rightarrow> bool" where
  "banners_distinct es es' \<longleftrightarrow>
     map_of es ''challenge.banner'' \<noteq> map_of es' ''challenge.banner'' \<and>
     map_of es ''challenge.banner'' \<notin> {Some [], Some ''challenge.banner''} \<and>
     map_of es' ''challenge.banner'' \<notin> {Some [], Some ''challenge.banner''}"

lemma banner_checks_ok:
  assumes "''challenge.banner'' \<in> fst ` set es" and "''challenge.banner'' \<in> fst ` set es'"
  shows "banner_checks \<lparr>fx_locale = l, fx_entries = es\<rparr> \<lparr>fx_locale = l', fx_entries = es'\<rparr> = Inr () \<longleftrightarrow> banners_distinct es es'"
proof -
  obtain a b where "map_of es ''challenge.banner'' = Some a" "map_of es' ''challenge.banner'' = Some b"
    using assms by (metis map_of_eq_None_iff option.exhaust)
  then show ?thesis by (auto simp: banners_distinct_def banner_checks_def verbatim_check_def fx_t_def split: if_splits)
qed

text \<open>
  C32. When the pool executed all its tasks and the breaker's calls came in time, the checks of
  the components all pass, and the exit code is 0 exactly if both fixtures can be read, hold
  every required key, and have different banners, neither empty nor the key itself.
\<close>

theorem runner_exit_zero_iff:
  assumes "wo_results w = Inr 12" and "mset (wo_order w) = mset [0..<12]" and "timely (wo_breaker w)"
  shows "exit_code (run w) = 0 \<longleftrightarrow>
    (\<exists>dir raw raw' es es'. wo_Getwd w = Inr dir \<and>
       wo_ReadFile w (fixture_path dir ''en.yaml'') = Inr raw \<and> wo_Unmarshal w raw = Inr es \<and>
       wo_ReadFile w (fixture_path dir ''sr-Latn.yaml'') = Inr raw' \<and> wo_Unmarshal w raw' = Inr es' \<and>
       list_all (\<lambda>k. k \<in> fst ` set es \<and> k \<in> fst ` set es') requiredKeys \<and> banners_distinct es es')"
proof -
  have key: "''challenge.banner'' \<in> set requiredKeys" by (simp add: requiredKeys_def)
  have checks: "list_all (\<lambda>k. k \<in> fst ` set es) requiredKeys \<and> list_all (\<lambda>k. k \<in> fst ` set es') requiredKeys \<and>
      banner_checks \<lparr>fx_locale = l, fx_entries = es\<rparr> \<lparr>fx_locale = l', fx_entries = es'\<rparr> = Inr () \<longleftrightarrow>
      list_all (\<lambda>k. k \<in> fst ` set es \<and> k \<in> fst ` set es') requiredKeys \<and> banners_distinct es es'" for es es' l l'
    using key banner_checks_ok [of es es'] by (auto simp: list_all_iff)
  have nonempty: "es \<noteq> []" if "list_all (\<lambda>k. k \<in> fst ` set es) requiredKeys" for es :: "(string \<times> string) list"
    using that key by (auto simp: list_all_iff)
  have "exit_code (run w) = 0 \<longleftrightarrow> run w = Inr ()"
    by (simp add: exit_code_def split: sum.split)
  also have "\<dots> \<longleftrightarrow> (\<exists>en sr. load_all w = Inr (en, sr) \<and> banner_checks en sr = Inr ())"
    by (auto simp: run_def run_primitives_ok [OF assms] and_then_Inr)
  also have "\<dots> \<longleftrightarrow> (\<exists>dir raw raw' es es'. fixtures_read w dir raw es raw' es' \<and>
      list_all (\<lambda>k. k \<in> fst ` set es \<and> k \<in> fst ` set es') requiredKeys \<and> banners_distinct es es')"
    (is "?checked \<longleftrightarrow> ?read")
  proof
    assume ?checked
    then obtain dir raw raw' es es' where "fixtures_read w dir raw es raw' es'"
      and "list_all (\<lambda>k. k \<in> fst ` set es) requiredKeys \<and> list_all (\<lambda>k. k \<in> fst ` set es') requiredKeys \<and>
        banner_checks \<lparr>fx_locale = ''en'', fx_entries = es\<rparr> \<lparr>fx_locale = ''sr-Latn'', fx_entries = es'\<rparr> = Inr ()"
      unfolding load_all_ok by blast
    then show ?read unfolding checks by blast
  next
    assume ?read
    then obtain dir raw raw' es es' where "fixtures_read w dir raw es raw' es'"
      and "list_all (\<lambda>k. k \<in> fst ` set es) requiredKeys \<and> list_all (\<lambda>k. k \<in> fst ` set es') requiredKeys \<and>
        banner_checks \<lparr>fx_locale = ''en'', fx_entries = es\<rparr> \<lparr>fx_locale = ''sr-Latn'', fx_entries = es'\<rparr> = Inr ()"
      unfolding checks by blast
    moreover from this(2) have "es \<noteq> [] \<and> es' \<noteq> []"
      by (intro conjI nonempty) (elim conjE, assumption)+
    ultimately show ?checked unfolding load_all_ok by blast
  qed
  finally show ?thesis unfolding fixtures_read_def by simp
qed

definition demo_world :: "string world" where
  "demo_world = \<lparr>wo_Getwd = Inr ''/repo'', wo_ReadFile = (\<lambda>path. Inr path),
     wo_Unmarshal = (\<lambda>raw. Inr (map (\<lambda>k. (k, raw @ k)) requiredKeys)), wo_order = rev [0..<12], wo_results = Inr 12,
     wo_start = 0, wo_clock = (\<lambda>_. 0),
     wo_breaker = \<lparr>bk_zero = 0, bk_fail = (\<lambda>_. (0, 0, 0)), bk_open = 0, bk_open_text = 0,
       bk_probe = (150000000, 0, 0), bk_closed = 0, bk_closed_text = 0, bk_end = 0\<rparr>\<rparr>"

theorem runner_exit_zero_iff_witness: "exit_code (run demo_world) = 0"
proof -
  have "wo_results demo_world = Inr 12" "mset (wo_order demo_world) = mset [0..<12]" "timely (wo_breaker demo_world)"
    by (simp_all add: demo_world_def timely_def go_defs)
  from runner_exit_zero_iff [OF this] show ?thesis
    by (simp add: demo_world_def fixture_path_def requiredKeys_def banners_distinct_def)
qed

text \<open>
  The exit code for a regression of a component is told from the word in the error text, and
  three of the texts lack it: a queue that pops out of order, a pool that executed too few
  tasks and a breaker that rejects its probe exit as if a fixture could not be read. Two fixtures with
  the same banner exit as if a component had failed.
\<close>

theorem runner_exit_codes:
  "exit_code (Inl (QueueOrder 1 3 ''critical-1'') :: run_error + unit) = 1 \<and>
   exit_code (Inl (PoolExecutions 12 11) :: run_error + unit) = 1 \<and>
   exit_code (Inl (BreakerProbe (cb_error_text (Err CbOpen))) :: run_error + unit) = 1 \<and>
   exit_code (Inl (QueueDrained 4) :: run_error + unit) = 2 \<and>
   exit_code (Inl (SameBanner ''x'') :: run_error + unit) = 2"
  by code_simp

end
