(* ===== verification/Spec2Isabelle.thy ===== *)
theory Spec2Isabelle
  imports Go_Prelude Priority_Queue Semaphore Permit_Pool Bulkhead Gin_Middleware Circuit_Breaker Pool_Batches Rate_Limiter Retry Safe_Store Safe_Slice Lazy_Loader Monitor Runner
begin

text \<open>
  This library verifies the Go module of concurrency primitives: the packages under \<open>pkg/\<close>
  and their one client in the repository, \<open>challenges/runner\<close>.

  \<^bold>\<open>Common ground.\<close> \<open>Go_Prelude\<close> has 64-bit integers as integers with explicit wrap-around
  (\<open>wrap64\<close>, proved to be the signed reading of a 64-bit word), division that truncates,
  durations and clock readings in nanoseconds, the three outcomes of a client's function
  (nil, error, panic), the text of \<open>%d\<close>, reachable states with the locale
  \<open>inductive_invariant\<close>, and runs of operations with the locale \<open>op_refinement\<close>. \<open>Float64\<close> has
  rounding to double precision, used through the locale \<open>float_rounding\<close>.

  \<^bold>\<open>Granularity.\<close> A method that holds one lock for its whole body is one function on the
  state; so are the queue, the limiters, the store, the slice and the lazy loader modelled.
  Where a method lets others run in between, its sections are separate steps: the semaphore's
  waiting \<open>Acquire\<close>, the breaker's \<open>Execute\<close> around the client's function, the worker pool (where
  each atomic addition to a counter is a step), and the monitor's \<open>Start\<close> and loop (where the
  return of the getter and the locked store of its result are two). Clock readings, choices of a \<open>select\<close>, the order in which a map
  is ranged over, what client functions do and the random number of the jitter are
  arguments, so the theorems hold for all of them.

  \<^bold>\<open>Components.\<close>

  \<^item> \<open>Priority_Queue\<close> (\<open>pkg/queue/queue.go\<close>): items, \<open>Less\<close>, \<open>Swap\<close>, the loops of \<open>container/heap\<close>
    and the operations. The heap is ordered, every item knows its position, and the operations
    refine a stable list of entries (locale \<open>stable_priority_queue\<close>); draining sorts.
  \<^item> \<open>Semaphore\<close> (\<open>pkg/semaphore/semaphore.go\<close>): the operations, and goroutines that
    use them as a step relation (\<open>sem_step\<close>): never oversubscribed, no waiter stranded, \<open>Release\<close>
    wakes, front to back, what fits; and the loss of weight when a woken waiter is cancelled.
  \<^item> \<open>Permit_Pool\<close> is the contract shared by \<open>Bulkhead\<close> (\<open>pkg/bulkhead/bulkhead.go\<close>) and
    \<open>Gin_Middleware\<close> (\<open>pkg/gin/gin.go\<close>): callers enter and leave as a bounded counter allows.
  \<^item> \<open>Circuit_Breaker\<close> (\<open>pkg/breaker/breaker.go\<close>): one call at a time it refines a machine
    of three states, functions that panic included; overlapping calls are steps (\<open>cb_step\<close>), with
    the bound on probes and the runs on which late probes close or open it.
  \<^item> \<open>Worker_Pool\<close>, \<open>Pool_Invariants\<close>, \<open>Pool_Runs\<close>, \<open>Pool_Properties\<close>, \<open>Pool_Batches\<close>
    (\<open>pkg/pool/pool.go\<close>): the pool as a transition system with a program counter per worker
    and caller (\<open>pool_step\<close>), its invariants, and what follows for concurrency, metrics (against
    a ghost log of all executions), the fate of tasks, shutdown, draining, results (each says
    what its task returned) and batches; and runs that crash or reorder.
  \<^item> \<open>Rate_Limiter\<close> (\<open>pkg/limiter/limiter.go\<close>): the token bucket in double precision
    and the sliding window, with bounds on what they allow, a refinement to the history of requests, and
    \<open>Wait\<close> as a loop over \<open>Allow\<close> (locale \<open>rate_limiter\<close>).
  \<^item> \<open>Retry\<close> (\<open>pkg/retry/retry.go\<close>): the loop of attempts with its callbacks, the
    bounds of the delays, and the largest \<open>MaxDelay\<close>, for which they fail.
  \<^item> \<open>Safe_Store\<close> and \<open>Safe_Slice\<close> (\<open>pkg/safe/store.go\<close>, \<open>pkg/safe/slice.go\<close>): the store
    is a map (locales \<open>kv_store\<close> and \<open>op_refinement\<close>), also from its zero value, and gives back its
    entries; the searches of the slice agree on the first match.
  \<^item> \<open>Lazy_Loader\<close> (\<open>pkg/lazyloader/lazyloader.go\<close>): the cache as a history of loads, and the
    chunks of a text joined are the text.
  \<^item> \<open>Monitor\<close> (\<open>pkg/monitor/monitor.go\<close>): one collection from what the system answers, and
    runs of \<open>Start\<close>, \<open>Stop\<close> and the collecting goroutines: in a monitor started once \<open>Latest\<close> is the
    last snapshot and \<open>Stop\<close> ends the collection; a second \<open>Start\<close> leaks the first goroutine, and
    \<open>Latest\<close> can go back to an older snapshot.
  \<^item> \<open>Runner\<close> (\<open>challenges/runner/main.go\<close>): the checks of the challenge on the models
    above, composed as \<open>run\<close> composes them, and when the exit code is 0.

  \<^bold>\<open>Bounds and fuel.\<close> The queue's refinement assumes fewer than \<open>2 ^ 64\<close> pushes (its counter
  wraps); the semaphore's, a capacity below \<open>2 ^ 62\<close> (above it \<open>TryAcquire\<close> is shown to
  overflow); the bounds of the delays, a \<open>MaxDelay\<close> up to \<open>2 ^ 62\<close>; the string loader's, lengths whose sum fits 64 bits. Loops of the code are
  terminating functions; the one with fuel, \<open>drain\<close>, is proved to need one more than the number of items. Loops that
  wait (\<open>Wait\<close>, \<open>Acquire\<close>, workers) are lists of rounds or steps, and what they
  return or that a step is possible is proved.

  \<^bold>\<open>Not modelled.\<close> Data races: the monitor's cancel function is written without a lock and
  is treated as atomic. Aliasing of configurations: the constructors that fill in defaults
  (\<open>breaker.New\<close>, \<open>monitor.New\<close>) write them into the caller's \<open>Config\<close>; here they keep a copy.
  Goroutines that release other weights than they hold are no steps of \<open>sem_step\<close>; \<open>sem_Release\<close>
  itself takes every weight. Memory limits and allocation. Overflow to infinity and NaN in
  floating point. Logging, texts of wrapped errors. gopsutil, the web framework
  and YAML are arguments. The counters of the pool's metrics are unbounded.
  Tests, scripts and documents are no part of the model; findings compare documents with it.

  \<^bold>\<open>Plan.\<close> The next steps are a refinement of the pool to a queue with a bounded number of
  servers and the composition of the runner with a run of the pool instead of its outcome.
\<close>

end
